theory Spec2Isabelle
  imports Main "HOL-Library.Multiset" "HOL-Library.AList"
begin

section \<open>The step model (sorting\_algorithms.py, lines 17--62)\<close>

text \<open>
  The five highlight styles of \<^verbatim>\<open>class HighlightType(Enum)\<close>.
\<close>

datatype HighlightType = DEFAULT | COMPARE | SWAP | PIVOT | SORTED

text \<open>
  \<^verbatim>\<open>SortState\<close> is a frozen dataclass. The array is a tuple of the elements, the
  highlights are a Python dict (an association list in insertion order, every key once),
  the sorted indices are a tuple of ints. Indices are Python ints, hence \<open>int\<close>.
  The element type is left open: Python compares elements with \<^verbatim>\<open><\<close>, \<^verbatim>\<open>>\<close> and
  \<^verbatim>\<open><=\<close> whatever they are; at type \<open>int\<close> the definitions below are the source's
  functions as annotated.
\<close>

record 'a SortState =
  array :: "'a list"
  highlights :: "(int \<times> HighlightType) list"
  sorted_indices :: "int list"
  description :: string

text \<open>
  Python's \<^verbatim>\<open>str\<close> of an int, as used by the f-strings of the descriptions.
\<close>

definition digit :: "nat \<Rightarrow> char" where
  "digit d = ''0123456789'' ! d"

fun str_nat :: "nat \<Rightarrow> string" where
  "str_nat n = (if n < 10 then [digit n] else str_nat (n div 10) @ [digit (n mod 10)])"

declare str_nat.simps [simp del]

definition str :: "int \<Rightarrow> string" where
  "str i = (if i < 0 then CHR ''-'' # str_nat (nat (- i)) else str_nat (nat i))"

text \<open>
  List primitives on Python int indices. \<^verbatim>\<open>xs[i]\<close> with a negative \<open>i\<close> counts from
  the end; an index outside \<open>-len..len-1\<close> raises IndexError in Python and is an
  unspecified value here. Every index the engines compute lies in \<open>0..len-1\<close>: the
  loops below bound it, and the lemmas on valid indices record the bounds.
\<close>

definition len :: "'a list \<Rightarrow> int" where
  "len xs = int (length xs)"

definition getitem :: "'a list \<Rightarrow> int \<Rightarrow> 'a" where
  "getitem xs i = xs ! nat (if i < 0 then len xs + i else i)"

definition setitem :: "'a list \<Rightarrow> int \<Rightarrow> 'a \<Rightarrow> 'a list" where
  "setitem xs i v = xs[nat (if i < 0 then len xs + i else i) := v]"

text \<open>
  \<^verbatim>\<open>arr[a], arr[b] = arr[b], arr[a]\<close>: the right-hand side is evaluated first, then
  the two cells are assigned from left to right.
\<close>

definition swap :: "'a list \<Rightarrow> int \<Rightarrow> int \<Rightarrow> 'a list" where
  "swap xs a b = setitem (setitem xs a (getitem xs b)) b (getitem xs a)"

text \<open>\<^verbatim>\<open>xs[a:b]\<close> for \<open>0 \<le> a\<close>, \<open>0 \<le> b\<close> (a slice clamps at the end of the list).\<close>

definition slice :: "'a list \<Rightarrow> int \<Rightarrow> int \<Rightarrow> 'a list" where
  "slice xs a b = take (nat b - nat a) (drop (nat a) xs)"

text \<open>\<^verbatim>\<open>range(a, b)\<close> as the list of its elements.\<close>

definition py_range :: "int \<Rightarrow> int \<Rightarrow> int list" where
  "py_range a b = [a..b - 1]"

text \<open>
  \<^verbatim>\<open>{idx: hl for idx, hl in highlights}\<close>: a later pair with a key already present
  replaces the value in place, a new key is appended.
\<close>

definition dict_of :: "('k \<times> 'v) list \<Rightarrow> ('k \<times> 'v) list" where
  "dict_of ps = fold (\<lambda>(k, v). AList.update k v) ps []"

text \<open>
  \<^verbatim>\<open>_state(array, highlights, sorted_indices, description)\<close>. The sorted indices
  come in as a set (or a range, passed as the set of its elements) and go out as
  \<^verbatim>\<open>tuple(sorted(set(...)))\<close>. An omitted argument is the empty list, set or string.
\<close>

definition priv_state ::
  "'a list \<Rightarrow> (int \<times> HighlightType) list \<Rightarrow> int set \<Rightarrow> string \<Rightarrow> 'a SortState" where
  "priv_state arr hls S d =
     \<lparr>array = arr, highlights = dict_of hls,
      sorted_indices = sorted_list_of_set S, description = d\<rparr>"

section \<open>Generators\<close>

text \<open>
  A generator function is modelled by the finite list of the snapshots it yields, in
  order, together with the state it leaves behind (the working array, the set of sorted
  indices, its locals). Pulling \<open>k\<close> snapshots from a run is \<open>take k\<close> of the list.

  \<^verbatim>\<open>for j in range(a, b): body\<close>: the body yields a list of snapshots and updates
  the loop's state; the range is evaluated once.
\<close>

function for_range ::
  "int \<Rightarrow> int \<Rightarrow> (int \<Rightarrow> 's \<Rightarrow> 'y list \<times> 's) \<Rightarrow> 's \<Rightarrow> 'y list \<times> 's" where
  "for_range j stop body st =
     (if j < stop then
        (case body j st of (ys, st1) \<Rightarrow>
           (case for_range (j + 1) stop body st1 of (zs, st2) \<Rightarrow> (ys @ zs, st2)))
      else ([], st))"
  by pat_completeness auto
termination
  by (relation "measure (\<lambda>(j, stop, body, st). nat (stop - j))") auto

declare for_range.simps [simp del]

section \<open>Bubble sort (lines 65--101)\<close>

definition bubble_body :: "int set \<Rightarrow> int \<Rightarrow> int list \<Rightarrow> int SortState list \<times> int list" where
  "bubble_body S j arr =
     (let s1 = priv_state arr [(j, COMPARE), (j + 1, COMPARE)] S
                 (''Comparing indices '' @ str j @ '' and '' @ str (j + 1))
      in if getitem arr j > getitem arr (j + 1) then
           (let arr1 = swap arr j (j + 1)
            in ([s1, priv_state arr1 [(j, SWAP), (j + 1, SWAP)] S
                       (''Swapped indices '' @ str j @ '' and '' @ str (j + 1))], arr1))
         else ([s1], arr))"

definition bubble_pass ::
  "int \<Rightarrow> int \<Rightarrow> int list \<times> int set \<Rightarrow> int SortState list \<times> (int list \<times> int set)" where
  "bubble_pass n i st =
     (case st of (arr, S) \<Rightarrow>
        (case for_range 0 (n - i - 1) (bubble_body S) arr of (ys, arr1) \<Rightarrow>
           (let S1 = insert (n - i - 1) S
            in (ys @ [priv_state arr1 [(n - i - 1, SORTED)] S1
                        (''Position '' @ str (n - i - 1) @ '' is sorted'')], (arr1, S1)))))"

definition bubble_sort :: "int list \<Rightarrow> int SortState list" where
  "bubble_sort data =
     (let arr = data; n = len arr
      in case for_range 0 n (bubble_pass n) (arr, {}) of (ys, (arr1, S1)) \<Rightarrow>
           ys @ [priv_state arr1 [] (set (py_range 0 n)) ''Bubble sort complete''])"

section \<open>Insertion sort (lines 104--150)\<close>

text \<open>The \<^verbatim>\<open>while j >= 0 and arr[j] > key\<close> loop; it leaves the array and \<open>j\<close>.\<close>

function insertion_while ::
  "int set \<Rightarrow> int \<Rightarrow> int list \<Rightarrow> int \<Rightarrow> int SortState list \<times> int list \<times> int" where
  "insertion_while S key arr j =
     (if j \<ge> 0 \<and> getitem arr j > key then
        (let s1 = priv_state arr [(j, COMPARE), (j + 1, COMPARE)] S
                    (''Comparing key with index '' @ str j);
             arr1 = setitem arr (j + 1) (getitem arr j);
             s2 = priv_state arr1 [(j, SWAP), (j + 1, SWAP)] S
                    (''Shifting value at index '' @ str j @ '' to index '' @ str (j + 1))
         in case insertion_while S key arr1 (j - 1) of
              (ys, arr2, j2) \<Rightarrow> (s1 # s2 # ys, arr2, j2))
      else ([], arr, j))"
  by pat_completeness auto
termination
  by (relation "measure (\<lambda>(S, key, arr, j). nat (j + 1))") auto

declare insertion_while.simps [simp del]

definition insertion_body ::
  "int \<Rightarrow> int list \<times> int set \<Rightarrow> int SortState list \<times> (int list \<times> int set)" where
  "insertion_body i st =
     (case st of (arr, S) \<Rightarrow>
        (let key = getitem arr i; j = i - 1;
             s0 = priv_state arr [(i, PIVOT)] S (''Selecting key at index '' @ str i)
         in case insertion_while S key arr j of (ys, arr1, j1) \<Rightarrow>
              (let arr2 = setitem arr1 (j1 + 1) key;
                   S1 = S \<union> set (py_range 0 (i + 1))
               in (s0 # ys @ [priv_state arr2 [(j1 + 1, SWAP)] S1
                                (''Inserted key at index '' @ str (j1 + 1))], (arr2, S1)))))"

definition insertion_sort :: "int list \<Rightarrow> int SortState list" where
  "insertion_sort data =
     (let arr = data
      in case for_range 1 (len arr) insertion_body (arr, {}) of (ys, (arr1, S1)) \<Rightarrow>
           ys @ [priv_state arr1 [] (set (py_range 0 (len arr1))) ''Insertion sort complete''])"

section \<open>Selection sort (lines 153--191)\<close>

text \<open>The body of the inner loop; its state is \<^verbatim>\<open>min_idx\<close>.\<close>

definition selection_scan ::
  "int list \<Rightarrow> int set \<Rightarrow> int \<Rightarrow> int \<Rightarrow> int \<Rightarrow> int SortState list \<times> int" where
  "selection_scan arr S i j min_idx =
     (let s1 = priv_state arr [(min_idx, PIVOT), (j, COMPARE)] S
                 (''Finding minimum from index '' @ str i @ '' onward'')
      in if getitem arr j < getitem arr min_idx then
           ([s1, priv_state arr [(j, PIVOT)] S (''New minimum at index '' @ str j)], j)
         else ([s1], min_idx))"

definition selection_pass ::
  "int \<Rightarrow> int \<Rightarrow> int list \<times> int set \<Rightarrow> int SortState list \<times> (int list \<times> int set)" where
  "selection_pass n i st =
     (case st of (arr, S) \<Rightarrow>
        (case for_range (i + 1) n (selection_scan arr S i) i of (ys, min_idx) \<Rightarrow>
           (let arr1 = swap arr i min_idx; S1 = insert i S
            in (ys @ [priv_state arr1 [(i, SORTED), (min_idx, SWAP)] S1
                        (''Swapped minimum into position '' @ str i)], (arr1, S1)))))"

definition selection_sort :: "int list \<Rightarrow> int SortState list" where
  "selection_sort data =
     (let arr = data; n = len arr
      in case for_range 0 n (selection_pass n) (arr, {}) of (ys, (arr1, S1)) \<Rightarrow>
           ys @ [priv_state arr1 [] (set (py_range 0 n)) ''Selection sort complete''])"

section \<open>Quick sort (lines 194--254)\<close>

text \<open>The body of the partition loop; its state is the array and \<open>i\<close>.\<close>

definition partition_body ::
  "int set \<Rightarrow> int \<Rightarrow> int \<Rightarrow> int \<Rightarrow> int list \<times> int \<Rightarrow> int SortState list \<times> (int list \<times> int)" where
  "partition_body S high pivot j st =
     (case st of (arr, i) \<Rightarrow>
        (let s1 = priv_state arr [(j, COMPARE), (high, PIVOT)] S
                    (''Comparing index '' @ str j @ '' with pivot'')
         in if getitem arr j \<le> pivot then
              (let i1 = i + 1; arr1 = swap arr i1 j
               in ([s1, priv_state arr1 [(i1, SWAP), (j, SWAP)] S
                          (''Swapped indices '' @ str i1 @ '' and '' @ str j)], (arr1, i1)))
            else ([s1], (arr, i))))"

text \<open>
  Lines 211--243 of \<^verbatim>\<open>_quick_sort\<close>: the pivot is chosen, the range is partitioned,
  the pivot is swapped into place and recorded as sorted. The result is the snapshots,
  the array, the pivot's index and the set of sorted indices.
\<close>

definition lomuto_partition ::
  "int list \<Rightarrow> int \<Rightarrow> int \<Rightarrow> int set \<Rightarrow> int SortState list \<times> int list \<times> int \<times> int set" where
  "lomuto_partition arr low high S =
     (let pivot = getitem arr high; i = low - 1;
          s0 = priv_state arr [(high, PIVOT)] S (''Pivot chosen at index '' @ str high)
      in case for_range low high (partition_body S high pivot) (arr, i) of
           (ys, (arr1, i1)) \<Rightarrow>
             (let arr2 = swap arr1 (i1 + 1) high; pivot_idx = i1 + 1;
                  S1 = insert pivot_idx S
              in (s0 # ys @ [priv_state arr2 [(pivot_idx, SORTED)] S1
                               (''Pivot settled at index '' @ str pivot_idx)],
                  arr2, pivot_idx, S1)))"

text \<open>
  \<^verbatim>\<open>_quick_sort(arr, low, high, sorted_indices)\<close>; the array and the set are shared
  and mutated by the recursive calls, so each call returns them.
\<close>

function priv_quick_sort ::
  "int list \<Rightarrow> int \<Rightarrow> int \<Rightarrow> int set \<Rightarrow> int SortState list \<times> int list \<times> int set" where
  "priv_quick_sort arr low high S =
     (if low \<ge> high then
        (if low = high then
           (let S1 = insert low S
            in ([priv_state arr [(low, SORTED)] S1 (''Index '' @ str low @ '' is sorted'')],
                arr, S1))
         else ([], arr, S))
      else
        (case lomuto_partition arr low high S of (ys, arr2, pivot_idx, S1) \<Rightarrow>
           (case priv_quick_sort arr2 low (pivot_idx - 1) S1 of (ls, arr3, S2) \<Rightarrow>
              (case priv_quick_sort arr3 (pivot_idx + 1) high S2 of (rs, arr4, S3) \<Rightarrow>
                 (ys @ ls @ rs, arr4, S3)))))"
  by pat_completeness auto
termination
proof (relation "measure (\<lambda>(arr, low, high, S). nat (high - low + 1))")
  have loop: "i \<le> i1 \<and> i1 - i \<le> max 0 (high - j)"
    if "for_range j high (partition_body S high pivot) (arr, i) = (ys, (arr1, i1))"
    for j high S pivot arr i ys arr1 i1
    using that
  proof (induction j high "partition_body S high pivot" "(arr, i)"
      arbitrary: arr i ys arr1 i1 rule: for_range.induct)
    case (1 j stop)
    show ?case
    proof (cases "j < stop")
      case False
      with "1.prems" show ?thesis by (simp add: for_range.simps)
    next
      case True
      obtain zs a2 i2 where b: "partition_body S stop pivot j (arr, i) = (zs, (a2, i2))"
        by (metis prod.exhaust)
      obtain ws s2 where r: "for_range (j + 1) stop (partition_body S stop pivot) (a2, i2) = (ws, s2)"
        by (metis prod.exhaust)
      from "1.prems" True b r have s2: "s2 = (arr1, i1)"
        by (simp add: for_range.simps)
      from b have i2: "i \<le> i2 \<and> i2 \<le> i + 1"
        by (auto simp: partition_body_def Let_def split: if_splits)
      from "1.hyps"[OF True b[symmetric] r[unfolded s2]] i2 True show ?thesis
        by auto
    qed
  qed
  have part: "low \<le> p \<and> p \<le> high"
    if "lomuto_partition arr low high S = (ys, arr2, p, S1)" "low < high"
    for arr low high S ys arr2 p S1
  proof -
    obtain zs a1 i1 where
      f: "for_range low high (partition_body S high (getitem arr high)) (arr, low - 1) = (zs, (a1, i1))"
      by (metis prod.exhaust)
    from that(1) f have "p = i1 + 1" by (auto simp: lomuto_partition_def Let_def)
    with loop[OF f] that(2) show ?thesis by auto
  qed
  show "wf (measure (\<lambda>(arr, low, high, S). nat (high - low + 1)))" by simp
  show "((arr2, low, p - 1, S1), arr, low, high, S) \<in> measure (\<lambda>(arr, low, high, S). nat (high - low + 1))"
    if "\<not> high \<le> low" "(ys, y) = lomuto_partition arr low high S" "(arr2, ya) = y" "(p, S1) = ya"
    for arr low high S ys y arr2 ya p S1
    using part[of arr low high S ys arr2 p S1] that by auto
  show "((arr3, p + 1, high, S2), arr, low, high, S) \<in> measure (\<lambda>(arr, low, high, S). nat (high - low + 1))"
    if "\<not> high \<le> low" "(ys, y) = lomuto_partition arr low high S" "(arr2, ya) = y" "(p, S1) = ya"
    for arr low high S ys y arr2 ya p S1 arr3 S2
    using part[of arr low high S ys arr2 p S1] that by auto
qed

declare priv_quick_sort.simps [simp del]

definition quick_sort :: "int list \<Rightarrow> int SortState list" where
  "quick_sort data =
     (let arr = data
      in case priv_quick_sort arr 0 (len arr - 1) {} of (ys, arr1, S1) \<Rightarrow>
           ys @ [priv_state arr1 [] (set (py_range 0 (len arr1))) ''Quick sort complete''])"

section \<open>Merge sort (lines 257--354)\<close>

text \<open>
  The three loops of \<^verbatim>\<open>_merge\<close>. The first compares the heads of the two copies
  with \<^verbatim>\<open><=\<close>; its state is the array and the cursors \<open>i\<close>, \<open>j\<close>, \<open>k\<close>.
\<close>

function merge_while ::
  "'a::ord list \<Rightarrow> 'a list \<Rightarrow> int \<Rightarrow> int \<Rightarrow> int \<Rightarrow> int set \<Rightarrow> 'a list \<times> int \<times> int \<times> int \<Rightarrow>
     'a SortState list \<times> ('a list \<times> int \<times> int \<times> int)" where
  "merge_while left right start mid end S (arr, i, j, k) =
     (if i < len left \<and> j < len right then
        (let s1 = priv_state arr
                    [(k, COMPARE), (start + i, COMPARE), (mid + 1 + j, COMPARE)] S
                    (''Merging indices '' @ str start @ '' to '' @ str end);
             (arr1, i1, j1) =
               (if getitem left i \<le> getitem right j
                then (setitem arr k (getitem left i), i + 1, j)
                else (setitem arr k (getitem right j), i, j + 1));
             s2 = priv_state arr1 [(k, SWAP)] S (''Placed value at index '' @ str k)
         in case merge_while left right start mid end S (arr1, i1, j1, k + 1) of
              (ys, st) \<Rightarrow> (s1 # s2 # ys, st))
      else ([], (arr, i, j, k)))"
  by pat_completeness auto
termination
  by (relation "measure (\<lambda>(left, right, start, mid, end, S, arr, i, j, k).
        nat (len left - i) + nat (len right - j))") (auto split: if_splits)

declare merge_while.simps [simp del]

function merge_left ::
  "'a list \<Rightarrow> int set \<Rightarrow> 'a list \<times> int \<times> int \<Rightarrow> 'a SortState list \<times> ('a list \<times> int \<times> int)" where
  "merge_left left S (arr, i, k) =
     (if i < len left then
        (let arr1 = setitem arr k (getitem left i);
             s = priv_state arr1 [(k, SWAP)] S
                   (''Copying remaining left element to index '' @ str k)
         in case merge_left left S (arr1, i + 1, k + 1) of (ys, st) \<Rightarrow> (s # ys, st))
      else ([], (arr, i, k)))"
  by pat_completeness auto
termination
  by (relation "measure (\<lambda>(left, S, arr, i, k). nat (len left - i))") auto

declare merge_left.simps [simp del]

function merge_right ::
  "'a list \<Rightarrow> int set \<Rightarrow> 'a list \<times> int \<times> int \<Rightarrow> 'a SortState list \<times> ('a list \<times> int \<times> int)" where
  "merge_right right S (arr, j, k) =
     (if j < len right then
        (let arr1 = setitem arr k (getitem right j);
             s = priv_state arr1 [(k, SWAP)] S
                   (''Copying remaining right element to index '' @ str k)
         in case merge_right right S (arr1, j + 1, k + 1) of (ys, st) \<Rightarrow> (s # ys, st))
      else ([], (arr, j, k)))"
  by pat_completeness auto
termination
  by (relation "measure (\<lambda>(right, S, arr, j, k). nat (len right - j))") auto

declare merge_right.simps [simp del]

definition priv_merge ::
  "'a::ord list \<Rightarrow> int \<Rightarrow> int \<Rightarrow> int \<Rightarrow> int set \<Rightarrow> 'a SortState list \<times> 'a list \<times> int set" where
  "priv_merge arr start mid end S =
     (let left = slice arr start (mid + 1);
          right = slice arr (mid + 1) (end + 1)
      in case merge_while left right start mid end S (arr, 0, 0, start) of
           (ys1, (arr1, i1, j1, k1)) \<Rightarrow>
             (case merge_left left S (arr1, i1, k1) of (ys2, (arr2, i2, k2)) \<Rightarrow>
                (case merge_right right S (arr2, j1, k2) of (ys3, (arr3, j3, k3)) \<Rightarrow>
                   (let S1 = S \<union> set (py_range start (end + 1))
                    in (ys1 @ ys2 @ ys3 @
                        [priv_state arr3 (map (\<lambda>idx. (idx, SORTED)) (py_range start (end + 1))) S1
                           (''Segment '' @ str start @ '':'' @ str end @ '' sorted'')],
                        arr3, S1)))))"

function priv_merge_sort ::
  "'a::ord list \<Rightarrow> int \<Rightarrow> int \<Rightarrow> int set \<Rightarrow> 'a SortState list \<times> 'a list \<times> int set" where
  "priv_merge_sort arr start end S =
     (if start \<ge> end then
        (let S1 = insert start S
         in ([priv_state arr [(start, SORTED)] S1
                (''Index '' @ str start @ '' is trivially sorted'')], arr, S1))
      else
        (let mid = (start + end) div 2
         in case priv_merge_sort arr start mid S of (ys1, arr1, S1) \<Rightarrow>
              (case priv_merge_sort arr1 (mid + 1) end S1 of (ys2, arr2, S2) \<Rightarrow>
                 (case priv_merge arr2 start mid end S2 of (ys3, arr3, S3) \<Rightarrow>
                    (ys1 @ ys2 @ ys3, arr3, S3)))))"
  by pat_completeness auto
termination
  by (relation "measure (\<lambda>(arr, start, end, S). nat (end - start))") auto

declare priv_merge_sort.simps [simp del]

definition merge_sort :: "'a::ord list \<Rightarrow> 'a SortState list" where
  "merge_sort data =
     (let arr = data
      in case (if arr \<noteq> [] then priv_merge_sort arr 0 (len arr - 1) {} else ([], arr, {})) of
           (ys, arr1, S1) \<Rightarrow>
             ys @ [priv_state arr1 [] (set (py_range 0 (len arr1))) ''Merge sort complete''])"

section \<open>The engines as the application binds them (main.py, lines 24--33)\<close>

text \<open>The five engines, in the order of the algorithm map (keys 1 to 5).\<close>

definition engines :: "(int list \<Rightarrow> int SortState list) list" where
  "engines = [bubble_sort, insertion_sort, selection_sort, quick_sort, merge_sort]"

section \<open>The engines in the caller's store\<close>

text \<open>
  The caller's sequences are objects of a store; an address is a position in the store.
  \<^verbatim>\<open>list(data)\<close> allocates a new object holding a copy of the object at the address of
  \<^verbatim>\<open>data\<close>, and returns its address.
\<close>

type_synonym store = "int list list"

definition list_copy :: "store \<Rightarrow> nat \<Rightarrow> store \<times> nat" where
  "list_copy h d = (h @ [h ! d], length h)"

text \<open>
  \<^verbatim>\<open>arr[i] = v\<close> and \<^verbatim>\<open>arr[i], arr[j] = arr[j], arr[i]\<close> where \<^verbatim>\<open>arr\<close> refers to the
  object at address \<open>a\<close>: the object at \<open>a\<close> is updated in place.
\<close>

definition store_setitem :: "store \<Rightarrow> nat \<Rightarrow> int \<Rightarrow> int \<Rightarrow> store" where
  "store_setitem h a i v = h[a := setitem (h ! a) i v]"

definition store_swap :: "store \<Rightarrow> nat \<Rightarrow> int \<Rightarrow> int \<Rightarrow> store" where
  "store_swap h a i j = h[a := swap (h ! a) i j]"

text \<open>
  \<^verbatim>\<open>yield _state(arr, ...)\<close> where \<^verbatim>\<open>arr\<close> refers to the object at address \<open>a\<close>: the
  snapshot reads the object (\<^verbatim>\<open>tuple(arr)\<close>), and the generator is suspended with the
  store as it is. A yield is the snapshot together with that store.
\<close>

definition yield_state ::
  "store \<Rightarrow> nat \<Rightarrow> (int \<times> HighlightType) list \<Rightarrow> int set \<Rightarrow> string \<Rightarrow> int SortState \<times> store" where
  "yield_state h a hls S d = (priv_state (h ! a) hls S d, h)"

subsection \<open>Bubble sort in the store\<close>

text \<open>
  The engines once more, as the programs on the store that they are: \<^verbatim>\<open>data\<close> and
  \<^verbatim>\<open>arr\<close> are addresses, every \<^verbatim>\<open>arr[i]\<close> reads the store and every assignment
  updates it. The set \<^verbatim>\<open>sorted_indices\<close> and the slices \<^verbatim>\<open>left\<close> and \<^verbatim>\<open>right\<close> of
  \<^verbatim>\<open>_merge\<close> are objects of the engine that no caller can reach; they stay values. A
  run returns its yields and the store it leaves at its end.
\<close>

definition bubble_body_st ::
  "nat \<Rightarrow> int set \<Rightarrow> int \<Rightarrow> store \<Rightarrow> (int SortState \<times> store) list \<times> store" where
  "bubble_body_st a S j h =
     (let y1 = yield_state h a [(j, COMPARE), (j + 1, COMPARE)] S
                 (''Comparing indices '' @ str j @ '' and '' @ str (j + 1))
      in if getitem (h ! a) j > getitem (h ! a) (j + 1) then
           (let h1 = store_swap h a j (j + 1)
            in ([y1, yield_state h1 a [(j, SWAP), (j + 1, SWAP)] S
                       (''Swapped indices '' @ str j @ '' and '' @ str (j + 1))], h1))
         else ([y1], h))"

definition bubble_pass_st ::
  "nat \<Rightarrow> int \<Rightarrow> int \<Rightarrow> store \<times> int set \<Rightarrow> (int SortState \<times> store) list \<times> (store \<times> int set)" where
  "bubble_pass_st a n i st =
     (case st of (h, S) \<Rightarrow>
        (case for_range 0 (n - i - 1) (bubble_body_st a S) h of (ys, h1) \<Rightarrow>
           (let S1 = insert (n - i - 1) S
            in (ys @ [yield_state h1 a [(n - i - 1, SORTED)] S1
                        (''Position '' @ str (n - i - 1) @ '' is sorted'')], (h1, S1)))))"

definition bubble_sort_st :: "store \<Rightarrow> nat \<Rightarrow> (int SortState \<times> store) list \<times> store" where
  "bubble_sort_st h data =
     (case list_copy h data of (h0, arr) \<Rightarrow>
        (let n = len (h0 ! arr)
         in case for_range 0 n (bubble_pass_st arr n) (h0, {}) of (ys, (h1, S1)) \<Rightarrow>
              (ys @ [yield_state h1 arr [] (set (py_range 0 n)) ''Bubble sort complete''], h1)))"

subsection \<open>Insertion sort in the store\<close>

function insertion_while_st ::
  "nat \<Rightarrow> int set \<Rightarrow> int \<Rightarrow> store \<Rightarrow> int \<Rightarrow> (int SortState \<times> store) list \<times> store \<times> int" where
  "insertion_while_st a S key h j =
     (if j \<ge> 0 \<and> getitem (h ! a) j > key then
        (let y1 = yield_state h a [(j, COMPARE), (j + 1, COMPARE)] S
                    (''Comparing key with index '' @ str j);
             h1 = store_setitem h a (j + 1) (getitem (h ! a) j);
             y2 = yield_state h1 a [(j, SWAP), (j + 1, SWAP)] S
                    (''Shifting value at index '' @ str j @ '' to index '' @ str (j + 1))
         in case insertion_while_st a S key h1 (j - 1) of
              (ys, h2, j2) \<Rightarrow> (y1 # y2 # ys, h2, j2))
      else ([], h, j))"
  by pat_completeness auto
termination
  by (relation "measure (\<lambda>(a, S, key, h, j). nat (j + 1))") auto

declare insertion_while_st.simps [simp del]

definition insertion_body_st ::
  "nat \<Rightarrow> int \<Rightarrow> store \<times> int set \<Rightarrow> (int SortState \<times> store) list \<times> (store \<times> int set)" where
  "insertion_body_st a i st =
     (case st of (h, S) \<Rightarrow>
        (let key = getitem (h ! a) i; j = i - 1;
             y0 = yield_state h a [(i, PIVOT)] S (''Selecting key at index '' @ str i)
         in case insertion_while_st a S key h j of (ys, h1, j1) \<Rightarrow>
              (let h2 = store_setitem h1 a (j1 + 1) key;
                   S1 = S \<union> set (py_range 0 (i + 1))
               in (y0 # ys @ [yield_state h2 a [(j1 + 1, SWAP)] S1
                                (''Inserted key at index '' @ str (j1 + 1))], (h2, S1)))))"

definition insertion_sort_st :: "store \<Rightarrow> nat \<Rightarrow> (int SortState \<times> store) list \<times> store" where
  "insertion_sort_st h data =
     (case list_copy h data of (h0, arr) \<Rightarrow>
        (case for_range 1 (len (h0 ! arr)) (insertion_body_st arr) (h0, {}) of (ys, (h1, S1)) \<Rightarrow>
           (ys @ [yield_state h1 arr [] (set (py_range 0 (len (h1 ! arr))))
                    ''Insertion sort complete''], h1)))"

subsection \<open>Selection sort in the store\<close>

definition selection_scan_st ::
  "nat \<Rightarrow> store \<Rightarrow> int set \<Rightarrow> int \<Rightarrow> int \<Rightarrow> int \<Rightarrow> (int SortState \<times> store) list \<times> int" where
  "selection_scan_st a h S i j min_idx =
     (let y1 = yield_state h a [(min_idx, PIVOT), (j, COMPARE)] S
                 (''Finding minimum from index '' @ str i @ '' onward'')
      in if getitem (h ! a) j < getitem (h ! a) min_idx then
           ([y1, yield_state h a [(j, PIVOT)] S (''New minimum at index '' @ str j)], j)
         else ([y1], min_idx))"

definition selection_pass_st ::
  "nat \<Rightarrow> int \<Rightarrow> int \<Rightarrow> store \<times> int set \<Rightarrow> (int SortState \<times> store) list \<times> (store \<times> int set)" where
  "selection_pass_st a n i st =
     (case st of (h, S) \<Rightarrow>
        (case for_range (i + 1) n (selection_scan_st a h S i) i of (ys, min_idx) \<Rightarrow>
           (let h1 = store_swap h a i min_idx; S1 = insert i S
            in (ys @ [yield_state h1 a [(i, SORTED), (min_idx, SWAP)] S1
                        (''Swapped minimum into position '' @ str i)], (h1, S1)))))"

definition selection_sort_st :: "store \<Rightarrow> nat \<Rightarrow> (int SortState \<times> store) list \<times> store" where
  "selection_sort_st h data =
     (case list_copy h data of (h0, arr) \<Rightarrow>
        (let n = len (h0 ! arr)
         in case for_range 0 n (selection_pass_st arr n) (h0, {}) of (ys, (h1, S1)) \<Rightarrow>
              (ys @ [yield_state h1 arr [] (set (py_range 0 n)) ''Selection sort complete''], h1)))"

subsection \<open>Quick sort in the store\<close>

definition partition_body_st ::
  "nat \<Rightarrow> int set \<Rightarrow> int \<Rightarrow> int \<Rightarrow> int \<Rightarrow> store \<times> int \<Rightarrow>
     (int SortState \<times> store) list \<times> (store \<times> int)" where
  "partition_body_st a S high pivot j st =
     (case st of (h, i) \<Rightarrow>
        (let y1 = yield_state h a [(j, COMPARE), (high, PIVOT)] S
                    (''Comparing index '' @ str j @ '' with pivot'')
         in if getitem (h ! a) j \<le> pivot then
              (let i1 = i + 1; h1 = store_swap h a i1 j
               in ([y1, yield_state h1 a [(i1, SWAP), (j, SWAP)] S
                          (''Swapped indices '' @ str i1 @ '' and '' @ str j)], (h1, i1)))
            else ([y1], (h, i))))"

definition lomuto_partition_st ::
  "nat \<Rightarrow> store \<Rightarrow> int \<Rightarrow> int \<Rightarrow> int set \<Rightarrow>
     (int SortState \<times> store) list \<times> store \<times> int \<times> int set" where
  "lomuto_partition_st a h low high S =
     (let pivot = getitem (h ! a) high; i = low - 1;
          y0 = yield_state h a [(high, PIVOT)] S (''Pivot chosen at index '' @ str high)
      in case for_range low high (partition_body_st a S high pivot) (h, i) of
           (ys, (h1, i1)) \<Rightarrow>
             (let h2 = store_swap h1 a (i1 + 1) high; pivot_idx = i1 + 1;
                  S1 = insert pivot_idx S
              in (y0 # ys @ [yield_state h2 a [(pivot_idx, SORTED)] S1
                               (''Pivot settled at index '' @ str pivot_idx)],
                  h2, pivot_idx, S1)))"

function priv_quick_sort_st ::
  "nat \<Rightarrow> store \<Rightarrow> int \<Rightarrow> int \<Rightarrow> int set \<Rightarrow> (int SortState \<times> store) list \<times> store \<times> int set" where
  "priv_quick_sort_st a h low high S =
     (if low \<ge> high then
        (if low = high then
           (let S1 = insert low S
            in ([yield_state h a [(low, SORTED)] S1 (''Index '' @ str low @ '' is sorted'')],
                h, S1))
         else ([], h, S))
      else
        (case lomuto_partition_st a h low high S of (ys, h2, pivot_idx, S1) \<Rightarrow>
           (case priv_quick_sort_st a h2 low (pivot_idx - 1) S1 of (ls, h3, S2) \<Rightarrow>
              (case priv_quick_sort_st a h3 (pivot_idx + 1) high S2 of (rs, h4, S3) \<Rightarrow>
                 (ys @ ls @ rs, h4, S3)))))"
  by pat_completeness auto
termination
proof (relation "measure (\<lambda>(a, h, low, high, S). nat (high - low + 1))")
  have loop: "i \<le> i1 \<and> i1 - i \<le> max 0 (high - j)"
    if "for_range j high (partition_body_st a S high pivot) (h, i) = (ys, (h1, i1))"
    for j high a S pivot h i ys h1 i1
    using that
  proof (induction j high "partition_body_st a S high pivot" "(h, i)"
      arbitrary: h i ys h1 i1 rule: for_range.induct)
    case (1 j stop)
    show ?case
    proof (cases "j < stop")
      case False
      with "1.prems" show ?thesis by (simp add: for_range.simps)
    next
      case True
      obtain zs h2 i2 where b: "partition_body_st a S stop pivot j (h, i) = (zs, (h2, i2))"
        by (metis prod.exhaust)
      obtain ws s2 where
        r: "for_range (j + 1) stop (partition_body_st a S stop pivot) (h2, i2) = (ws, s2)"
        by (metis prod.exhaust)
      from "1.prems" True b r have s2: "s2 = (h1, i1)"
        by (simp add: for_range.simps)
      from b have i2: "i \<le> i2 \<and> i2 \<le> i + 1"
        by (auto simp: partition_body_st_def Let_def split: if_splits)
      from "1.hyps"[OF True b[symmetric] r[unfolded s2]] i2 True show ?thesis
        by auto
    qed
  qed
  have part: "low \<le> p \<and> p \<le> high"
    if "lomuto_partition_st a h low high S = (ys, h2, p, S1)" "low < high"
    for a h low high S ys h2 p S1
  proof -
    obtain zs h1 i1 where
      f: "for_range low high (partition_body_st a S high (getitem (h ! a) high)) (h, low - 1) =
            (zs, (h1, i1))"
      by (metis prod.exhaust)
    from that(1) f have "p = i1 + 1" by (auto simp: lomuto_partition_st_def Let_def)
    with loop[OF f] that(2) show ?thesis by auto
  qed
  show "wf (measure (\<lambda>(a, h, low, high, S). nat (high - low + 1)))" by simp
  show "((a, h2, low, p - 1, S1), a, h, low, high, S) \<in>
          measure (\<lambda>(a, h, low, high, S). nat (high - low + 1))"
    if "\<not> high \<le> low" "(ys, y) = lomuto_partition_st a h low high S" "(h2, ya) = y"
      "(p, S1) = ya"
    for a h low high S ys y h2 ya p S1
    using part[of a h low high S ys h2 p S1] that by auto
  show "((a, h3, p + 1, high, S2), a, h, low, high, S) \<in>
          measure (\<lambda>(a, h, low, high, S). nat (high - low + 1))"
    if "\<not> high \<le> low" "(ys, y) = lomuto_partition_st a h low high S" "(h2, ya) = y"
      "(p, S1) = ya"
    for a h low high S ys y h2 ya p S1 h3 S2
    using part[of a h low high S ys h2 p S1] that by auto
qed

declare priv_quick_sort_st.simps [simp del]

definition quick_sort_st :: "store \<Rightarrow> nat \<Rightarrow> (int SortState \<times> store) list \<times> store" where
  "quick_sort_st h data =
     (case list_copy h data of (h0, arr) \<Rightarrow>
        (case priv_quick_sort_st arr h0 0 (len (h0 ! arr) - 1) {} of (ys, h1, S1) \<Rightarrow>
           (ys @ [yield_state h1 arr [] (set (py_range 0 (len (h1 ! arr))))
                    ''Quick sort complete''], h1)))"

subsection \<open>Merge sort in the store\<close>

function merge_while_st ::
  "int list \<Rightarrow> int list \<Rightarrow> int \<Rightarrow> int \<Rightarrow> int \<Rightarrow> nat \<Rightarrow> int set \<Rightarrow> store \<times> int \<times> int \<times> int \<Rightarrow>
     (int SortState \<times> store) list \<times> (store \<times> int \<times> int \<times> int)" where
  "merge_while_st left right start mid end a S (h, i, j, k) =
     (if i < len left \<and> j < len right then
        (let y1 = yield_state h a
                    [(k, COMPARE), (start + i, COMPARE), (mid + 1 + j, COMPARE)] S
                    (''Merging indices '' @ str start @ '' to '' @ str end);
             (h1, i1, j1) =
               (if getitem left i \<le> getitem right j
                then (store_setitem h a k (getitem left i), i + 1, j)
                else (store_setitem h a k (getitem right j), i, j + 1));
             y2 = yield_state h1 a [(k, SWAP)] S (''Placed value at index '' @ str k)
         in case merge_while_st left right start mid end a S (h1, i1, j1, k + 1) of
              (ys, st) \<Rightarrow> (y1 # y2 # ys, st))
      else ([], (h, i, j, k)))"
  by pat_completeness auto
termination
  by (relation "measure (\<lambda>(left, right, start, mid, end, a, S, h, i, j, k).
        nat (len left - i) + nat (len right - j))") (auto split: if_splits)

declare merge_while_st.simps [simp del]

function merge_left_st ::
  "int list \<Rightarrow> nat \<Rightarrow> int set \<Rightarrow> store \<times> int \<times> int \<Rightarrow>
     (int SortState \<times> store) list \<times> (store \<times> int \<times> int)" where
  "merge_left_st left a S (h, i, k) =
     (if i < len left then
        (let h1 = store_setitem h a k (getitem left i);
             y = yield_state h1 a [(k, SWAP)] S
                   (''Copying remaining left element to index '' @ str k)
         in case merge_left_st left a S (h1, i + 1, k + 1) of (ys, st) \<Rightarrow> (y # ys, st))
      else ([], (h, i, k)))"
  by pat_completeness auto
termination
  by (relation "measure (\<lambda>(left, a, S, h, i, k). nat (len left - i))") auto

declare merge_left_st.simps [simp del]

function merge_right_st ::
  "int list \<Rightarrow> nat \<Rightarrow> int set \<Rightarrow> store \<times> int \<times> int \<Rightarrow>
     (int SortState \<times> store) list \<times> (store \<times> int \<times> int)" where
  "merge_right_st right a S (h, j, k) =
     (if j < len right then
        (let h1 = store_setitem h a k (getitem right j);
             y = yield_state h1 a [(k, SWAP)] S
                   (''Copying remaining right element to index '' @ str k)
         in case merge_right_st right a S (h1, j + 1, k + 1) of (ys, st) \<Rightarrow> (y # ys, st))
      else ([], (h, j, k)))"
  by pat_completeness auto
termination
  by (relation "measure (\<lambda>(right, a, S, h, j, k). nat (len right - j))") auto

declare merge_right_st.simps [simp del]

definition priv_merge_st ::
  "nat \<Rightarrow> store \<Rightarrow> int \<Rightarrow> int \<Rightarrow> int \<Rightarrow> int set \<Rightarrow> (int SortState \<times> store) list \<times> store \<times> int set" where
  "priv_merge_st a h start mid end S =
     (let left = slice (h ! a) start (mid + 1);
          right = slice (h ! a) (mid + 1) (end + 1)
      in case merge_while_st left right start mid end a S (h, 0, 0, start) of
           (ys1, (h1, i1, j1, k1)) \<Rightarrow>
             (case merge_left_st left a S (h1, i1, k1) of (ys2, (h2, i2, k2)) \<Rightarrow>
                (case merge_right_st right a S (h2, j1, k2) of (ys3, (h3, j3, k3)) \<Rightarrow>
                   (let S1 = S \<union> set (py_range start (end + 1))
                    in (ys1 @ ys2 @ ys3 @
                        [yield_state h3 a (map (\<lambda>idx. (idx, SORTED)) (py_range start (end + 1))) S1
                           (''Segment '' @ str start @ '':'' @ str end @ '' sorted'')],
                        h3, S1)))))"

function priv_merge_sort_st ::
  "nat \<Rightarrow> store \<Rightarrow> int \<Rightarrow> int \<Rightarrow> int set \<Rightarrow> (int SortState \<times> store) list \<times> store \<times> int set" where
  "priv_merge_sort_st a h start end S =
     (if start \<ge> end then
        (let S1 = insert start S
         in ([yield_state h a [(start, SORTED)] S1
                (''Index '' @ str start @ '' is trivially sorted'')], h, S1))
      else
        (let mid = (start + end) div 2
         in case priv_merge_sort_st a h start mid S of (ys1, h1, S1) \<Rightarrow>
              (case priv_merge_sort_st a h1 (mid + 1) end S1 of (ys2, h2, S2) \<Rightarrow>
                 (case priv_merge_st a h2 start mid end S2 of (ys3, h3, S3) \<Rightarrow>
                    (ys1 @ ys2 @ ys3, h3, S3)))))"
  by pat_completeness auto
termination
  by (relation "measure (\<lambda>(a, h, start, end, S). nat (end - start))") auto

declare priv_merge_sort_st.simps [simp del]

definition merge_sort_st :: "store \<Rightarrow> nat \<Rightarrow> (int SortState \<times> store) list \<times> store" where
  "merge_sort_st h data =
     (case list_copy h data of (h0, arr) \<Rightarrow>
        (case (if h0 ! arr \<noteq> [] then priv_merge_sort_st arr h0 0 (len (h0 ! arr) - 1) {}
               else ([], h0, {})) of
           (ys, h1, S1) \<Rightarrow>
             (ys @ [yield_state h1 arr [] (set (py_range 0 (len (h1 ! arr))))
                      ''Merge sort complete''], h1)))"

text \<open>The five engines on the store, in the order of \<open>engines\<close>.\<close>

definition engines_st :: "(store \<Rightarrow> nat \<Rightarrow> (int SortState \<times> store) list \<times> store) list" where
  "engines_st = [bubble_sort_st, insertion_sort_st, selection_sort_st, quick_sort_st, merge_sort_st]"

text \<open>
  The body of a generator runs only while the consumer waits in \<^verbatim>\<open>next\<close>: nothing has
  run before the first \<^verbatim>\<open>next\<close>, after the \<open>k\<close>-th the body is suspended at its \<open>k\<close>-th
  yield, and a \<^verbatim>\<open>next\<close> past the last yield runs the body to its end (StopIteration).
  \<open>consume engine k h data\<close> is the store after \<open>k\<close> calls of \<^verbatim>\<open>next\<close> on
  \<^verbatim>\<open>engine(data)\<close> started in the store \<open>h\<close>.
\<close>

definition consume ::
  "(store \<Rightarrow> nat \<Rightarrow> (int SortState \<times> store) list \<times> store) \<Rightarrow> nat \<Rightarrow> store \<Rightarrow> nat \<Rightarrow> store" where
  "consume engine k h data =
     (if k = 0 then h
      else (case engine h data of (ys, hf) \<Rightarrow>
              if k \<le> length ys then snd (ys ! (k - 1)) else hf))"

text \<open>
  The store \<open>h'\<close> differs from \<open>h\<close> at most in the object at address \<open>a\<close>; a yield
  respects that and shows the object at \<open>a\<close>.
\<close>

definition only_at :: "nat \<Rightarrow> store \<Rightarrow> store \<Rightarrow> bool" where
  "only_at a h h' \<longleftrightarrow>
     length h' = length h \<and> a < length h \<and> (\<forall>k < length h. k \<noteq> a \<longrightarrow> h' ! k = h ! k)"

definition own :: "nat \<Rightarrow> store \<Rightarrow> int SortState \<times> store \<Rightarrow> bool" where
  "own a h y \<longleftrightarrow> only_at a h (snd y) \<and> array (fst y) = snd y ! a"

section \<open>Properties of a snapshot and of a merge\<close>

text \<open>
  A snapshot is well formed when the keys of its highlights and its sorted indices are
  indices of its array, and the sorted indices are ascending without a duplicate.
\<close>

definition valid_snapshot :: "'a SortState \<Rightarrow> bool" where
  "valid_snapshot s \<longleftrightarrow>
     (\<forall>k \<in> fst ` set (highlights s). 0 \<le> k \<and> k < len (array s)) \<and>
     (\<forall>k \<in> set (sorted_indices s). 0 \<le> k \<and> k < len (array s)) \<and>
     sorted (sorted_indices s) \<and> distinct (sorted_indices s)"

text \<open>
  What the proofs below establish of every snapshot before the completion snapshot of a
  run on an array of \<open>n\<close> elements: it shows an array of \<open>n\<close> elements, it is well
  formed, and its description is not the completion description \<open>fd\<close>.
\<close>

definition intermediate :: "int \<Rightarrow> string \<Rightarrow> 'a SortState \<Rightarrow> bool" where
  "intermediate n fd s \<longleftrightarrow> len (array s) = n \<and> valid_snapshot s \<and> description s \<noteq> fd"

text \<open>
  An engine ends with its completion snapshot: on every input the last snapshot has the
  completion description \<open>fd\<close>, no highlight and every index of the array among the
  sorted indices, and no snapshot before it has that description.
\<close>

definition ends_with_completion :: "('a list \<Rightarrow> 'a SortState list) \<Rightarrow> string \<Rightarrow> bool" where
  "ends_with_completion engine fd \<longleftrightarrow>
     (\<forall>xs. engine xs \<noteq> [] \<and>
           description (last (engine xs)) = fd \<and>
           highlights (last (engine xs)) = [] \<and>
           len (array (last (engine xs))) = len xs \<and>
           sorted_indices (last (engine xs)) = py_range 0 (len xs) \<and>
           (\<forall>s \<in> set (butlast (engine xs)). description s \<noteq> fd))"

text \<open>
  Three relations between the working array \<open>a\<close> and an earlier array \<open>arr\<close>, used as
  loop invariants: \<open>a\<close> agrees with \<open>arr\<close> outside the index range \<open>low..high\<close>; every
  value of \<open>a\<close> in the range is a value of \<open>arr\<close> in the range; \<open>a\<close> is ascending on the
  range.
\<close>

definition same_outside :: "'a list \<Rightarrow> 'a list \<Rightarrow> int \<Rightarrow> int \<Rightarrow> bool" where
  "same_outside arr a low high \<longleftrightarrow>
     (\<forall>k. 0 \<le> k \<and> (k < low \<or> high < k) \<longrightarrow> getitem a k = getitem arr k)"

definition values_from :: "'a list \<Rightarrow> 'a list \<Rightarrow> int \<Rightarrow> int \<Rightarrow> bool" where
  "values_from arr a low high \<longleftrightarrow>
     (\<forall>k. low \<le> k \<and> k \<le> high \<longrightarrow> (\<exists>k'. low \<le> k' \<and> k' \<le> high \<and> getitem a k = getitem arr k'))"

definition sorted_between :: "'a::ord list \<Rightarrow> int \<Rightarrow> int \<Rightarrow> bool" where
  "sorted_between a low high \<longleftrightarrow>
     (\<forall>k l. low \<le> k \<and> k \<le> l \<and> l \<le> high \<longrightarrow> getitem a k \<le> getitem a l)"

text \<open>
  The invariant of the partition loop before the iteration for \<open>j\<close>: the pivot is still
  at \<open>high\<close>, the cells \<open>low..i\<close> hold values at most the pivot and the cells
  \<open>i+1..j-1\<close> values above it.
\<close>

definition part_inv :: "int list \<Rightarrow> int \<Rightarrow> int \<Rightarrow> int \<Rightarrow> int \<Rightarrow> int list \<times> int \<Rightarrow> bool" where
  "part_inv arr low high pivot j st \<longleftrightarrow>
     (case st of (a, i) \<Rightarrow>
        len a = len arr \<and> mset a = mset arr \<and> low - 1 \<le> i \<and> i < j \<and>
        getitem a high = pivot \<and>
        (\<forall>k. low \<le> k \<and> k \<le> i \<longrightarrow> getitem a k \<le> pivot) \<and>
        (\<forall>k. i < k \<and> k < j \<longrightarrow> pivot < getitem a k) \<and>
        same_outside arr a low high \<and> values_from arr a low high)"

text \<open>
  The merge of two sequences in the words of the specification: compare the heads with
  \<^verbatim>\<open><=\<close>, take the left one on a tie, and when one side is exhausted copy the rest of
  the other. It is compared with \<open>priv_merge\<close> below.
\<close>

fun spec_merge :: "'a::ord list \<Rightarrow> 'a list \<Rightarrow> 'a list" where
  "spec_merge [] ys = ys"
| "spec_merge xs [] = xs"
| "spec_merge (x # xs) (y # ys) =
     (if x \<le> y then x # spec_merge xs (y # ys) else y # spec_merge (x # xs) ys)"

text \<open>
  Elements that compare by their value alone and carry a tag, to tell equal values apart
  (a Python object whose comparison methods look at \<^verbatim>\<open>val\<close> only).
\<close>

datatype tagged = Tagged (val: int) (tag: nat)

instantiation tagged :: ord
begin

definition less_eq_tagged :: "tagged \<Rightarrow> tagged \<Rightarrow> bool" where
  "less_eq_tagged x y \<longleftrightarrow> val x \<le> val y"

definition less_tagged :: "tagged \<Rightarrow> tagged \<Rightarrow> bool" where
  "less_tagged x y \<longleftrightarrow> val x < val y"

instance ..

end


text \<open>
  What a snapshot shows of the run: the array and the set of sorted indices. Between an
  earlier and a later such pair, \<open>grows\<close> says that every index recorded earlier is
  still recorded, and \<open>frozen\<close> moreover that the value at each of them is unchanged.
\<close>

definition snap_state :: "'a SortState \<Rightarrow> 'a list \<times> int set" where
  "snap_state s = (array s, set (sorted_indices s))"

definition grows :: "'a list \<times> int set \<Rightarrow> 'a list \<times> int set \<Rightarrow> bool" where
  "grows p q \<longleftrightarrow> snd p \<subseteq> snd q"

definition frozen :: "'a list \<times> int set \<Rightarrow> 'a list \<times> int set \<Rightarrow> bool" where
  "frozen p q \<longleftrightarrow> snd p \<subseteq> snd q \<and> (\<forall>k\<in>snd p. getitem (fst q) k = getitem (fst p) k)"

text \<open>
  A piece of a run that starts in \<open>p\<close>, yields the snapshots \<open>ys\<close> and ends in \<open>q\<close>
  respects the relation \<open>R\<close>: from the start to each snapshot, from each snapshot to
  every later one and to the end.
\<close>

definition steps ::
  "('a list \<times> int set \<Rightarrow> 'a list \<times> int set \<Rightarrow> bool) \<Rightarrow>
   'a list \<times> int set \<Rightarrow> 'a SortState list \<Rightarrow> 'a list \<times> int set \<Rightarrow> bool" where
  "steps R p ys q \<longleftrightarrow>
     R p q \<and> (\<forall>s\<in>set ys. R p (snap_state s) \<and> R (snap_state s) q) \<and>
     sorted_wrt R (map snap_state ys)"

text \<open>
  A piece of a run takes the set of sorted indices from \<open>S\<close> to \<open>S'\<close> and shows \<open>S'\<close>
  in its last snapshot only: either it yields nothing and leaves the set as it is, or
  the set gets strictly larger, the last snapshot shows \<open>S'\<close> and every snapshot before
  it shows a strictly smaller set.
\<close>

definition reaches :: "int set \<Rightarrow> 'a SortState list \<Rightarrow> int set \<Rightarrow> bool" where
  "reaches S ys S' \<longleftrightarrow>
     (if ys = [] then S' = S
      else S \<subset> S' \<and> set (sorted_indices (last ys)) = S' \<and>
           (\<forall>s\<in>set (butlast ys). S \<subseteq> set (sorted_indices s) \<and> set (sorted_indices s) \<subset> S'))"
section \<open>Loops and list primitives\<close>

text \<open>
  The invariant rule of a \<open>for\<close> loop: an invariant that holds at the start and is kept
  by the body holds at the end, and what the body ensures of the snapshots it yields
  holds of all the snapshots of the loop.
\<close>

lemma for_range_rule:
  assumes "for_range j stop body st = (ys, st')"
    and "I j st"
    and "\<And>k s zs s'. j \<le> k \<Longrightarrow> k < stop \<Longrightarrow> I k s \<Longrightarrow> body k s = (zs, s') \<Longrightarrow>
           I (k + 1) s' \<and> (\<forall>y\<in>set zs. P y)"
  shows "I (max j stop) st' \<and> (\<forall>y\<in>set ys. P y)"
  using assms
proof (induction j stop body st arbitrary: ys st' rule: for_range.induct)
  case (1 j stop body st)
  show ?case
  proof (cases "j < stop")
    case False
    with "1.prems"(1) have "ys = []" "st' = st"
      by (simp_all add: for_range.simps)
    with False "1.prems"(2) show ?thesis by (simp add: max_def)
  next
    case True
    obtain zs s1 where b: "body j st = (zs, s1)" by (cases "body j st")
    obtain ws s2 where r: "for_range (j + 1) stop body s1 = (ws, s2)"
      by (cases "for_range (j + 1) stop body s1")
    from "1.prems"(1) True b r have eq: "ys = zs @ ws" "st' = s2"
      by (simp_all add: for_range.simps)
    from "1.prems"(3)[OF _ True "1.prems"(2) b] have s: "I (j + 1) s1" "\<forall>y\<in>set zs. P y"
      by simp_all
    have "I (max (j + 1) stop) s2 \<and> (\<forall>y\<in>set ws. P y)"
    proof (rule "1.IH"[OF True b[symmetric] r s(1)])
      fix k s zs' s'
      assume "j + 1 \<le> k" "k < stop" "I k s" "body k s = (zs', s')"
      then show "I (k + 1) s' \<and> (\<forall>y\<in>set zs'. P y)"
        using "1.prems"(3)[of k s zs' s'] by simp
    qed
    with True s eq show ?thesis by (auto simp: max_def)
  qed
qed

lemma for_range_empty: "\<not> j < stop \<Longrightarrow> for_range j stop body st = ([], st)"
  by (simp add: for_range.simps)

lemma len_nonneg [simp]: "0 \<le> len xs"
  by (simp add: len_def)

lemma len_Nil [simp]: "len [] = 0"
  by (simp add: len_def)

lemma len_eq_0 [simp]: "len xs = 0 \<longleftrightarrow> xs = []"
  by (simp add: len_def)

lemma len_setitem [simp]: "len (setitem xs i v) = len xs"
  by (simp add: len_def setitem_def)

lemma len_swap [simp]: "len (swap xs a b) = len xs"
  by (simp add: swap_def)

lemma getitem_nth: "0 \<le> i \<Longrightarrow> getitem xs i = xs ! nat i"
  by (simp add: getitem_def)

lemma getitem_setitem:
  "0 \<le> i \<Longrightarrow> i < len xs \<Longrightarrow> 0 \<le> j \<Longrightarrow>
   getitem (setitem xs i v) j = (if j = i then v else getitem xs j)"
  by (auto simp: getitem_def setitem_def len_def)

lemma getitem_swap:
  "0 \<le> a \<Longrightarrow> a < len xs \<Longrightarrow> 0 \<le> b \<Longrightarrow> b < len xs \<Longrightarrow> 0 \<le> j \<Longrightarrow>
   getitem (swap xs a b) j =
     (if j = b then getitem xs a else if j = a then getitem xs b else getitem xs j)"
  by (simp add: swap_def getitem_setitem)

lemma mset_swap_int:
  "0 \<le> a \<Longrightarrow> a < len xs \<Longrightarrow> 0 \<le> b \<Longrightarrow> b < len xs \<Longrightarrow> mset (swap xs a b) = mset xs"
  using mset_swap[of "nat b" xs "nat a"]
  by (simp add: swap_def setitem_def getitem_def len_def)

lemma sorted_getitem:
  "sorted xs \<longleftrightarrow> (\<forall>i j. 0 \<le> i \<and> i \<le> j \<and> j < len xs \<longrightarrow> getitem xs i \<le> getitem xs j)"
proof
  assume s: "sorted xs"
  show "\<forall>i j. 0 \<le> i \<and> i \<le> j \<and> j < len xs \<longrightarrow> getitem xs i \<le> getitem xs j"
  proof (intro allI impI)
    fix i j assume h: "0 \<le> i \<and> i \<le> j \<and> j < len xs"
    then have "nat i \<le> nat j" "nat j < length xs" by (auto simp: len_def)
    with s have "xs ! nat i \<le> xs ! nat j" by (rule sorted_nth_mono)
    with h show "getitem xs i \<le> getitem xs j" by (simp add: getitem_nth)
  qed
next
  assume h: "\<forall>i j. 0 \<le> i \<and> i \<le> j \<and> j < len xs \<longrightarrow> getitem xs i \<le> getitem xs j"
  show "sorted xs"
    unfolding sorted_iff_nth_mono
  proof (intro allI impI)
    fix i j assume "i \<le> j" "j < length xs"
    with h[rule_format, of "int i" "int j"] show "xs ! i \<le> xs ! j"
      by (simp add: getitem_nth len_def)
  qed
qed

lemma set_py_range [simp]: "set (py_range a b) = {a..<b}"
  by (auto simp: py_range_def)

lemma fst_set_fold_update:
  "fst ` set (fold (\<lambda>(k, v). AList.update k v) ps al) = fst ` set ps \<union> fst ` set al"
  by (induction ps arbitrary: al) (auto simp: dom_update split: prod.splits)

lemma fst_set_dict_of [simp]: "fst ` set (dict_of ps) = fst ` set ps"
  by (simp add: dict_of_def fst_set_fold_update)

lemma distinct_fold_update:
  "distinct (map fst al) \<Longrightarrow> distinct (map fst (fold (\<lambda>(k, v). AList.update k v) ps al))"
  by (induction ps arbitrary: al) (auto simp: distinct_update split: prod.splits)

lemma distinct_dict_of: "distinct (map fst (dict_of ps))"
  by (simp add: dict_of_def distinct_fold_update)


lemma priv_state_sel [simp]:
  "array (priv_state arr hls S d) = arr"
  "highlights (priv_state arr hls S d) = dict_of hls"
  "sorted_indices (priv_state arr hls S d) = sorted_list_of_set S"
  "description (priv_state arr hls S d) = d"
  by (simp_all add: priv_state_def)

lemma valid_priv_state:
  "finite S \<Longrightarrow> S \<subseteq> {0..<len arr} \<Longrightarrow> fst ` set hls \<subseteq> {0..<len arr} \<Longrightarrow>
   valid_snapshot (priv_state arr hls S d)"
  by (auto simp: valid_snapshot_def)

section \<open>The snapshots of a run\<close>

text \<open>
  For each engine: the array keeps its length, every index that is highlighted or
  recorded as sorted is an index of the array, and only the last snapshot carries the
  completion description.
\<close>

lemma intermediate_priv_state:
  "len arr = n \<Longrightarrow> finite S \<Longrightarrow> S \<subseteq> {0..<n} \<Longrightarrow> fst ` set hls \<subseteq> {0..<n} \<Longrightarrow> d \<noteq> fd \<Longrightarrow>
   intermediate n fd (priv_state arr hls S d)"
  by (simp add: intermediate_def valid_priv_state)

lemma bubble_body_gt:
  "getitem arr j > getitem arr (j + 1) \<Longrightarrow>
   bubble_body S j arr =
     ([priv_state arr [(j, COMPARE), (j + 1, COMPARE)] S
         (''Comparing indices '' @ str j @ '' and '' @ str (j + 1)),
       priv_state (swap arr j (j + 1)) [(j, SWAP), (j + 1, SWAP)] S
         (''Swapped indices '' @ str j @ '' and '' @ str (j + 1))], swap arr j (j + 1))"
  by (simp add: bubble_body_def Let_def)

lemma bubble_body_le:
  "\<not> getitem arr j > getitem arr (j + 1) \<Longrightarrow>
   bubble_body S j arr =
     ([priv_state arr [(j, COMPARE), (j + 1, COMPARE)] S
         (''Comparing indices '' @ str j @ '' and '' @ str (j + 1))], arr)"
  by (simp add: bubble_body_def Let_def)

lemma bubble_body_shape:
  assumes "bubble_body S j arr = (zs, arr')" "0 \<le> j" "j + 1 < n" "len arr = n"
    "finite S" "S \<subseteq> {0..<n}"
  shows "len arr' = n \<and> (\<forall>s\<in>set zs. intermediate n ''Bubble sort complete'' s)"
proof (cases "getitem arr j > getitem arr (j + 1)")
  case True
  from assms(1)[unfolded bubble_body_gt[OF True]] assms(2-) show ?thesis
    by (auto simp: intermediate_priv_state)
next
  case False
  from assms(1)[unfolded bubble_body_le[OF False]] assms(2-) show ?thesis
    by (auto simp: intermediate_priv_state)
qed

lemma bubble_pass_shape:
  assumes "bubble_pass n i (arr, S) = (zs, (arr', S'))" "0 \<le> i" "i < n" "len arr = n"
    "finite S" "S \<subseteq> {0..<n}"
  shows "len arr' = n \<and> finite S' \<and> S' \<subseteq> {0..<n} \<and>
         (\<forall>s\<in>set zs. intermediate n ''Bubble sort complete'' s)"
proof -
  obtain ys a1 where f: "for_range 0 (n - i - 1) (bubble_body S) arr = (ys, a1)"
    by (metis prod.exhaust)
  have inner: "len a1 = n \<and> (\<forall>s\<in>set ys. intermediate n ''Bubble sort complete'' s)"
  proof (rule for_range_rule[OF f, where I="\<lambda>j a. len a = n"])
    show "len arr = n" by fact
  next
    fix k s zs' s'
    assume "0 \<le> k" "k < n - i - 1" "len s = n" "bubble_body S k s = (zs', s')"
    with assms(2,5,6) show "len s' = n \<and> (\<forall>y\<in>set zs'. intermediate n ''Bubble sort complete'' y)"
      using bubble_body_shape[of S k s zs' s' n] by simp
  qed
  from assms(1) f have eq: "arr' = a1" "S' = insert (n - i - 1) S"
    "zs = ys @ [priv_state a1 [(n - i - 1, SORTED)] (insert (n - i - 1) S)
                  (''Position '' @ str (n - i - 1) @ '' is sorted'')]"
    by (auto simp: bubble_pass_def Let_def)
  have "intermediate n ''Bubble sort complete''
          (priv_state a1 [(n - i - 1, SORTED)] (insert (n - i - 1) S)
                  (''Position '' @ str (n - i - 1) @ '' is sorted''))"
    using inner assms(2-6) by (intro intermediate_priv_state) auto
  with inner eq assms(2-6) show ?thesis by auto
qed

lemma bubble_sort_shape:
  "\<exists>ys arr. bubble_sort xs = ys @ [priv_state arr [] {0..<len xs} ''Bubble sort complete''] \<and>
     len arr = len xs \<and> (\<forall>s\<in>set ys. intermediate (len xs) ''Bubble sort complete'' s)"
proof -
  obtain ys a1 S1 where f: "for_range 0 (len xs) (bubble_pass (len xs)) (xs, {}) = (ys, (a1, S1))"
    by (metis prod.exhaust)
  have "(case (a1, S1) of (a, S) \<Rightarrow> len a = len xs \<and> finite S \<and> S \<subseteq> {0..<len xs}) \<and>
        (\<forall>s\<in>set ys. intermediate (len xs) ''Bubble sort complete'' s)"
  proof (rule for_range_rule[OF f, where I="\<lambda>i st. case st of (a, S) \<Rightarrow>
          len a = len xs \<and> finite S \<and> S \<subseteq> {0..<len xs}"])
    show "case (xs, {}) of (a, S) \<Rightarrow> len a = len xs \<and> finite S \<and> S \<subseteq> {0..<len xs}"
      by simp
  next
    fix k s zs s'
    assume h: "0 \<le> k" "k < len xs"
      "case s of (a, S) \<Rightarrow> len a = len xs \<and> finite S \<and> S \<subseteq> {0..<len xs}"
      "bubble_pass (len xs) k s = (zs, s')"
    obtain a S where s: "s = (a, S)" by (cases s)
    obtain a' S' where s': "s' = (a', S')" by (cases s')
    from bubble_pass_shape[of "len xs" k a S zs a' S'] h s s'
    show "(case s' of (a, S) \<Rightarrow> len a = len xs \<and> finite S \<and> S \<subseteq> {0..<len xs}) \<and>
          (\<forall>y\<in>set zs. intermediate (len xs) ''Bubble sort complete'' y)"
      by simp
  qed
  with f show ?thesis
    by (auto simp: bubble_sort_def Let_def)
qed

subsection \<open>Insertion sort\<close>

lemma insertion_while_shape:
  assumes "insertion_while S key arr j = (ys, arr', j')" "- 1 \<le> j" "j + 1 < n" "len arr = n"
    "finite S" "S \<subseteq> {0..<n}"
  shows "len arr' = n \<and> - 1 \<le> j' \<and> j' \<le> j \<and>
         (\<forall>s\<in>set ys. intermediate n ''Insertion sort complete'' s)"
  using assms
proof (induction S key arr j arbitrary: ys arr' j' rule: insertion_while.induct)
  case (1 S key arr j)
  show ?case
  proof (cases "j \<ge> 0 \<and> getitem arr j > key")
    case False
    with "1.prems" show ?thesis by (simp add: insertion_while.simps)
  next
    case True
    define arr1 where "arr1 = setitem arr (j + 1) (getitem arr j)"
    define s1 where "s1 = priv_state arr [(j, COMPARE), (j + 1, COMPARE)] S
                    (''Comparing key with index '' @ str j)"
    define s2 where "s2 = priv_state arr1 [(j, SWAP), (j + 1, SWAP)] S
                    (''Shifting value at index '' @ str j @ '' to index '' @ str (j + 1))"
    obtain zs a2 j2 where r: "insertion_while S key arr1 (j - 1) = (zs, a2, j2)"
      by (metis prod.exhaust)
    from "1.prems"(1) True r have eq: "ys = s1 # s2 # zs" "arr' = a2" "j' = j2"
      by (auto simp: insertion_while.simps[of S key arr j] Let_def arr1_def s1_def s2_def)
    have ih: "len a2 = n \<and> - 1 \<le> j2 \<and> j2 \<le> j - 1 \<and>
         (\<forall>s\<in>set zs. intermediate n ''Insertion sort complete'' s)"
      using "1.IH"[OF True s1_def arr1_def s2_def r] True "1.prems"(2-) by (simp add: arr1_def)
    have "intermediate n ''Insertion sort complete'' s1"
      unfolding s1_def using True "1.prems"(2-) by (intro intermediate_priv_state) auto
    moreover have "intermediate n ''Insertion sort complete'' s2"
      unfolding s2_def using True "1.prems"(2-)
      by (intro intermediate_priv_state) (auto simp: arr1_def)
    ultimately show ?thesis using ih eq by auto
  qed
qed

lemma insertion_body_shape:
  assumes "insertion_body i (arr, S) = (zs, (arr', S'))" "1 \<le> i" "i < n" "len arr = n"
    "finite S" "S \<subseteq> {0..<n}"
  shows "len arr' = n \<and> finite S' \<and> S' \<subseteq> {0..<n} \<and>
         (\<forall>s\<in>set zs. intermediate n ''Insertion sort complete'' s)"
proof -
  obtain ys a1 j1 where w: "insertion_while S (getitem arr i) arr (i - 1) = (ys, a1, j1)"
    by (metis prod.exhaust)
  from insertion_while_shape[OF w, of n] assms(2-)
  have w': "len a1 = n" "- 1 \<le> j1" "j1 \<le> i - 1"
    "\<forall>s\<in>set ys. intermediate n ''Insertion sort complete'' s"
    by simp_all
  define s0 where "s0 = priv_state arr [(i, PIVOT)] S (''Selecting key at index '' @ str i)"
  define s3 where "s3 = priv_state (setitem a1 (j1 + 1) (getitem arr i)) [(j1 + 1, SWAP)]
       (S \<union> set (py_range 0 (i + 1))) (''Inserted key at index '' @ str (j1 + 1))"
  from assms(1) w have eq: "zs = s0 # ys @ [s3]" "arr' = setitem a1 (j1 + 1) (getitem arr i)"
    "S' = S \<union> set (py_range 0 (i + 1))"
    by (auto simp: insertion_body_def Let_def s0_def s3_def)
  have "intermediate n ''Insertion sort complete'' s0"
    unfolding s0_def using assms(2-) by (intro intermediate_priv_state) auto
  moreover have "intermediate n ''Insertion sort complete'' s3"
    unfolding s3_def using assms(2-) w' by (intro intermediate_priv_state) auto
  ultimately show ?thesis using eq w' assms(2-) by auto
qed

lemma insertion_sort_shape:
  "\<exists>ys arr. insertion_sort xs =
       ys @ [priv_state arr [] {0..<len xs} ''Insertion sort complete''] \<and>
     len arr = len xs \<and> (\<forall>s\<in>set ys. intermediate (len xs) ''Insertion sort complete'' s)"
proof -
  obtain ys a1 S1 where f: "for_range 1 (len xs) insertion_body (xs, {}) = (ys, (a1, S1))"
    by (metis prod.exhaust)
  have "(case (a1, S1) of (a, S) \<Rightarrow> len a = len xs \<and> finite S \<and> S \<subseteq> {0..<len xs}) \<and>
        (\<forall>s\<in>set ys. intermediate (len xs) ''Insertion sort complete'' s)"
  proof (rule for_range_rule[OF f, where I="\<lambda>i st. case st of (a, S) \<Rightarrow>
          len a = len xs \<and> finite S \<and> S \<subseteq> {0..<len xs}"])
    show "case (xs, {}) of (a, S) \<Rightarrow> len a = len xs \<and> finite S \<and> S \<subseteq> {0..<len xs}"
      by simp
  next
    fix k s zs s'
    assume h: "1 \<le> k" "k < len xs"
      "case s of (a, S) \<Rightarrow> len a = len xs \<and> finite S \<and> S \<subseteq> {0..<len xs}"
      "insertion_body k s = (zs, s')"
    obtain a S where s: "s = (a, S)" by (cases s)
    obtain a' S' where s': "s' = (a', S')" by (cases s')
    from insertion_body_shape[of k a S zs a' S' "len xs"] h s s'
    show "(case s' of (a, S) \<Rightarrow> len a = len xs \<and> finite S \<and> S \<subseteq> {0..<len xs}) \<and>
          (\<forall>y\<in>set zs. intermediate (len xs) ''Insertion sort complete'' y)"
      by simp
  qed
  with f show ?thesis
    by (auto simp: insertion_sort_def Let_def)
qed

subsection \<open>Selection sort\<close>

lemma selection_scan_shape:
  assumes "selection_scan arr S i j m = (zs, m')" "i \<le> m" "m < j" "j < n" "0 \<le> i"
    "len arr = n" "finite S" "S \<subseteq> {0..<n}"
  shows "i \<le> m' \<and> m' < j + 1 \<and>
         (\<forall>s\<in>set zs. intermediate n ''Selection sort complete'' s)"
proof -
  define s1 where "s1 = priv_state arr [(m, PIVOT), (j, COMPARE)] S
                 (''Finding minimum from index '' @ str i @ '' onward'')"
  define s2 where "s2 = priv_state arr [(j, PIVOT)] S (''New minimum at index '' @ str j)"
  have i1: "intermediate n ''Selection sort complete'' s1"
    unfolding s1_def using assms(2-) by (intro intermediate_priv_state) auto
  have i2: "intermediate n ''Selection sort complete'' s2"
    unfolding s2_def using assms(2-) by (intro intermediate_priv_state) auto
  show ?thesis
  proof (cases "getitem arr j < getitem arr m")
    case True
    with assms(1) have "zs = [s1, s2]" "m' = j"
      by (auto simp: selection_scan_def Let_def s1_def s2_def)
    with i1 i2 assms(2-) show ?thesis by auto
  next
    case False
    with assms(1) have "zs = [s1]" "m' = m"
      by (auto simp: selection_scan_def Let_def s1_def)
    with i1 assms(2-) show ?thesis by auto
  qed
qed

lemma selection_pass_shape:
  assumes "selection_pass n i (arr, S) = (zs, (arr', S'))" "0 \<le> i" "i < n" "len arr = n"
    "finite S" "S \<subseteq> {0..<n}"
  shows "len arr' = n \<and> finite S' \<and> S' \<subseteq> {0..<n} \<and>
         (\<forall>s\<in>set zs. intermediate n ''Selection sort complete'' s)"
proof -
  obtain ys m where f: "for_range (i + 1) n (selection_scan arr S i) i = (ys, m)"
    by (metis prod.exhaust)
  have inner: "(i \<le> m \<and> m < max (i + 1) n) \<and>
      (\<forall>s\<in>set ys. intermediate n ''Selection sort complete'' s)"
  proof (rule for_range_rule[OF f, where I="\<lambda>j m. i \<le> m \<and> m < j"])
    show "i \<le> i \<and> i < i + 1" by simp
  next
    fix k s zs' s'
    assume "i + 1 \<le> k" "k < n" "i \<le> s \<and> s < k" "selection_scan arr S i k s = (zs', s')"
    with assms(2-) selection_scan_shape[of arr S i k s zs' s' n]
    show "(i \<le> s' \<and> s' < k + 1) \<and> (\<forall>y\<in>set zs'. intermediate n ''Selection sort complete'' y)"
      by simp
  qed
  define s3 where "s3 = priv_state (swap arr i m) [(i, SORTED), (m, SWAP)] (insert i S)
                        (''Swapped minimum into position '' @ str i)"
  from assms(1) f have eq: "arr' = swap arr i m" "S' = insert i S" "zs = ys @ [s3]"
    by (auto simp: selection_pass_def Let_def s3_def)
  have "intermediate n ''Selection sort complete'' s3"
    unfolding s3_def using inner assms(2-6) by (intro intermediate_priv_state) auto
  with inner eq assms(2-6) show ?thesis by auto
qed

lemma selection_sort_shape:
  "\<exists>ys arr. selection_sort xs =
       ys @ [priv_state arr [] {0..<len xs} ''Selection sort complete''] \<and>
     len arr = len xs \<and> (\<forall>s\<in>set ys. intermediate (len xs) ''Selection sort complete'' s)"
proof -
  obtain ys a1 S1 where
    f: "for_range 0 (len xs) (selection_pass (len xs)) (xs, {}) = (ys, (a1, S1))"
    by (metis prod.exhaust)
  have "(case (a1, S1) of (a, S) \<Rightarrow> len a = len xs \<and> finite S \<and> S \<subseteq> {0..<len xs}) \<and>
        (\<forall>s\<in>set ys. intermediate (len xs) ''Selection sort complete'' s)"
  proof (rule for_range_rule[OF f, where I="\<lambda>i st. case st of (a, S) \<Rightarrow>
          len a = len xs \<and> finite S \<and> S \<subseteq> {0..<len xs}"])
    show "case (xs, {}) of (a, S) \<Rightarrow> len a = len xs \<and> finite S \<and> S \<subseteq> {0..<len xs}"
      by simp
  next
    fix k s zs s'
    assume h: "0 \<le> k" "k < len xs"
      "case s of (a, S) \<Rightarrow> len a = len xs \<and> finite S \<and> S \<subseteq> {0..<len xs}"
      "selection_pass (len xs) k s = (zs, s')"
    obtain a S where s: "s = (a, S)" by (cases s)
    obtain a' S' where s': "s' = (a', S')" by (cases s')
    from selection_pass_shape[of "len xs" k a S zs a' S'] h s s'
    show "(case s' of (a, S) \<Rightarrow> len a = len xs \<and> finite S \<and> S \<subseteq> {0..<len xs}) \<and>
          (\<forall>y\<in>set zs. intermediate (len xs) ''Selection sort complete'' y)"
      by simp
  qed
  with f show ?thesis
    by (auto simp: selection_sort_def Let_def)
qed

subsection \<open>Quick sort\<close>

lemma partition_body_shape:
  assumes "partition_body S high pivot j (arr, i) = (zs, (arr', i'))"
    "0 \<le> low" "low - 1 \<le> i" "i < j" "low \<le> j" "j < high" "high < n" "len arr = n"
    "finite S" "S \<subseteq> {0..<n}"
  shows "len arr' = n \<and> low - 1 \<le> i' \<and> i' < j + 1 \<and>
         (\<forall>s\<in>set zs. intermediate n ''Quick sort complete'' s)"
proof -
  define s1 where "s1 = priv_state arr [(j, COMPARE), (high, PIVOT)] S
                    (''Comparing index '' @ str j @ '' with pivot'')"
  define s2 where "s2 = priv_state (swap arr (i + 1) j) [(i + 1, SWAP), (j, SWAP)] S
                          (''Swapped indices '' @ str (i + 1) @ '' and '' @ str j)"
  have i1: "intermediate n ''Quick sort complete'' s1"
    unfolding s1_def using assms(2-) by (intro intermediate_priv_state) auto
  have i2: "intermediate n ''Quick sort complete'' s2"
    unfolding s2_def using assms(2-) by (intro intermediate_priv_state) auto
  show ?thesis
  proof (cases "getitem arr j \<le> pivot")
    case True
    with assms(1) have "zs = [s1, s2]" "arr' = swap arr (i + 1) j" "i' = i + 1"
      by (auto simp: partition_body_def Let_def s1_def s2_def)
    with i1 i2 assms(2-) show ?thesis by auto
  next
    case False
    with assms(1) have "zs = [s1]" "arr' = arr" "i' = i"
      by (auto simp: partition_body_def Let_def s1_def)
    with i1 assms(2-) show ?thesis by auto
  qed
qed

lemma partition_shape:
  assumes "lomuto_partition arr low high S = (zs, arr2, p, S1)"
    "0 \<le> low" "low < high" "high < n" "len arr = n" "finite S" "S \<subseteq> {0..<n}"
  shows "len arr2 = n \<and> low \<le> p \<and> p \<le> high \<and> S1 = insert p S \<and>
         (\<forall>s\<in>set zs. intermediate n ''Quick sort complete'' s)"
proof -
  obtain ys a1 i1 where
    f: "for_range low high (partition_body S high (getitem arr high)) (arr, low - 1) = (ys, (a1, i1))"
    by (metis prod.exhaust)
  have inner: "(case (a1, i1) of (a, i) \<Rightarrow> len a = n \<and> low - 1 \<le> i \<and> i < max low high) \<and>
      (\<forall>s\<in>set ys. intermediate n ''Quick sort complete'' s)"
  proof (rule for_range_rule[OF f, where
        I="\<lambda>j st. case st of (a, i) \<Rightarrow> len a = n \<and> low - 1 \<le> i \<and> i < j"])
    show "case (arr, low - 1) of (a, i) \<Rightarrow> len a = n \<and> low - 1 \<le> i \<and> i < low"
      using assms(5) by simp
  next
    fix k s zs' s'
    assume h: "low \<le> k" "k < high"
      "case s of (a, i) \<Rightarrow> len a = n \<and> low - 1 \<le> i \<and> i < k"
      "partition_body S high (getitem arr high) k s = (zs', s')"
    obtain a i where s: "s = (a, i)" by (cases s)
    obtain a' i' where s': "s' = (a', i')" by (cases s')
    from partition_body_shape[of S high "getitem arr high" k a i zs' a' i' low n] h s s' assms(2-)
    show "(case s' of (a, i) \<Rightarrow> len a = n \<and> low - 1 \<le> i \<and> i < k + 1) \<and>
          (\<forall>y\<in>set zs'. intermediate n ''Quick sort complete'' y)"
      by simp
  qed
  define s0 where "s0 = priv_state arr [(high, PIVOT)] S (''Pivot chosen at index '' @ str high)"
  define s3 where "s3 = priv_state (swap a1 (i1 + 1) high) [(i1 + 1, SORTED)] (insert (i1 + 1) S)
                               (''Pivot settled at index '' @ str (i1 + 1))"
  from assms(1) f have eq: "zs = s0 # ys @ [s3]" "arr2 = swap a1 (i1 + 1) high" "p = i1 + 1"
    "S1 = insert (i1 + 1) S"
    by (auto simp: lomuto_partition_def Let_def s0_def s3_def)
  have "intermediate n ''Quick sort complete'' s0"
    unfolding s0_def using assms(2-) by (intro intermediate_priv_state) auto
  moreover have "intermediate n ''Quick sort complete'' s3"
    unfolding s3_def using assms(2-) inner by (intro intermediate_priv_state) auto
  ultimately show ?thesis using inner eq assms(2-) by auto
qed

lemma priv_quick_sort_shape:
  assumes "priv_quick_sort arr low high S = (zs, arr', S')"
    "0 \<le> low" "high < n" "len arr = n" "finite S" "S \<subseteq> {0..<n}"
  shows "len arr' = n \<and> S' = S \<union> {low..high} \<and>
         (\<forall>s\<in>set zs. intermediate n ''Quick sort complete'' s)"
  using assms
proof (induction arr low high S arbitrary: zs arr' S' rule: priv_quick_sort.induct)
  case (1 arr low high S)
  note run = "1.prems"(1)[unfolded priv_quick_sort.simps[of arr low high S]]
  show ?case
  proof (cases "low \<ge> high")
    case True
    show ?thesis
    proof (cases "low = high")
      case eq: True
      define s where "s = priv_state arr [(low, SORTED)] (insert low S)
                            (''Index '' @ str low @ '' is sorted'')"
      from run eq have r: "zs = [s]" "arr' = arr" "S' = insert low S"
        by (auto simp: Let_def s_def)
      have "intermediate n ''Quick sort complete'' s"
        unfolding s_def using "1.prems"(2-) eq by (intro intermediate_priv_state) auto
      with r eq "1.prems"(2-) show ?thesis by auto
    next
      case False
      with True run have "zs = []" "arr' = arr" "S' = S"
        by auto
      with True False "1.prems"(2-) show ?thesis by auto
    qed
  next
    case False
    obtain ys arr2 p S1 where pt: "lomuto_partition arr low high S = (ys, arr2, p, S1)"
      by (metis prod.exhaust)
    obtain ls arr3 S2 where l: "priv_quick_sort arr2 low (p - 1) S1 = (ls, arr3, S2)"
      by (metis prod.exhaust)
    obtain rs arr4 S3 where r: "priv_quick_sort arr3 (p + 1) high S2 = (rs, arr4, S3)"
      by (metis prod.exhaust)
    from run False pt l r have eq: "zs = ys @ ls @ rs" "arr' = arr4" "S' = S3"
      by auto
    from partition_shape[OF pt, of n] False "1.prems"(2-)
    have ps: "len arr2 = n" "low \<le> p" "p \<le> high" "S1 = insert p S"
      "\<forall>s\<in>set ys. intermediate n ''Quick sort complete'' s"
      by simp_all
    have S1: "finite S1" "S1 \<subseteq> {0..<n}"
      using ps "1.prems"(2-) by auto
    have ihl: "len arr3 = n \<and> S2 = S1 \<union> {low..p - 1} \<and>
         (\<forall>s\<in>set ls. intermediate n ''Quick sort complete'' s)"
    proof (rule "1.IH"(1)[OF False pt[symmetric] refl refl l])
      show "0 \<le> low" "len arr2 = n" "finite S1" "S1 \<subseteq> {0..<n}"
        using ps S1 "1.prems"(2) by simp_all
      show "p - 1 < n" using ps "1.prems"(3) by simp
    qed
    have S2: "finite S2" "S2 \<subseteq> {0..<n}"
      using ihl S1 ps "1.prems"(2-) by auto
    have ihr: "len arr4 = n \<and> S3 = S2 \<union> {p + 1..high} \<and>
         (\<forall>s\<in>set rs. intermediate n ''Quick sort complete'' s)"
    proof (rule "1.IH"(2)[OF False pt[symmetric] refl refl l[symmetric] refl r])
      show "0 \<le> p + 1" "high < n" "len arr3 = n" "finite S2" "S2 \<subseteq> {0..<n}"
        using ps S2 ihl "1.prems"(2,3) by simp_all
    qed
    from ps ihl ihr have "S3 = S \<union> {low..high}" by auto
    with eq ps ihl ihr show ?thesis by auto
  qed
qed

lemma quick_sort_shape:
  "\<exists>ys arr. quick_sort xs = ys @ [priv_state arr [] {0..<len xs} ''Quick sort complete''] \<and>
     len arr = len xs \<and> (\<forall>s\<in>set ys. intermediate (len xs) ''Quick sort complete'' s)"
proof -
  obtain ys a1 S1 where f: "priv_quick_sort xs 0 (len xs - 1) {} = (ys, a1, S1)"
    by (metis prod.exhaust)
  from priv_quick_sort_shape[OF f, of "len xs"]
  have "len a1 = len xs \<and> (\<forall>s\<in>set ys. intermediate (len xs) ''Quick sort complete'' s)"
    by simp
  with f show ?thesis
    by (auto simp: quick_sort_def Let_def)
qed

subsection \<open>Merge sort\<close>

lemma len_slice:
  "0 \<le> a \<Longrightarrow> a \<le> b \<Longrightarrow> b \<le> len xs \<Longrightarrow> len (slice xs a b) = b - a"
  by (auto simp: len_def slice_def)

lemma merge_while_shape:
  assumes "merge_while left right start mid e S (arr, i, j, k) = (ys, (arr', i', j', k'))"
    "0 \<le> start" "start + len left + len right \<le> n" "mid + 1 = start + len left"
    "0 \<le> i" "0 \<le> j" "i \<le> len left" "j \<le> len right" "k = start + i + j" "len arr = n"
    "finite S" "S \<subseteq> {0..<n}"
  shows "len arr' = n \<and> i \<le> i' \<and> i' \<le> len left \<and> j \<le> j' \<and> j' \<le> len right \<and>
         k' = start + i' + j' \<and> (i' = len left \<or> j' = len right) \<and>
         (\<forall>s\<in>set ys. intermediate n ''Merge sort complete'' s)"
  using assms
proof (induction left right start mid e S "(arr, i, j, k)"
    arbitrary: arr i j k ys arr' i' j' k' rule: merge_while.induct)
  case (1 left right start mid e S arr i j k)
  note run = "1.prems"(1)[unfolded merge_while.simps[of left right start mid e S arr i j k]]
  show ?case
  proof (cases "i < len left \<and> j < len right")
    case False
    with run have "ys = []" "arr' = arr" "i' = i" "j' = j" "k' = k" by auto
    with False "1.prems"(2-) show ?thesis by auto
  next
    case True
    define s1 where "s1 = priv_state arr
                    [(k, COMPARE), (start + i, COMPARE), (mid + 1 + j, COMPARE)] S
                    (''Merging indices '' @ str start @ '' to '' @ str e)"
    define st where "st = (if getitem left i \<le> getitem right j
                then (setitem arr k (getitem left i), i + 1, j)
                else (setitem arr k (getitem right j), i, j + 1))"
    obtain a1 i1 j1 where st1: "st = (a1, i1, j1)" by (metis prod.exhaust)
    define s2 where "s2 = priv_state a1 [(k, SWAP)] S (''Placed value at index '' @ str k)"
    obtain zs fin where r: "merge_while left right start mid e S (a1, i1, j1, k + 1) = (zs, fin)"
      by (metis prod.exhaust)
    from run True st1 r have eq: "ys = s1 # s2 # zs" "fin = (arr', i', j', k')"
      by (auto simp: Let_def s1_def s2_def st_def)
    from st1 have a1: "len a1 = n" "(i1 = i + 1 \<and> j1 = j) \<or> (i1 = i \<and> j1 = j + 1)"
      using "1.prems"(10) by (auto simp: st_def split: if_splits)
    have ih: "len arr' = n \<and> i1 \<le> i' \<and> i' \<le> len left \<and> j1 \<le> j' \<and> j' \<le> len right \<and>
         k' = start + i' + j' \<and> (i' = len left \<or> j' = len right) \<and>
         (\<forall>s\<in>set zs. intermediate n ''Merge sort complete'' s)"
    proof (rule "1.hyps"[OF True s1_def st_def st1[symmetric] refl s2_def r[unfolded eq(2)]])
      show "0 \<le> start" "start + len left + len right \<le> n" "mid + 1 = start + len left"
        "finite S" "S \<subseteq> {0..<n}" "len a1 = n"
        using "1.prems"(2-) a1 by simp_all
      show "0 \<le> i1" "0 \<le> j1" "i1 \<le> len left" "j1 \<le> len right" "k + 1 = start + i1 + j1"
        using "1.prems"(2-) a1 True by auto
    qed
    have "intermediate n ''Merge sort complete'' s1"
      unfolding s1_def using True "1.prems"(2-) by (intro intermediate_priv_state) auto
    moreover have "intermediate n ''Merge sort complete'' s2"
      unfolding s2_def using True "1.prems"(2-) a1 by (intro intermediate_priv_state) auto
    ultimately show ?thesis using ih eq a1 by auto
  qed
qed

lemma merge_left_shape:
  assumes "merge_left left S (arr, i, k) = (ys, (arr', i', k'))"
    "0 \<le> i" "i \<le> len left" "0 \<le> k" "k + (len left - i) \<le> n" "len arr = n"
    "finite S" "S \<subseteq> {0..<n}"
  shows "len arr' = n \<and> i' = len left \<and> k' = k + (len left - i) \<and>
         (\<forall>s\<in>set ys. intermediate n ''Merge sort complete'' s)"
  using assms
proof (induction left S "(arr, i, k)" arbitrary: arr i k ys rule: merge_left.induct)
  case (1 left S arr i k)
  note run = "1.prems"(1)[unfolded merge_left.simps[of left S arr i k]]
  show ?case
  proof (cases "i < len left")
    case False
    with run have "ys = []" "arr' = arr" "i' = i" "k' = k" by auto
    with False "1.prems"(2-) show ?thesis by auto
  next
    case True
    define a1 where "a1 = setitem arr k (getitem left i)"
    define s where "s = priv_state a1 [(k, SWAP)] S
                   (''Copying remaining left element to index '' @ str k)"
    obtain zs fin where r: "merge_left left S (a1, i + 1, k + 1) = (zs, fin)"
      by (metis prod.exhaust)
    from run True r have eq: "ys = s # zs" "fin = (arr', i', k')"
      by (auto simp: Let_def s_def a1_def)
    have ih: "len arr' = n \<and> i' = len left \<and> k' = k + 1 + (len left - (i + 1)) \<and>
         (\<forall>s\<in>set zs. intermediate n ''Merge sort complete'' s)"
      by (rule "1.hyps"[OF True a1_def s_def r[unfolded eq(2)]])
         (use "1.prems"(2-) True in \<open>auto simp: a1_def\<close>)
    have "intermediate n ''Merge sort complete'' s"
      unfolding s_def using True "1.prems"(2-) by (intro intermediate_priv_state) (auto simp: a1_def)
    with ih eq show ?thesis by auto
  qed
qed

lemma merge_right_shape:
  assumes "merge_right right S (arr, j, k) = (ys, (arr', j', k'))"
    "0 \<le> j" "j \<le> len right" "0 \<le> k" "k + (len right - j) \<le> n" "len arr = n"
    "finite S" "S \<subseteq> {0..<n}"
  shows "len arr' = n \<and> j' = len right \<and> k' = k + (len right - j) \<and>
         (\<forall>s\<in>set ys. intermediate n ''Merge sort complete'' s)"
  using assms
proof (induction right S "(arr, j, k)" arbitrary: arr j k ys rule: merge_right.induct)
  case (1 right S arr j k)
  note run = "1.prems"(1)[unfolded merge_right.simps[of right S arr j k]]
  show ?case
  proof (cases "j < len right")
    case False
    with run have "ys = []" "arr' = arr" "j' = j" "k' = k" by auto
    with False "1.prems"(2-) show ?thesis by auto
  next
    case True
    define a1 where "a1 = setitem arr k (getitem right j)"
    define s where "s = priv_state a1 [(k, SWAP)] S
                   (''Copying remaining right element to index '' @ str k)"
    obtain zs fin where r: "merge_right right S (a1, j + 1, k + 1) = (zs, fin)"
      by (metis prod.exhaust)
    from run True r have eq: "ys = s # zs" "fin = (arr', j', k')"
      by (auto simp: Let_def s_def a1_def)
    have ih: "len arr' = n \<and> j' = len right \<and> k' = k + 1 + (len right - (j + 1)) \<and>
         (\<forall>s\<in>set zs. intermediate n ''Merge sort complete'' s)"
      by (rule "1.hyps"[OF True a1_def s_def r[unfolded eq(2)]])
         (use "1.prems"(2-) True in \<open>auto simp: a1_def\<close>)
    have "intermediate n ''Merge sort complete'' s"
      unfolding s_def using True "1.prems"(2-) by (intro intermediate_priv_state) (auto simp: a1_def)
    with ih eq show ?thesis by auto
  qed
qed

lemma priv_merge_shape:
  assumes "priv_merge arr start mid e S = (ys, arr', S')"
    "0 \<le> start" "start \<le> mid" "mid < e" "e < n" "len arr = n" "finite S" "S \<subseteq> {0..<n}"
  shows "len arr' = n \<and> S' = S \<union> {start..e} \<and>
         (\<forall>s\<in>set ys. intermediate n ''Merge sort complete'' s)"
proof -
  define left where "left = slice arr start (mid + 1)"
  define right where "right = slice arr (mid + 1) (e + 1)"
  have ll: "len left = mid + 1 - start" "len right = e - mid"
    using assms(2-6) by (simp_all add: left_def right_def len_slice)
  obtain ys1 a1 i1 j1 k1 where
    w: "merge_while left right start mid e S (arr, 0, 0, start) = (ys1, (a1, i1, j1, k1))"
    by (metis prod.exhaust)
  obtain ys2 a2 i2 k2 where l: "merge_left left S (a1, i1, k1) = (ys2, (a2, i2, k2))"
    by (metis prod.exhaust)
  obtain ys3 a3 j3 k3 where r: "merge_right right S (a2, j1, k2) = (ys3, (a3, j3, k3))"
    by (metis prod.exhaust)
  define s where "s = priv_state a3 (map (\<lambda>idx. (idx, SORTED)) (py_range start (e + 1)))
       (S \<union> set (py_range start (e + 1))) (''Segment '' @ str start @ '':'' @ str e @ '' sorted'')"
  from assms(1) w l r have eq: "ys = ys1 @ ys2 @ ys3 @ [s]" "arr' = a3"
    "S' = S \<union> set (py_range start (e + 1))"
    by (auto simp: priv_merge_def Let_def left_def right_def s_def)
  have w': "len a1 = n \<and> 0 \<le> i1 \<and> i1 \<le> len left \<and> 0 \<le> j1 \<and> j1 \<le> len right \<and>
         k1 = start + i1 + j1 \<and> (i1 = len left \<or> j1 = len right) \<and>
         (\<forall>s\<in>set ys1. intermediate n ''Merge sort complete'' s)"
    by (rule merge_while_shape[OF w]) (use assms(2-) ll in auto)
  have l': "len a2 = n \<and> i2 = len left \<and> k2 = k1 + (len left - i1) \<and>
         (\<forall>s\<in>set ys2. intermediate n ''Merge sort complete'' s)"
    by (rule merge_left_shape[OF l]) (use assms(2-) ll w' in auto)
  have r': "len a3 = n \<and> j3 = len right \<and> k3 = k2 + (len right - j1) \<and>
         (\<forall>s\<in>set ys3. intermediate n ''Merge sort complete'' s)"
    by (rule merge_right_shape[OF r]) (use assms(2-) ll w' l' in auto)
  have "intermediate n ''Merge sort complete'' s"
    unfolding s_def using assms(2-) r' by (intro intermediate_priv_state) auto
  with eq w' l' r' show ?thesis by auto
qed

lemma priv_merge_sort_shape:
  assumes "priv_merge_sort arr start e S = (ys, arr', S')"
    "0 \<le> start" "start \<le> e" "e < n" "len arr = n" "finite S" "S \<subseteq> {0..<n}"
  shows "len arr' = n \<and> S' = S \<union> {start..e} \<and>
         (\<forall>s\<in>set ys. intermediate n ''Merge sort complete'' s)"
  using assms
proof (induction arr start e S arbitrary: ys arr' S' rule: priv_merge_sort.induct)
  case (1 arr start e S)
  note run = "1.prems"(1)[unfolded priv_merge_sort.simps[of arr start e S]]
  show ?case
  proof (cases "start \<ge> e")
    case True
    define s where "s = priv_state arr [(start, SORTED)] (insert start S)
                (''Index '' @ str start @ '' is trivially sorted'')"
    from run True have r: "ys = [s]" "arr' = arr" "S' = insert start S"
      by (auto simp: Let_def s_def)
    have "intermediate n ''Merge sort complete'' s"
      unfolding s_def using "1.prems"(2-) by (intro intermediate_priv_state) auto
    with r True "1.prems"(2-) show ?thesis by auto
  next
    case False
    define mid where "mid = (start + e) div 2"
    have mid: "start \<le> mid" "mid < e" using False by (auto simp: mid_def)
    obtain ys1 a1 S1 where l: "priv_merge_sort arr start mid S = (ys1, a1, S1)"
      by (metis prod.exhaust)
    obtain ys2 a2 S2 where r: "priv_merge_sort a1 (mid + 1) e S1 = (ys2, a2, S2)"
      by (metis prod.exhaust)
    obtain ys3 a3 S3 where m: "priv_merge a2 start mid e S2 = (ys3, a3, S3)"
      by (metis prod.exhaust)
    from run False l r m have eq: "ys = ys1 @ ys2 @ ys3" "arr' = a3" "S' = S3"
      by (auto simp: Let_def mid_def)
    have ihl: "len a1 = n \<and> S1 = S \<union> {start..mid} \<and>
         (\<forall>s\<in>set ys1. intermediate n ''Merge sort complete'' s)"
      by (rule "1.IH"(1)[OF False mid_def l]) (use "1.prems"(2-) mid in auto)
    have S1: "finite S1" "S1 \<subseteq> {0..<n}" using ihl mid "1.prems"(2-) by auto
    have ihr: "len a2 = n \<and> S2 = S1 \<union> {mid + 1..e} \<and>
         (\<forall>s\<in>set ys2. intermediate n ''Merge sort complete'' s)"
      by (rule "1.IH"(2)[OF False mid_def l[symmetric] refl r])
         (use "1.prems"(2-) mid ihl S1 in auto)
    have S2: "finite S2" "S2 \<subseteq> {0..<n}" using ihr S1 mid "1.prems"(2-) by auto
    have mm: "len a3 = n \<and> S3 = S2 \<union> {start..e} \<and>
         (\<forall>s\<in>set ys3. intermediate n ''Merge sort complete'' s)"
      by (rule priv_merge_shape[OF m]) (use "1.prems"(2-) mid ihr S2 in auto)
    from ihl ihr mm mid have "S3 = S \<union> {start..e}" by auto
    with eq ihl ihr mm show ?thesis by auto
  qed
qed

lemma merge_sort_shape:
  "\<exists>ys arr. merge_sort xs = ys @ [priv_state arr [] {0..<len xs} ''Merge sort complete''] \<and>
     len arr = len xs \<and> (\<forall>s\<in>set ys. intermediate (len xs) ''Merge sort complete'' s)"
proof (cases "xs = []")
  case True
  then show ?thesis by (simp add: merge_sort_def)
next
  case False
  obtain ys a1 S1 where f: "priv_merge_sort xs 0 (len xs - 1) {} = (ys, a1, S1)"
    by (metis prod.exhaust)
  have "len a1 = len xs \<and> S1 = {} \<union> {0..len xs - 1} \<and>
        (\<forall>s\<in>set ys. intermediate (len xs) ''Merge sort complete'' s)"
    by (rule priv_merge_sort_shape[OF f]) (use False in \<open>auto simp: len_def\<close>)
  with f False show ?thesis
    by (auto simp: merge_sort_def Let_def)
qed

section \<open>Completion and well-formedness\<close>

lemma sorted_list_of_range: "sorted_list_of_set {a..<b :: int} = py_range a b"
proof -
  have s: "{a..<b} = set [a..b - 1]" by auto
  show ?thesis
    unfolding s py_range_def
    by (rule sorted_list_of_set.idem_if_sorted_distinct) simp_all
qed

lemma dict_of_Nil [simp]: "dict_of [] = []"
  by (simp add: dict_of_def)

lemma run_shape:
  assumes "\<exists>ys arr. run = ys @ [priv_state arr [] {0..<n} fd] \<and> len arr = n \<and>
             (\<forall>s\<in>set ys. intermediate n fd s)"
  shows "run \<noteq> []" "description (last run) = fd" "highlights (last run) = []"
    "len (array (last run)) = n" "sorted_indices (last run) = py_range 0 n"
    "\<forall>s\<in>set (butlast run). description s \<noteq> fd" "\<forall>s\<in>set run. valid_snapshot s"
proof -
  from assms obtain ys arr where r: "run = ys @ [priv_state arr [] {0..<n} fd]" "len arr = n"
    "\<forall>s\<in>set ys. intermediate n fd s"
    by blast
  show "run \<noteq> []" "description (last run) = fd" "highlights (last run) = []"
    "len (array (last run)) = n" "sorted_indices (last run) = py_range 0 n"
    using r(1,2) by (simp_all add: sorted_list_of_range)
  show "\<forall>s\<in>set (butlast run). description s \<noteq> fd"
    using r(1,3) by (simp add: intermediate_def)
  have "valid_snapshot (priv_state arr [] {0..<n} fd)"
    using r(2) by (intro valid_priv_state) auto
  with r(1,3) show "\<forall>s\<in>set run. valid_snapshot s"
    by (auto simp: intermediate_def)
qed

lemma ends_with_completionI:
  assumes "\<And>xs. \<exists>ys arr. e xs = ys @ [priv_state arr [] {0..<len xs} fd] \<and> len arr = len xs \<and>
             (\<forall>s\<in>set ys. intermediate (len xs) fd s)"
  shows "ends_with_completion e fd"
  unfolding ends_with_completion_def
proof (intro allI conjI)
  fix xs
  note r = run_shape[OF assms[of xs]]
  show "e xs \<noteq> []" "description (last (e xs)) = fd" "highlights (last (e xs)) = []"
    "len (array (last (e xs))) = len xs" "sorted_indices (last (e xs)) = py_range 0 (len xs)"
    "\<forall>s\<in>set (butlast (e xs)). description s \<noteq> fd"
    by (rule r)+
qed

lemma bubble_sort_5_1_run:
  "bubble_sort [5, 1] =
     [\<lparr>array = [5, 1], highlights = [(0, COMPARE), (1, COMPARE)], sorted_indices = [],
         description = ''Comparing indices 0 and 1''\<rparr>,
      \<lparr>array = [1, 5], highlights = [(0, SWAP), (1, SWAP)], sorted_indices = [],
         description = ''Swapped indices 0 and 1''\<rparr>,
      \<lparr>array = [1, 5], highlights = [(1, SORTED)], sorted_indices = [1],
         description = ''Position 1 is sorted''\<rparr>,
      \<lparr>array = [1, 5], highlights = [(0, SORTED)], sorted_indices = [0, 1],
         description = ''Position 0 is sorted''\<rparr>,
      \<lparr>array = [1, 5], highlights = [], sorted_indices = [0, 1],
         description = ''Bubble sort complete''\<rparr>]"
  by code_simp

text \<open>
  C9: the last snapshot of every engine is its completion snapshot: the description
  names the algorithm and says complete, there is no highlight, and the sorted indices
  are the whole index range of the array; no earlier snapshot of the run has that
  description, so the completion snapshot differs from every intermediate one.
\<close>

theorem completion_snapshot_last:
  "ends_with_completion bubble_sort ''Bubble sort complete'' \<and>
   ends_with_completion insertion_sort ''Insertion sort complete'' \<and>
   ends_with_completion selection_sort ''Selection sort complete'' \<and>
   ends_with_completion quick_sort ''Quick sort complete'' \<and>
   ends_with_completion (merge_sort :: int list \<Rightarrow> int SortState list) ''Merge sort complete''"
  by (intro conjI ends_with_completionI bubble_sort_shape insertion_sort_shape
      selection_sort_shape quick_sort_shape merge_sort_shape)

theorem completion_snapshot_last_witness:
  "description (last (bubble_sort [5, 1])) = ''Bubble sort complete'' \<and>
   sorted_indices (last (bubble_sort [5, 1])) = [0, 1] \<and>
   description (bubble_sort [5, 1] ! 3) = ''Position 0 is sorted'' \<and>
   description (bubble_sort [5, 1] ! 3) \<noteq> ''Bubble sort complete''"
proof -
  from completion_snapshot_last
  have c: "ends_with_completion bubble_sort ''Bubble sort complete''" by blast
  have m: "bubble_sort [5, 1] ! 3 \<in> set (butlast (bubble_sort [5, 1]))"
    by (simp add: bubble_sort_5_1_run)
  from c have "description (last (bubble_sort [5, 1])) = ''Bubble sort complete''"
    "sorted_indices (last (bubble_sort [5, 1])) = py_range 0 (len [5, 1 :: int])"
    "\<forall>s \<in> set (butlast (bubble_sort [5, 1])). description s \<noteq> ''Bubble sort complete''"
    unfolding ends_with_completion_def by blast+
  with m show ?thesis
    by (simp add: bubble_sort_5_1_run py_range_def len_def)
qed

text \<open>
  C10: in every snapshot of every engine the keys of the highlights and the sorted
  indices are indices of the snapshot's array, and the sorted indices are ascending
  without a duplicate.
\<close>

theorem snapshots_valid:
  "\<forall>e \<in> set engines. \<forall>xs. \<forall>s \<in> set (e xs). valid_snapshot s"
  unfolding engines_def
  using run_shape(7)[OF bubble_sort_shape] run_shape(7)[OF insertion_sort_shape]
    run_shape(7)[OF selection_sort_shape] run_shape(7)[OF quick_sort_shape]
    run_shape(7)[OF merge_sort_shape[where 'a=int]]
  by simp

theorem snapshots_valid_witness:
  "quick_sort \<in> set engines \<and>
   quick_sort [3, 1, 2] ! 3 =
     \<lparr>array = [1, 3, 2], highlights = [(0, SWAP), (1, SWAP)], sorted_indices = [],
        description = ''Swapped indices 0 and 1''\<rparr> \<and>
   valid_snapshot (quick_sort [3, 1, 2] ! 3)"
proof -
  have e: "quick_sort \<in> set engines" by (simp add: engines_def)
  have l: "length (quick_sort [3, 1, 2]) = 8" by code_simp
  have v: "quick_sort [3, 1, 2] ! 3 =
     \<lparr>array = [1, 3, 2], highlights = [(0, SWAP), (1, SWAP)], sorted_indices = [],
        description = ''Swapped indices 0 and 1''\<rparr>" by code_simp
  from l have "quick_sort [3, 1, 2] ! 3 \<in> set (quick_sort [3, 1, 2])" by simp
  with snapshots_valid e have "valid_snapshot (quick_sort [3, 1, 2] ! 3)" by blast
  with e v show ?thesis by simp
qed

section \<open>The caller's sequence\<close>

subsection \<open>Every assignment of an engine updates its own copy\<close>

text \<open>
  Each engine starts with \<^verbatim>\<open>arr = list(data)\<close> and hands \<^verbatim>\<open>arr\<close> on to its loops and
  helpers, so every assignment of a run is made to the object at the address that
  \<open>list_copy\<close> returned. The lemmas follow the store through each loop and each
  recursive call: it differs from the store \<open>h0\<close> after the copy at most at that
  address, at every yield and at the end.
\<close>

lemma only_at_refl: "a < length h \<Longrightarrow> only_at a h h"
  by (simp add: only_at_def)

lemma only_at_setitem: "only_at a h0 h \<Longrightarrow> only_at a h0 (store_setitem h a i v)"
  by (simp add: only_at_def store_setitem_def)

lemma only_at_swap: "only_at a h0 h \<Longrightarrow> only_at a h0 (store_swap h a i j)"
  by (simp add: only_at_def store_swap_def)

lemma own_yield: "only_at a h0 h \<Longrightarrow> own a h0 (yield_state h a hls S d)"
  by (simp add: own_def yield_state_def)

lemma only_at_caller:
  assumes "only_at (length h) (h @ [x]) h'"
  shows "length h' = Suc (length h) \<and> take (length h) h' = h"
proof -
  from assms have l: "length h' = Suc (length h)"
    and e: "\<And>k. k < length h \<Longrightarrow> h' ! k = h ! k"
    by (auto simp: only_at_def nth_append)
  have "take (length h) h' = h"
    by (rule nth_equalityI) (use l e in auto)
  with l show ?thesis by simp
qed

lemma bubble_body_frame:
  assumes "bubble_body_st a S j h = (ys, h')" "only_at a h0 h"
  shows "only_at a h0 h' \<and> (\<forall>y\<in>set ys. own a h0 y)"
  using assms
  by (auto simp: bubble_body_st_def Let_def own_yield only_at_swap split: if_splits)

lemma bubble_pass_frame:
  assumes "bubble_pass_st a n i (h, S) = (ys, (h', S'))" "only_at a h0 h"
  shows "only_at a h0 h' \<and> (\<forall>y\<in>set ys. own a h0 y)"
proof -
  obtain zs h1 where f: "for_range 0 (n - i - 1) (bubble_body_st a S) h = (zs, h1)"
    by (metis prod.exhaust)
  have inner: "only_at a h0 h1 \<and> (\<forall>y\<in>set zs. own a h0 y)"
    by (rule for_range_rule[OF f, where I="\<lambda>j h. only_at a h0 h"])
       (use assms(2) bubble_body_frame in auto)
  from assms(1) f have "h' = h1"
    "ys = zs @ [yield_state h1 a [(n - i - 1, SORTED)] (insert (n - i - 1) S)
                  (''Position '' @ str (n - i - 1) @ '' is sorted'')]"
    by (auto simp: bubble_pass_st_def Let_def)
  with inner show ?thesis by (auto simp: own_yield)
qed

lemma bubble_sort_frame:
  assumes "bubble_sort_st h d = (ys, hf)" "d < length h"
  shows "only_at (length h) (h @ [h ! d]) hf \<and> (\<forall>y\<in>set ys. own (length h) (h @ [h ! d]) y)"
proof -
  define h0 where "h0 = h @ [h ! d]"
  define a where "a = length h"
  define n where "n = len (h0 ! a)"
  have a0: "only_at a h0 h0" by (simp add: only_at_refl a_def h0_def)
  obtain zs h1 S1 where f: "for_range 0 n (bubble_pass_st a n) (h0, {}) = (zs, (h1, S1))"
    by (metis prod.exhaust)
  have r: "only_at a h0 (fst (h1, S1)) \<and> (\<forall>y\<in>set zs. own a h0 y)"
  proof (rule for_range_rule[OF f, where I="\<lambda>i st. only_at a h0 (fst st)"])
    show "only_at a h0 (fst (h0, {}))" using a0 by simp
  next
    fix k s ws s'
    assume h: "only_at a h0 (fst s)" "bubble_pass_st a n k s = (ws, s')"
    obtain hh S where s: "s = (hh, S)" by (cases s)
    obtain hh' S' where s': "s' = (hh', S')" by (cases s')
    from bubble_pass_frame[of a n k hh S ws hh' S' h0] h s s'
    show "only_at a h0 (fst s') \<and> (\<forall>y\<in>set ws. own a h0 y)" by simp
  qed
  from assms(1) f have "hf = h1"
    "ys = zs @ [yield_state h1 a [] (set (py_range 0 n)) ''Bubble sort complete'']"
    by (auto simp: bubble_sort_st_def list_copy_def Let_def h0_def a_def n_def)
  with r show ?thesis by (auto simp: own_yield h0_def a_def)
qed

lemma insertion_while_frame:
  "insertion_while_st a S key h j = (ys, h', j') \<Longrightarrow> only_at a h0 h \<Longrightarrow>
   only_at a h0 h' \<and> (\<forall>y\<in>set ys. own a h0 y)"
proof (induction a S key h j arbitrary: ys rule: insertion_while_st.induct)
  case (1 a S key h j)
  note run = "1.prems"(1)[unfolded insertion_while_st.simps[of a S key h j]]
  show ?case
  proof (cases "j \<ge> 0 \<and> getitem (h ! a) j > key")
    case False
    with run "1.prems"(2) show ?thesis by auto
  next
    case True
    define h1 where "h1 = store_setitem h a (j + 1) (getitem (h ! a) j)"
    define y1 where "y1 = yield_state h a [(j, COMPARE), (j + 1, COMPARE)] S
                    (''Comparing key with index '' @ str j)"
    define y2 where "y2 = yield_state h1 a [(j, SWAP), (j + 1, SWAP)] S
                    (''Shifting value at index '' @ str j @ '' to index '' @ str (j + 1))"
    obtain zs h2 j2 where r: "insertion_while_st a S key h1 (j - 1) = (zs, h2, j2)"
      by (metis prod.exhaust)
    from run True r have eq: "ys = y1 # y2 # zs" "h2 = h'" "j2 = j'"
      by (auto simp: Let_def h1_def y1_def y2_def)
    have o1: "only_at a h0 h1" unfolding h1_def using "1.prems"(2) by (rule only_at_setitem)
    from "1.IH"[OF True y1_def h1_def y2_def r[unfolded eq(2,3)] o1]
    have "only_at a h0 h' \<and> (\<forall>y\<in>set zs. own a h0 y)" .
    with "1.prems"(2) o1 show ?thesis unfolding eq(1) by (simp add: y1_def y2_def own_yield)
  qed
qed

lemma insertion_body_frame:
  assumes "insertion_body_st a i (h, S) = (ys, (h', S'))" "only_at a h0 h"
  shows "only_at a h0 h' \<and> (\<forall>y\<in>set ys. own a h0 y)"
proof -
  obtain zs h1 j1 where w: "insertion_while_st a S (getitem (h ! a) i) h (i - 1) = (zs, h1, j1)"
    by (metis prod.exhaust)
  from insertion_while_frame[OF w assms(2)]
  have w': "only_at a h0 h1" "\<forall>y\<in>set zs. own a h0 y" by simp_all
  define h2 where "h2 = store_setitem h1 a (j1 + 1) (getitem (h ! a) i)"
  from assms(1) w have eq: "h' = h2"
    "ys = yield_state h a [(i, PIVOT)] S (''Selecting key at index '' @ str i) # zs @
       [yield_state h2 a [(j1 + 1, SWAP)] (S \<union> set (py_range 0 (i + 1)))
          (''Inserted key at index '' @ str (j1 + 1))]"
    by (auto simp: insertion_body_st_def Let_def h2_def)
  have "only_at a h0 h2" unfolding h2_def using w'(1) by (rule only_at_setitem)
  with w' assms(2) show ?thesis unfolding eq by (simp add: own_yield)
qed

lemma insertion_sort_frame:
  assumes "insertion_sort_st h d = (ys, hf)" "d < length h"
  shows "only_at (length h) (h @ [h ! d]) hf \<and> (\<forall>y\<in>set ys. own (length h) (h @ [h ! d]) y)"
proof -
  define h0 where "h0 = h @ [h ! d]"
  define a where "a = length h"
  have a0: "only_at a h0 h0" by (simp add: only_at_refl a_def h0_def)
  obtain zs h1 S1 where
    f: "for_range 1 (len (h0 ! a)) (insertion_body_st a) (h0, {}) = (zs, (h1, S1))"
    by (metis prod.exhaust)
  have r: "only_at a h0 (fst (h1, S1)) \<and> (\<forall>y\<in>set zs. own a h0 y)"
  proof (rule for_range_rule[OF f, where I="\<lambda>i st. only_at a h0 (fst st)"])
    show "only_at a h0 (fst (h0, {}))" using a0 by simp
  next
    fix k s ws s'
    assume h: "only_at a h0 (fst s)" "insertion_body_st a k s = (ws, s')"
    obtain hh S where s: "s = (hh, S)" by (cases s)
    obtain hh' S' where s': "s' = (hh', S')" by (cases s')
    from insertion_body_frame[of a k hh S ws hh' S' h0] h s s'
    show "only_at a h0 (fst s') \<and> (\<forall>y\<in>set ws. own a h0 y)" by simp
  qed
  from assms(1) f have "hf = h1"
    "ys = zs @ [yield_state h1 a [] (set (py_range 0 (len (h1 ! a)))) ''Insertion sort complete'']"
    by (auto simp: insertion_sort_st_def list_copy_def Let_def h0_def a_def)
  with r show ?thesis by (auto simp: own_yield h0_def a_def)
qed

lemma selection_scan_frame:
  assumes "selection_scan_st a h S i j m = (ys, m')" "only_at a h0 h"
  shows "\<forall>y\<in>set ys. own a h0 y"
  using assms
  by (auto simp: selection_scan_st_def Let_def own_yield split: if_splits)

lemma selection_pass_frame:
  assumes "selection_pass_st a n i (h, S) = (ys, (h', S'))" "only_at a h0 h"
  shows "only_at a h0 h' \<and> (\<forall>y\<in>set ys. own a h0 y)"
proof -
  obtain zs m where f: "for_range (i + 1) n (selection_scan_st a h S i) i = (zs, m)"
    by (metis prod.exhaust)
  have "True \<and> (\<forall>y\<in>set zs. own a h0 y)"
    by (rule for_range_rule[OF f, where I="\<lambda>j m. True"])
       (use assms(2) selection_scan_frame in auto)
  then have inner: "\<forall>y\<in>set zs. own a h0 y" by simp
  define h1 where "h1 = store_swap h a i m"
  from assms(1) f have eq: "h' = h1"
    "ys = zs @ [yield_state h1 a [(i, SORTED), (m, SWAP)] (insert i S)
                        (''Swapped minimum into position '' @ str i)]"
    by (auto simp: selection_pass_st_def Let_def h1_def)
  have "only_at a h0 h1" unfolding h1_def using assms(2) by (rule only_at_swap)
  with inner show ?thesis unfolding eq by (simp add: own_yield)
qed

lemma selection_sort_frame:
  assumes "selection_sort_st h d = (ys, hf)" "d < length h"
  shows "only_at (length h) (h @ [h ! d]) hf \<and> (\<forall>y\<in>set ys. own (length h) (h @ [h ! d]) y)"
proof -
  define h0 where "h0 = h @ [h ! d]"
  define a where "a = length h"
  define n where "n = len (h0 ! a)"
  have a0: "only_at a h0 h0" by (simp add: only_at_refl a_def h0_def)
  obtain zs h1 S1 where f: "for_range 0 n (selection_pass_st a n) (h0, {}) = (zs, (h1, S1))"
    by (metis prod.exhaust)
  have r: "only_at a h0 (fst (h1, S1)) \<and> (\<forall>y\<in>set zs. own a h0 y)"
  proof (rule for_range_rule[OF f, where I="\<lambda>i st. only_at a h0 (fst st)"])
    show "only_at a h0 (fst (h0, {}))" using a0 by simp
  next
    fix k s ws s'
    assume h: "only_at a h0 (fst s)" "selection_pass_st a n k s = (ws, s')"
    obtain hh S where s: "s = (hh, S)" by (cases s)
    obtain hh' S' where s': "s' = (hh', S')" by (cases s')
    from selection_pass_frame[of a n k hh S ws hh' S' h0] h s s'
    show "only_at a h0 (fst s') \<and> (\<forall>y\<in>set ws. own a h0 y)" by simp
  qed
  from assms(1) f have "hf = h1"
    "ys = zs @ [yield_state h1 a [] (set (py_range 0 n)) ''Selection sort complete'']"
    by (auto simp: selection_sort_st_def list_copy_def Let_def h0_def a_def n_def)
  with r show ?thesis by (auto simp: own_yield h0_def a_def)
qed

lemma partition_body_frame:
  assumes "partition_body_st a S high pivot j (h, i) = (ys, (h', i'))" "only_at a h0 h"
  shows "only_at a h0 h' \<and> (\<forall>y\<in>set ys. own a h0 y)"
  using assms
  by (auto simp: partition_body_st_def Let_def own_yield only_at_swap split: if_splits)

lemma partition_frame:
  assumes "lomuto_partition_st a h low high S = (ys, h2, p, S1)" "only_at a h0 h"
  shows "only_at a h0 h2 \<and> (\<forall>y\<in>set ys. own a h0 y)"
proof -
  obtain zs h1 i1 where
    f: "for_range low high (partition_body_st a S high (getitem (h ! a) high)) (h, low - 1) =
          (zs, (h1, i1))"
    by (metis prod.exhaust)
  have inner: "only_at a h0 (fst (h1, i1)) \<and> (\<forall>y\<in>set zs. own a h0 y)"
  proof (rule for_range_rule[OF f, where I="\<lambda>j st. only_at a h0 (fst st)"])
    show "only_at a h0 (fst (h, low - 1))" using assms(2) by simp
  next
    fix k s ws s'
    assume h: "only_at a h0 (fst s)"
      "partition_body_st a S high (getitem (h ! a) high) k s = (ws, s')"
    obtain hh i where s: "s = (hh, i)" by (cases s)
    obtain hh' i' where s': "s' = (hh', i')" by (cases s')
    from partition_body_frame[of a S high "getitem (h ! a) high" k hh i ws hh' i' h0] h s s'
    show "only_at a h0 (fst s') \<and> (\<forall>y\<in>set ws. own a h0 y)" by simp
  qed
  define h3 where "h3 = store_swap h1 a (i1 + 1) high"
  from assms(1) f have eq: "h2 = h3"
    "ys = yield_state h a [(high, PIVOT)] S (''Pivot chosen at index '' @ str high) # zs @
      [yield_state h3 a [(i1 + 1, SORTED)] (insert (i1 + 1) S)
         (''Pivot settled at index '' @ str (i1 + 1))]"
    by (auto simp: lomuto_partition_st_def Let_def h3_def)
  have "only_at a h0 h3" unfolding h3_def using inner by (intro only_at_swap) simp
  with inner assms(2) show ?thesis unfolding eq by (simp add: own_yield)
qed

lemma priv_quick_sort_frame:
  "priv_quick_sort_st a h low high S = (ys, h', S') \<Longrightarrow> only_at a h0 h \<Longrightarrow>
   only_at a h0 h' \<and> (\<forall>y\<in>set ys. own a h0 y)"
proof (induction a h low high S arbitrary: ys h' S' rule: priv_quick_sort_st.induct)
  case (1 a h low high S)
  note run = "1.prems"(1)[unfolded priv_quick_sort_st.simps[of a h low high S]]
  show ?case
  proof (cases "low \<ge> high")
    case True
    with run "1.prems"(2) show ?thesis
      by (auto simp: Let_def own_yield split: if_splits)
  next
    case False
    obtain zs h2 p S1 where pt: "lomuto_partition_st a h low high S = (zs, h2, p, S1)"
      by (metis prod.exhaust)
    obtain ls h3 S2 where l: "priv_quick_sort_st a h2 low (p - 1) S1 = (ls, h3, S2)"
      by (metis prod.exhaust)
    obtain rs h4 S3 where r: "priv_quick_sort_st a h3 (p + 1) high S2 = (rs, h4, S3)"
      by (metis prod.exhaust)
    from run False pt l r have eq: "ys = zs @ ls @ rs" "h' = h4"
      by auto
    from partition_frame[OF pt "1.prems"(2)]
    have p1: "only_at a h0 h2" "\<forall>y\<in>set zs. own a h0 y" by simp_all
    from "1.IH"(1)[OF False pt[symmetric] refl refl l p1(1)]
    have p2: "only_at a h0 h3" "\<forall>y\<in>set ls. own a h0 y" by simp_all
    from "1.IH"(2)[OF False pt[symmetric] refl refl l[symmetric] refl r p2(1)]
    have p3: "only_at a h0 h4" "\<forall>y\<in>set rs. own a h0 y" by simp_all
    from p1 p2 p3 show ?thesis unfolding eq by auto
  qed
qed

lemma quick_sort_frame:
  assumes "quick_sort_st h d = (ys, hf)" "d < length h"
  shows "only_at (length h) (h @ [h ! d]) hf \<and> (\<forall>y\<in>set ys. own (length h) (h @ [h ! d]) y)"
proof -
  define h0 where "h0 = h @ [h ! d]"
  define a where "a = length h"
  have a0: "only_at a h0 h0" by (simp add: only_at_refl a_def h0_def)
  obtain zs h1 S1 where f: "priv_quick_sort_st a h0 0 (len (h0 ! a) - 1) {} = (zs, h1, S1)"
    by (metis prod.exhaust)
  from priv_quick_sort_frame[OF f a0]
  have r: "only_at a h0 h1" "\<forall>y\<in>set zs. own a h0 y" by simp_all
  from assms(1) f have "hf = h1"
    "ys = zs @ [yield_state h1 a [] (set (py_range 0 (len (h1 ! a)))) ''Quick sort complete'']"
    by (auto simp: quick_sort_st_def list_copy_def Let_def h0_def a_def)
  with r show ?thesis by (auto simp: own_yield h0_def a_def)
qed

lemma merge_while_frame:
  "merge_while_st left right start mid e a S (h, i, j, k) = (ys, (h', i', j', k')) \<Longrightarrow>
   only_at a h0 h \<Longrightarrow> only_at a h0 h' \<and> (\<forall>y\<in>set ys. own a h0 y)"
proof (induction left right start mid e a S "(h, i, j, k)"
    arbitrary: h i j k ys rule: merge_while_st.induct)
  case (1 left right start mid e a S h i j k)
  note run = "1.prems"(1)[unfolded merge_while_st.simps[of left right start mid e a S h i j k]]
  show ?case
  proof (cases "i < len left \<and> j < len right")
    case False
    with run "1.prems"(2) show ?thesis by auto
  next
    case True
    define y1 where "y1 = yield_state h a
                    [(k, COMPARE), (start + i, COMPARE), (mid + 1 + j, COMPARE)] S
                    (''Merging indices '' @ str start @ '' to '' @ str e)"
    define st0 where "st0 = (if getitem left i \<le> getitem right j
                then (store_setitem h a k (getitem left i), i + 1, j)
                else (store_setitem h a k (getitem right j), i, j + 1))"
    obtain h1 i1 j1 where st1: "st0 = (h1, i1, j1)" by (metis prod.exhaust)
    define y2 where "y2 = yield_state h1 a [(k, SWAP)] S (''Placed value at index '' @ str k)"
    obtain zs fin where
      r: "merge_while_st left right start mid e a S (h1, i1, j1, k + 1) = (zs, fin)"
      by (metis prod.exhaust)
    from run True st1 r have eq: "ys = y1 # y2 # zs" "fin = (h', i', j', k')"
      by (auto simp: Let_def y1_def y2_def st0_def)
    from st1 "1.prems"(2) have o1: "only_at a h0 h1"
      by (auto simp: st0_def only_at_setitem split: if_splits)
    from "1.hyps"[OF True y1_def st0_def st1[symmetric] refl y2_def r[unfolded eq(2)] o1]
    have "only_at a h0 h' \<and> (\<forall>y\<in>set zs. own a h0 y)" .
    with "1.prems"(2) o1 show ?thesis unfolding eq(1) by (simp add: y1_def y2_def own_yield)
  qed
qed

lemma merge_left_frame:
  "merge_left_st left a S (h, i, k) = (ys, (h', i', k')) \<Longrightarrow>
   only_at a h0 h \<Longrightarrow> only_at a h0 h' \<and> (\<forall>y\<in>set ys. own a h0 y)"
proof (induction left a S "(h, i, k)" arbitrary: h i k ys rule: merge_left_st.induct)
  case (1 left a S h i k)
  note run = "1.prems"(1)[unfolded merge_left_st.simps[of left a S h i k]]
  show ?case
  proof (cases "i < len left")
    case False
    with run "1.prems"(2) show ?thesis by auto
  next
    case True
    define h1 where "h1 = store_setitem h a k (getitem left i)"
    obtain zs fin where r: "merge_left_st left a S (h1, i + 1, k + 1) = (zs, fin)"
      by (metis prod.exhaust)
    from run True r have eq: "ys = yield_state h1 a [(k, SWAP)] S
                   (''Copying remaining left element to index '' @ str k) # zs"
      "fin = (h', i', k')"
      by (auto simp: Let_def h1_def)
    have o1: "only_at a h0 h1" unfolding h1_def using "1.prems"(2) by (rule only_at_setitem)
    from "1.hyps"[OF True h1_def refl r[unfolded eq(2)] o1] o1
    show ?thesis unfolding eq(1) by (simp add: own_yield)
  qed
qed

lemma merge_right_frame:
  "merge_right_st right a S (h, j, k) = (ys, (h', j', k')) \<Longrightarrow>
   only_at a h0 h \<Longrightarrow> only_at a h0 h' \<and> (\<forall>y\<in>set ys. own a h0 y)"
proof (induction right a S "(h, j, k)" arbitrary: h j k ys rule: merge_right_st.induct)
  case (1 right a S h j k)
  note run = "1.prems"(1)[unfolded merge_right_st.simps[of right a S h j k]]
  show ?case
  proof (cases "j < len right")
    case False
    with run "1.prems"(2) show ?thesis by auto
  next
    case True
    define h1 where "h1 = store_setitem h a k (getitem right j)"
    obtain zs fin where r: "merge_right_st right a S (h1, j + 1, k + 1) = (zs, fin)"
      by (metis prod.exhaust)
    from run True r have eq: "ys = yield_state h1 a [(k, SWAP)] S
                   (''Copying remaining right element to index '' @ str k) # zs"
      "fin = (h', j', k')"
      by (auto simp: Let_def h1_def)
    have o1: "only_at a h0 h1" unfolding h1_def using "1.prems"(2) by (rule only_at_setitem)
    from "1.hyps"[OF True h1_def refl r[unfolded eq(2)] o1] o1
    show ?thesis unfolding eq(1) by (simp add: own_yield)
  qed
qed

lemma priv_merge_frame:
  assumes "priv_merge_st a h start mid e S = (ys, h', S')" "only_at a h0 h"
  shows "only_at a h0 h' \<and> (\<forall>y\<in>set ys. own a h0 y)"
proof -
  define left where "left = slice (h ! a) start (mid + 1)"
  define right where "right = slice (h ! a) (mid + 1) (e + 1)"
  obtain ys1 h1 i1 j1 k1 where
    w: "merge_while_st left right start mid e a S (h, 0, 0, start) = (ys1, (h1, i1, j1, k1))"
    by (metis prod.exhaust)
  obtain ys2 h2 i2 k2 where l: "merge_left_st left a S (h1, i1, k1) = (ys2, (h2, i2, k2))"
    by (metis prod.exhaust)
  obtain ys3 h3 j3 k3 where r: "merge_right_st right a S (h2, j1, k2) = (ys3, (h3, j3, k3))"
    by (metis prod.exhaust)
  from assms(1) w l r have eq: "h' = h3"
    "ys = ys1 @ ys2 @ ys3 @
      [yield_state h3 a (map (\<lambda>idx. (idx, SORTED)) (py_range start (e + 1)))
         (S \<union> set (py_range start (e + 1)))
         (''Segment '' @ str start @ '':'' @ str e @ '' sorted'')]"
    by (auto simp: priv_merge_st_def Let_def left_def right_def)
  from merge_while_frame[OF w assms(2)]
  have p1: "only_at a h0 h1" "\<forall>y\<in>set ys1. own a h0 y" by simp_all
  from merge_left_frame[OF l p1(1)]
  have p2: "only_at a h0 h2" "\<forall>y\<in>set ys2. own a h0 y" by simp_all
  from merge_right_frame[OF r p2(1)]
  have p3: "only_at a h0 h3" "\<forall>y\<in>set ys3. own a h0 y" by simp_all
  from p1 p2 p3 show ?thesis unfolding eq by (auto simp: own_yield)
qed

lemma priv_merge_sort_frame:
  "priv_merge_sort_st a h start e S = (ys, h', S') \<Longrightarrow> only_at a h0 h \<Longrightarrow>
   only_at a h0 h' \<and> (\<forall>y\<in>set ys. own a h0 y)"
proof (induction a h start e S arbitrary: ys h' S' rule: priv_merge_sort_st.induct)
  case (1 a h start e S)
  note run = "1.prems"(1)[unfolded priv_merge_sort_st.simps[of a h start e S]]
  show ?case
  proof (cases "start \<ge> e")
    case True
    with run "1.prems"(2) show ?thesis by (auto simp: Let_def own_yield)
  next
    case False
    define mid where "mid = (start + e) div 2"
    obtain ys1 h1 S1 where l: "priv_merge_sort_st a h start mid S = (ys1, h1, S1)"
      by (metis prod.exhaust)
    obtain ys2 h2 S2 where r: "priv_merge_sort_st a h1 (mid + 1) e S1 = (ys2, h2, S2)"
      by (metis prod.exhaust)
    obtain ys3 h3 S3 where m: "priv_merge_st a h2 start mid e S2 = (ys3, h3, S3)"
      by (metis prod.exhaust)
    from run False l r m have eq: "ys = ys1 @ ys2 @ ys3" "h' = h3"
      by (auto simp: Let_def mid_def)
    from "1.IH"(1)[OF False mid_def l "1.prems"(2)]
    have p1: "only_at a h0 h1" "\<forall>y\<in>set ys1. own a h0 y" by simp_all
    from "1.IH"(2)[OF False mid_def l[symmetric] refl r p1(1)]
    have p2: "only_at a h0 h2" "\<forall>y\<in>set ys2. own a h0 y" by simp_all
    from priv_merge_frame[OF m p2(1)]
    have p3: "only_at a h0 h3" "\<forall>y\<in>set ys3. own a h0 y" by simp_all
    from p1 p2 p3 show ?thesis unfolding eq by auto
  qed
qed

lemma merge_sort_frame:
  assumes "merge_sort_st h d = (ys, hf)" "d < length h"
  shows "only_at (length h) (h @ [h ! d]) hf \<and> (\<forall>y\<in>set ys. own (length h) (h @ [h ! d]) y)"
proof -
  define h0 where "h0 = h @ [h ! d]"
  define a where "a = length h"
  have a0: "only_at a h0 h0" by (simp add: only_at_refl a_def h0_def)
  have run: "(case (if h0 ! a \<noteq> [] then priv_merge_sort_st a h0 0 (len (h0 ! a) - 1) {}
               else ([], h0, {})) of
           (ys, h1, S1) \<Rightarrow>
             (ys @ [yield_state h1 a [] (set (py_range 0 (len (h1 ! a))))
                      ''Merge sort complete''], h1)) = (ys, hf)"
    using assms(1) by (simp only: merge_sort_st_def list_copy_def h0_def a_def prod.case)
  obtain zs h1 S1 where
    f: "(if h0 ! a \<noteq> [] then priv_merge_sort_st a h0 0 (len (h0 ! a) - 1) {} else ([], h0, {})) =
          (zs, h1, S1)"
    by (metis prod.exhaust)
  have r: "only_at a h0 h1 \<and> (\<forall>y\<in>set zs. own a h0 y)"
  proof (cases "h0 ! a \<noteq> []")
    case True
    with f have "priv_merge_sort_st a h0 0 (len (h0 ! a) - 1) {} = (zs, h1, S1)" by simp
    from priv_merge_sort_frame[OF this a0] show ?thesis .
  next
    case False
    with f a0 show ?thesis by auto
  qed
  from run[unfolded f] have "hf = h1"
    "ys = zs @ [yield_state h1 a [] (set (py_range 0 (len (h1 ! a)))) ''Merge sort complete'']"
    by auto
  with r show ?thesis by (auto simp: own_yield h0_def a_def)
qed

lemma engines_frame:
  assumes "e \<in> set engines_st" "d < length h"
  shows "only_at (length h) (h @ [h ! d]) (snd (e h d)) \<and>
         (\<forall>y\<in>set (fst (e h d)). own (length h) (h @ [h ! d]) y)"
proof -
  obtain ys hf where r: "e h d = (ys, hf)" by (metis prod.exhaust)
  from assms(1) consider "e = bubble_sort_st" | "e = insertion_sort_st"
    | "e = selection_sort_st" | "e = quick_sort_st" | "e = merge_sort_st"
    by (auto simp: engines_st_def)
  then have "only_at (length h) (h @ [h ! d]) hf \<and>
         (\<forall>y\<in>set ys. own (length h) (h @ [h ! d]) y)"
  proof cases
    case 1 with r bubble_sort_frame[OF _ assms(2)] show ?thesis by simp
  next
    case 2 with r insertion_sort_frame[OF _ assms(2)] show ?thesis by simp
  next
    case 3 with r selection_sort_frame[OF _ assms(2)] show ?thesis by simp
  next
    case 4 with r quick_sort_frame[OF _ assms(2)] show ?thesis by simp
  next
    case 5 with r merge_sort_frame[OF _ assms(2)] show ?thesis by simp
  qed
  with r show ?thesis by simp
qed

lemma consume_cases:
  "consume e k h d = h \<or> consume e k h d = snd (e h d) \<or>
   (\<exists>y\<in>set (fst (e h d)). consume e k h d = snd y)"
proof (cases "e h d")
  case (Pair ys hf)
  show ?thesis
  proof (cases "k = 0 \<or> \<not> k \<le> length ys")
    case True
    with Pair show ?thesis by (auto simp: consume_def)
  next
    case False
    then have "k - 1 < length ys" by auto
    then have "ys ! (k - 1) \<in> set ys" by simp
    with False Pair show ?thesis by (auto simp: consume_def)
  qed
qed

subsection \<open>The snapshots are those of the engine on the contents of the input\<close>

text \<open>
  The run in the store yields the snapshots of the engine as a function of the array:
  the object at the address of \<^verbatim>\<open>arr\<close> goes through the values of the working array.
\<close>

lemma for_range_sim:
  assumes "for_range j stop body1 s = (ys, s')" "I s"
    and "\<And>k s ys s'. j \<le> k \<Longrightarrow> k < stop \<Longrightarrow> I s \<Longrightarrow> body1 k s = (ys, s') \<Longrightarrow>
           body2 k (f s) = (map fst ys, f s') \<and> I s'"
  shows "for_range j stop body2 (f s) = (map fst ys, f s') \<and> I s'"
  using assms
proof (induction j stop body1 s arbitrary: ys s' rule: for_range.induct)
  case (1 j stop body st)
  show ?case
  proof (cases "j < stop")
    case False
    with "1.prems"(1) have "ys = []" "s' = st"
      by (simp_all add: for_range.simps)
    with False "1.prems"(2) show ?thesis by (simp add: for_range.simps)
  next
    case True
    obtain zs s1 where b: "body j st = (zs, s1)" by (cases "body j st")
    obtain ws s2 where r: "for_range (j + 1) stop body s1 = (ws, s2)"
      by (cases "for_range (j + 1) stop body s1")
    from "1.prems"(1) True b r have eq: "ys = zs @ ws" "s' = s2"
      by (simp_all add: for_range.simps)
    from "1.prems"(3)[OF _ True "1.prems"(2) b]
    have s: "body2 j (f st) = (map fst zs, f s1)" "I s1"
      by simp_all
    have t: "for_range (j + 1) stop body2 (f s1) = (map fst ws, f s2) \<and> I s2"
    proof (rule "1.IH"[OF True b[symmetric] r s(2)])
      fix k s ys' s'
      assume "j + 1 \<le> k" "k < stop" "I s" "body k s = (ys', s')"
      then show "body2 k (f s) = (map fst ys', f s') \<and> I s'"
        using "1.prems"(3)[of k s ys' s'] by simp
    qed
    with True s eq show ?thesis by (simp add: for_range.simps[of j stop body2])
  qed
qed

lemma store_swap_nth [simp]:
  "a < length h \<Longrightarrow> store_swap h a i j ! a = swap (h ! a) i j"
  by (simp add: store_swap_def)

lemma store_setitem_nth [simp]:
  "a < length h \<Longrightarrow> store_setitem h a i v ! a = setitem (h ! a) i v"
  by (simp add: store_setitem_def)

lemma length_store_swap [simp]: "length (store_swap h a i j) = length h"
  by (simp add: store_swap_def)

lemma length_store_setitem [simp]: "length (store_setitem h a i v) = length h"
  by (simp add: store_setitem_def)

lemma fst_yield_state [simp]: "fst (yield_state h a hls S d) = priv_state (h ! a) hls S d"
  by (simp add: yield_state_def)

lemma bubble_body_sim:
  assumes "bubble_body_st a S j h = (ys, h')" "a < length h"
  shows "bubble_body S j (h ! a) = (map fst ys, h' ! a) \<and> a < length h'"
  using assms
  by (auto simp: bubble_body_st_def bubble_body_def Let_def split: if_splits)

lemma bubble_pass_sim:
  assumes "bubble_pass_st a n i (h, S) = (ys, (h', S'))" "a < length h"
  shows "bubble_pass n i (h ! a, S) = (map fst ys, (h' ! a, S')) \<and> a < length h'"
proof -
  obtain zs h1 where f: "for_range 0 (n - i - 1) (bubble_body_st a S) h = (zs, h1)"
    by (metis prod.exhaust)
  have inner: "for_range 0 (n - i - 1) (bubble_body S) (h ! a) = (map fst zs, h1 ! a) \<and>
               a < length h1"
    by (rule for_range_sim[OF f, where I="\<lambda>h. a < length h" and f="\<lambda>h. h ! a"])
       (use assms(2) bubble_body_sim in auto)
  from assms(1) f have "h' = h1" "S' = insert (n - i - 1) S"
    "ys = zs @ [yield_state h1 a [(n - i - 1, SORTED)] (insert (n - i - 1) S)
                  (''Position '' @ str (n - i - 1) @ '' is sorted'')]"
    by (auto simp: bubble_pass_st_def Let_def)
  with inner show ?thesis by (simp add: bubble_pass_def Let_def)
qed

lemma bubble_sort_sim:
  assumes "d < length h"
  shows "map fst (fst (bubble_sort_st h d)) = bubble_sort (h ! d)"
proof -
  define h0 where "h0 = h @ [h ! d]"
  define a where "a = length h"
  define n where "n = len (h ! d)"
  have a0: "a < length h0" "h0 ! a = h ! d" by (simp_all add: a_def h0_def)
  obtain zs h1 S1 where f: "for_range 0 n (bubble_pass_st a n) (h0, {}) = (zs, (h1, S1))"
    by (metis prod.exhaust)
  define ab where "ab = (\<lambda>st :: store \<times> int set. (fst st ! a, snd st))"
  have r: "for_range 0 n (bubble_pass n) (ab (h0, {})) = (map fst zs, ab (h1, S1)) \<and>
           a < length (fst (h1, S1))"
  proof (rule for_range_sim[OF f, where I="\<lambda>st. a < length (fst st)" and f=ab])
    show "a < length (fst (h0, {} :: int set))" using a0 by simp
  next
    fix k s ws s'
    assume h: "a < length (fst s)" "bubble_pass_st a n k s = (ws, s')"
    obtain hh S where s: "s = (hh, S)" by (cases s)
    obtain hh' S' where s': "s' = (hh', S')" by (cases s')
    from bubble_pass_sim[of a n k hh S ws hh' S'] h s s'
    show "bubble_pass n k (ab s) = (map fst ws, ab s') \<and> a < length (fst s')"
      by (simp add: ab_def)
  qed
  have "bubble_sort_st h d =
          (zs @ [yield_state h1 a [] (set (py_range 0 n)) ''Bubble sort complete''], h1)"
    using f a0 by (simp add: bubble_sort_st_def list_copy_def Let_def h0_def a_def n_def)
  with r a0 show ?thesis by (simp add: bubble_sort_def Let_def n_def ab_def)
qed

lemma insertion_while_sim:
  "insertion_while_st a S key h j = (ys, h', j') \<Longrightarrow> a < length h \<Longrightarrow>
   insertion_while S key (h ! a) j = (map fst ys, h' ! a, j') \<and> a < length h'"
proof (induction a S key h j arbitrary: ys rule: insertion_while_st.induct)
  case (1 a S key h j)
  note run = "1.prems"(1)[unfolded insertion_while_st.simps[of a S key h j]]
  show ?case
  proof (cases "j \<ge> 0 \<and> getitem (h ! a) j > key")
    case False
    with run have e: "ys = []" "h' = h" "j' = j" by auto
    from False have "insertion_while S key (h ! a) j = ([], h ! a, j)"
      by (subst insertion_while.simps) auto
    with e "1.prems"(2) show ?thesis by simp
  next
    case True
    define h1 where "h1 = store_setitem h a (j + 1) (getitem (h ! a) j)"
    define y1 where "y1 = yield_state h a [(j, COMPARE), (j + 1, COMPARE)] S
                    (''Comparing key with index '' @ str j)"
    define y2 where "y2 = yield_state h1 a [(j, SWAP), (j + 1, SWAP)] S
                    (''Shifting value at index '' @ str j @ '' to index '' @ str (j + 1))"
    obtain zs h2 j2 where r: "insertion_while_st a S key h1 (j - 1) = (zs, h2, j2)"
      by (metis prod.exhaust)
    from run True r have eq: "ys = y1 # y2 # zs" "h2 = h'" "j2 = j'"
      by (auto simp: Let_def h1_def y1_def y2_def)
    have l1: "a < length h1" "h1 ! a = setitem (h ! a) (j + 1) (getitem (h ! a) j)"
      using "1.prems"(2) by (simp_all add: h1_def)
    from "1.IH"[OF True y1_def h1_def y2_def r[unfolded eq(2,3)] l1(1)]
    have ih: "insertion_while S key (h1 ! a) (j - 1) = (map fst zs, h' ! a, j')" "a < length h'"
      by simp_all
    have "insertion_while S key (h ! a) j =
            (fst y1 # fst y2 # map fst zs, h' ! a, j')"
      using True ih(1) l1(2)
      by (subst insertion_while.simps) (simp add: Let_def y1_def y2_def)
    with ih(2) show ?thesis unfolding eq(1) by simp
  qed
qed

lemma insertion_body_sim:
  assumes "insertion_body_st a i (h, S) = (ys, (h', S'))" "a < length h"
  shows "insertion_body i (h ! a, S) = (map fst ys, (h' ! a, S')) \<and> a < length h'"
proof -
  obtain zs h1 j1 where w: "insertion_while_st a S (getitem (h ! a) i) h (i - 1) = (zs, h1, j1)"
    by (metis prod.exhaust)
  from insertion_while_sim[OF w assms(2)]
  have w': "insertion_while S (getitem (h ! a) i) (h ! a) (i - 1) = (map fst zs, h1 ! a, j1)"
    "a < length h1" by simp_all
  define h2 where "h2 = store_setitem h1 a (j1 + 1) (getitem (h ! a) i)"
  from assms(1) w have eq: "h' = h2" "S' = S \<union> set (py_range 0 (i + 1))"
    "ys = yield_state h a [(i, PIVOT)] S (''Selecting key at index '' @ str i) # zs @
       [yield_state h2 a [(j1 + 1, SWAP)] (S \<union> set (py_range 0 (i + 1)))
          (''Inserted key at index '' @ str (j1 + 1))]"
    by (auto simp: insertion_body_st_def Let_def h2_def)
  from w' show ?thesis unfolding eq by (simp add: insertion_body_def Let_def h2_def)
qed

lemma insertion_sort_sim:
  assumes "d < length h"
  shows "map fst (fst (insertion_sort_st h d)) = insertion_sort (h ! d)"
proof -
  define h0 where "h0 = h @ [h ! d]"
  define a where "a = length h"
  have a0: "a < length h0" "h0 ! a = h ! d" by (simp_all add: a_def h0_def)
  obtain zs h1 S1 where
    f: "for_range 1 (len (h ! d)) (insertion_body_st a) (h0, {}) = (zs, (h1, S1))"
    by (metis prod.exhaust)
  define ab where "ab = (\<lambda>st :: store \<times> int set. (fst st ! a, snd st))"
  have r: "for_range 1 (len (h ! d)) insertion_body (ab (h0, {})) = (map fst zs, ab (h1, S1)) \<and>
           a < length (fst (h1, S1))"
  proof (rule for_range_sim[OF f, where I="\<lambda>st. a < length (fst st)" and f=ab])
    show "a < length (fst (h0, {} :: int set))" using a0 by simp
  next
    fix k s ws s'
    assume h: "a < length (fst s)" "insertion_body_st a k s = (ws, s')"
    obtain hh S where s: "s = (hh, S)" by (cases s)
    obtain hh' S' where s': "s' = (hh', S')" by (cases s')
    from insertion_body_sim[of a k hh S ws hh' S'] h s s'
    show "insertion_body k (ab s) = (map fst ws, ab s') \<and> a < length (fst s')"
      by (simp add: ab_def)
  qed
  have "insertion_sort_st h d =
          (zs @ [yield_state h1 a [] (set (py_range 0 (len (h1 ! a)))) ''Insertion sort complete''],
           h1)"
    using f a0 by (simp add: insertion_sort_st_def list_copy_def Let_def h0_def a_def)
  with r a0 show ?thesis by (simp add: insertion_sort_def Let_def ab_def)
qed

lemma selection_scan_sim:
  assumes "selection_scan_st a h S i j m = (ys, m')"
  shows "selection_scan (h ! a) S i j m = (map fst ys, m')"
  using assms
  by (auto simp: selection_scan_st_def selection_scan_def Let_def split: if_splits)

lemma selection_pass_sim:
  assumes "selection_pass_st a n i (h, S) = (ys, (h', S'))" "a < length h"
  shows "selection_pass n i (h ! a, S) = (map fst ys, (h' ! a, S')) \<and> a < length h'"
proof -
  obtain zs m where f: "for_range (i + 1) n (selection_scan_st a h S i) i = (zs, m)"
    by (metis prod.exhaust)
  have "for_range (i + 1) n (selection_scan (h ! a) S i) i = (map fst zs, m) \<and> True"
    by (rule for_range_sim[OF f, where I="\<lambda>m. True" and f="\<lambda>m. m"])
       (use selection_scan_sim in auto)
  then have inner: "for_range (i + 1) n (selection_scan (h ! a) S i) i = (map fst zs, m)"
    by simp
  from assms(1) f have "h' = store_swap h a i m" "S' = insert i S"
    "ys = zs @ [yield_state (store_swap h a i m) a [(i, SORTED), (m, SWAP)] (insert i S)
                        (''Swapped minimum into position '' @ str i)]"
    by (auto simp: selection_pass_st_def Let_def)
  with inner assms(2) show ?thesis by (simp add: selection_pass_def Let_def)
qed

lemma selection_sort_sim:
  assumes "d < length h"
  shows "map fst (fst (selection_sort_st h d)) = selection_sort (h ! d)"
proof -
  define h0 where "h0 = h @ [h ! d]"
  define a where "a = length h"
  define n where "n = len (h ! d)"
  have a0: "a < length h0" "h0 ! a = h ! d" by (simp_all add: a_def h0_def)
  obtain zs h1 S1 where f: "for_range 0 n (selection_pass_st a n) (h0, {}) = (zs, (h1, S1))"
    by (metis prod.exhaust)
  define ab where "ab = (\<lambda>st :: store \<times> int set. (fst st ! a, snd st))"
  have r: "for_range 0 n (selection_pass n) (ab (h0, {})) = (map fst zs, ab (h1, S1)) \<and>
           a < length (fst (h1, S1))"
  proof (rule for_range_sim[OF f, where I="\<lambda>st. a < length (fst st)" and f=ab])
    show "a < length (fst (h0, {} :: int set))" using a0 by simp
  next
    fix k s ws s'
    assume h: "a < length (fst s)" "selection_pass_st a n k s = (ws, s')"
    obtain hh S where s: "s = (hh, S)" by (cases s)
    obtain hh' S' where s': "s' = (hh', S')" by (cases s')
    from selection_pass_sim[of a n k hh S ws hh' S'] h s s'
    show "selection_pass n k (ab s) = (map fst ws, ab s') \<and> a < length (fst s')"
      by (simp add: ab_def)
  qed
  have "selection_sort_st h d =
          (zs @ [yield_state h1 a [] (set (py_range 0 n)) ''Selection sort complete''], h1)"
    using f a0 by (simp add: selection_sort_st_def list_copy_def Let_def h0_def a_def n_def)
  with r a0 show ?thesis by (simp add: selection_sort_def Let_def n_def ab_def)
qed

lemma partition_body_sim:
  assumes "partition_body_st a S high pivot j (h, i) = (ys, (h', i'))" "a < length h"
  shows "partition_body S high pivot j (h ! a, i) = (map fst ys, (h' ! a, i')) \<and> a < length h'"
  using assms
  by (auto simp: partition_body_st_def partition_body_def Let_def split: if_splits)

lemma partition_sim:
  assumes "lomuto_partition_st a h low high S = (ys, h2, p, S1)" "a < length h"
  shows "lomuto_partition (h ! a) low high S = (map fst ys, h2 ! a, p, S1) \<and> a < length h2"
proof -
  define pivot where "pivot = getitem (h ! a) high"
  obtain zs h1 i1 where
    f: "for_range low high (partition_body_st a S high pivot) (h, low - 1) = (zs, (h1, i1))"
    by (metis prod.exhaust)
  define ab where "ab = (\<lambda>st :: store \<times> int. (fst st ! a, snd st))"
  have inner: "for_range low high (partition_body S high pivot) (ab (h, low - 1)) =
                 (map fst zs, ab (h1, i1)) \<and> a < length (fst (h1, i1))"
  proof (rule for_range_sim[OF f, where I="\<lambda>st. a < length (fst st)" and f=ab])
    show "a < length (fst (h, low - 1))" using assms(2) by simp
  next
    fix k s ws s'
    assume h: "a < length (fst s)" "partition_body_st a S high pivot k s = (ws, s')"
    obtain hh i where s: "s = (hh, i)" by (cases s)
    obtain hh' i' where s': "s' = (hh', i')" by (cases s')
    from partition_body_sim[of a S high pivot k hh i ws hh' i'] h s s'
    show "partition_body S high pivot k (ab s) = (map fst ws, ab s') \<and> a < length (fst s')"
      by (simp add: ab_def)
  qed
  from assms(1) f have "h2 = store_swap h1 a (i1 + 1) high" "p = i1 + 1"
    "S1 = insert (i1 + 1) S"
    "ys = yield_state h a [(high, PIVOT)] S (''Pivot chosen at index '' @ str high) # zs @
      [yield_state (store_swap h1 a (i1 + 1) high) a [(i1 + 1, SORTED)] (insert (i1 + 1) S)
         (''Pivot settled at index '' @ str (i1 + 1))]"
    by (auto simp: lomuto_partition_st_def Let_def pivot_def)
  with inner show ?thesis by (simp add: lomuto_partition_def Let_def pivot_def ab_def)
qed

lemma priv_quick_sort_sim:
  "priv_quick_sort_st a h low high S = (ys, h', S') \<Longrightarrow> a < length h \<Longrightarrow>
   priv_quick_sort (h ! a) low high S = (map fst ys, h' ! a, S') \<and> a < length h'"
proof (induction a h low high S arbitrary: ys h' S' rule: priv_quick_sort_st.induct)
  case (1 a h low high S)
  note run = "1.prems"(1)[unfolded priv_quick_sort_st.simps[of a h low high S]]
  show ?case
  proof (cases "low \<ge> high")
    case True
    show ?thesis
    proof (cases "low = high")
      case eq: True
      with run have e: "ys = [yield_state h a [(low, SORTED)] (insert low S)
                                (''Index '' @ str low @ '' is sorted'')]" "h' = h"
        "S' = insert low S"
        by (auto simp: Let_def)
      from eq have "priv_quick_sort (h ! a) low high S =
          ([priv_state (h ! a) [(low, SORTED)] (insert low S)
              (''Index '' @ str low @ '' is sorted'')], h ! a, insert low S)"
        by (subst priv_quick_sort.simps) (simp add: Let_def)
      with e "1.prems"(2) show ?thesis by simp
    next
      case ne: False
      with True run have e: "ys = []" "h' = h" "S' = S" by auto
      from True ne have "priv_quick_sort (h ! a) low high S = ([], h ! a, S)"
        by (subst priv_quick_sort.simps) auto
      with e "1.prems"(2) show ?thesis by simp
    qed
  next
    case False
    obtain zs h2 p S1 where pt: "lomuto_partition_st a h low high S = (zs, h2, p, S1)"
      by (metis prod.exhaust)
    obtain ls h3 S2 where l: "priv_quick_sort_st a h2 low (p - 1) S1 = (ls, h3, S2)"
      by (metis prod.exhaust)
    obtain rs h4 S3 where r: "priv_quick_sort_st a h3 (p + 1) high S2 = (rs, h4, S3)"
      by (metis prod.exhaust)
    from run False pt l r have eq: "ys = zs @ ls @ rs" "h' = h4" "S' = S3"
      by auto
    from partition_sim[OF pt "1.prems"(2)]
    have p1: "lomuto_partition (h ! a) low high S = (map fst zs, h2 ! a, p, S1)" "a < length h2"
      by simp_all
    from "1.IH"(1)[OF False pt[symmetric] refl refl l p1(2)]
    have p2: "priv_quick_sort (h2 ! a) low (p - 1) S1 = (map fst ls, h3 ! a, S2)" "a < length h3"
      by simp_all
    from "1.IH"(2)[OF False pt[symmetric] refl refl l[symmetric] refl r p2(2)]
    have p3: "priv_quick_sort (h3 ! a) (p + 1) high S2 = (map fst rs, h4 ! a, S3)" "a < length h4"
      by simp_all
    have "priv_quick_sort (h ! a) low high S =
            (map fst zs @ map fst ls @ map fst rs, h4 ! a, S3)"
      using False p1(1) p2(1) p3(1) by (subst priv_quick_sort.simps) simp
    with p3(2) show ?thesis unfolding eq by simp
  qed
qed

lemma quick_sort_sim:
  assumes "d < length h"
  shows "map fst (fst (quick_sort_st h d)) = quick_sort (h ! d)"
proof -
  define h0 where "h0 = h @ [h ! d]"
  define a where "a = length h"
  have a0: "a < length h0" "h0 ! a = h ! d" by (simp_all add: a_def h0_def)
  obtain zs h1 S1 where f: "priv_quick_sort_st a h0 0 (len (h ! d) - 1) {} = (zs, h1, S1)"
    by (metis prod.exhaust)
  from priv_quick_sort_sim[OF f a0(1)] a0(2)
  have r: "priv_quick_sort (h ! d) 0 (len (h ! d) - 1) {} = (map fst zs, h1 ! a, S1)"
    by simp
  have "quick_sort_st h d =
          (zs @ [yield_state h1 a [] (set (py_range 0 (len (h1 ! a)))) ''Quick sort complete''], h1)"
    using f a0 by (simp add: quick_sort_st_def list_copy_def Let_def h0_def a_def)
  with r show ?thesis by (simp add: quick_sort_def Let_def)
qed

lemma merge_while_sim:
  "merge_while_st left right start mid e a S (h, i, j, k) = (ys, (h', i', j', k')) \<Longrightarrow>
   a < length h \<Longrightarrow>
   merge_while left right start mid e S (h ! a, i, j, k) = (map fst ys, (h' ! a, i', j', k')) \<and>
   a < length h'"
proof (induction left right start mid e a S "(h, i, j, k)"
    arbitrary: h i j k ys rule: merge_while_st.induct)
  case (1 left right start mid e a S h i j k)
  note run = "1.prems"(1)[unfolded merge_while_st.simps[of left right start mid e a S h i j k]]
  show ?case
  proof (cases "i < len left \<and> j < len right")
    case False
    with run have e: "ys = []" "h' = h" "i' = i" "j' = j" "k' = k" by auto
    from False have "merge_while left right start mid e S (h ! a, i, j, k) =
        ([], (h ! a, i, j, k))"
      by (subst merge_while.simps) auto
    with e "1.prems"(2) show ?thesis by simp
  next
    case True
    define y1 where "y1 = yield_state h a
                    [(k, COMPARE), (start + i, COMPARE), (mid + 1 + j, COMPARE)] S
                    (''Merging indices '' @ str start @ '' to '' @ str e)"
    define st0 where "st0 = (if getitem left i \<le> getitem right j
                then (store_setitem h a k (getitem left i), i + 1, j)
                else (store_setitem h a k (getitem right j), i, j + 1))"
    obtain h1 i1 j1 where st1: "st0 = (h1, i1, j1)" by (metis prod.exhaust)
    define y2 where "y2 = yield_state h1 a [(k, SWAP)] S (''Placed value at index '' @ str k)"
    obtain zs fin where
      r: "merge_while_st left right start mid e a S (h1, i1, j1, k + 1) = (zs, fin)"
      by (metis prod.exhaust)
    from run True st1 r have eq: "ys = y1 # y2 # zs" "fin = (h', i', j', k')"
      by (auto simp: Let_def y1_def y2_def st0_def)
    from st1 "1.prems"(2) have l1: "a < length h1"
      "(if getitem left i \<le> getitem right j
        then (setitem (h ! a) k (getitem left i), i + 1, j)
        else (setitem (h ! a) k (getitem right j), i, j + 1)) = (h1 ! a, i1, j1)"
      by (auto simp: st0_def split: if_splits)
    from "1.hyps"[OF True y1_def st0_def st1[symmetric] refl y2_def r[unfolded eq(2)] l1(1)]
    have ih: "merge_while left right start mid e S (h1 ! a, i1, j1, k + 1) =
                (map fst zs, h' ! a, i', j', k')" "a < length h'"
      by simp_all
    have "merge_while left right start mid e S (h ! a, i, j, k) =
            (fst y1 # fst y2 # map fst zs, (h' ! a, i', j', k'))"
      using True ih(1) l1(2)
      by (subst merge_while.simps) (simp add: Let_def y1_def y2_def)
    with ih(2) show ?thesis unfolding eq(1) by simp
  qed
qed

lemma merge_left_sim:
  "merge_left_st left a S (h, i, k) = (ys, (h', i', k')) \<Longrightarrow> a < length h \<Longrightarrow>
   merge_left left S (h ! a, i, k) = (map fst ys, (h' ! a, i', k')) \<and> a < length h'"
proof (induction left a S "(h, i, k)" arbitrary: h i k ys rule: merge_left_st.induct)
  case (1 left a S h i k)
  note run = "1.prems"(1)[unfolded merge_left_st.simps[of left a S h i k]]
  show ?case
  proof (cases "i < len left")
    case False
    with run have e: "ys = []" "h' = h" "i' = i" "k' = k" by auto
    from False have "merge_left left S (h ! a, i, k) = ([], (h ! a, i, k))"
      by (subst merge_left.simps) auto
    with e "1.prems"(2) show ?thesis by simp
  next
    case True
    define h1 where "h1 = store_setitem h a k (getitem left i)"
    define y where "y = yield_state h1 a [(k, SWAP)] S
                   (''Copying remaining left element to index '' @ str k)"
    obtain zs fin where r: "merge_left_st left a S (h1, i + 1, k + 1) = (zs, fin)"
      by (metis prod.exhaust)
    from run True r have eq: "ys = y # zs" "fin = (h', i', k')"
      by (auto simp: Let_def h1_def y_def)
    have l1: "a < length h1" "h1 ! a = setitem (h ! a) k (getitem left i)"
      using "1.prems"(2) by (simp_all add: h1_def)
    from "1.hyps"[OF True h1_def refl r[unfolded eq(2)] l1(1)]
    have ih: "merge_left left S (h1 ! a, i + 1, k + 1) = (map fst zs, h' ! a, i', k')"
      "a < length h'" by simp_all
    have "merge_left left S (h ! a, i, k) = (fst y # map fst zs, (h' ! a, i', k'))"
      using True ih(1) l1(2)
      by (subst merge_left.simps) (simp add: Let_def y_def)
    with ih(2) show ?thesis unfolding eq(1) by simp
  qed
qed

lemma merge_right_sim:
  "merge_right_st right a S (h, j, k) = (ys, (h', j', k')) \<Longrightarrow> a < length h \<Longrightarrow>
   merge_right right S (h ! a, j, k) = (map fst ys, (h' ! a, j', k')) \<and> a < length h'"
proof (induction right a S "(h, j, k)" arbitrary: h j k ys rule: merge_right_st.induct)
  case (1 right a S h j k)
  note run = "1.prems"(1)[unfolded merge_right_st.simps[of right a S h j k]]
  show ?case
  proof (cases "j < len right")
    case False
    with run have e: "ys = []" "h' = h" "j' = j" "k' = k" by auto
    from False have "merge_right right S (h ! a, j, k) = ([], (h ! a, j, k))"
      by (subst merge_right.simps) auto
    with e "1.prems"(2) show ?thesis by simp
  next
    case True
    define h1 where "h1 = store_setitem h a k (getitem right j)"
    define y where "y = yield_state h1 a [(k, SWAP)] S
                   (''Copying remaining right element to index '' @ str k)"
    obtain zs fin where r: "merge_right_st right a S (h1, j + 1, k + 1) = (zs, fin)"
      by (metis prod.exhaust)
    from run True r have eq: "ys = y # zs" "fin = (h', j', k')"
      by (auto simp: Let_def h1_def y_def)
    have l1: "a < length h1" "h1 ! a = setitem (h ! a) k (getitem right j)"
      using "1.prems"(2) by (simp_all add: h1_def)
    from "1.hyps"[OF True h1_def refl r[unfolded eq(2)] l1(1)]
    have ih: "merge_right right S (h1 ! a, j + 1, k + 1) = (map fst zs, h' ! a, j', k')"
      "a < length h'" by simp_all
    have "merge_right right S (h ! a, j, k) = (fst y # map fst zs, (h' ! a, j', k'))"
      using True ih(1) l1(2)
      by (subst merge_right.simps) (simp add: Let_def y_def)
    with ih(2) show ?thesis unfolding eq(1) by simp
  qed
qed

lemma priv_merge_sim:
  assumes "priv_merge_st a h start mid e S = (ys, h', S')" "a < length h"
  shows "priv_merge (h ! a) start mid e S = (map fst ys, h' ! a, S') \<and> a < length h'"
proof -
  define left where "left = slice (h ! a) start (mid + 1)"
  define right where "right = slice (h ! a) (mid + 1) (e + 1)"
  obtain ys1 h1 i1 j1 k1 where
    w: "merge_while_st left right start mid e a S (h, 0, 0, start) = (ys1, (h1, i1, j1, k1))"
    by (metis prod.exhaust)
  obtain ys2 h2 i2 k2 where l: "merge_left_st left a S (h1, i1, k1) = (ys2, (h2, i2, k2))"
    by (metis prod.exhaust)
  obtain ys3 h3 j3 k3 where r: "merge_right_st right a S (h2, j1, k2) = (ys3, (h3, j3, k3))"
    by (metis prod.exhaust)
  from assms(1) w l r have eq: "h' = h3" "S' = S \<union> set (py_range start (e + 1))"
    "ys = ys1 @ ys2 @ ys3 @
      [yield_state h3 a (map (\<lambda>idx. (idx, SORTED)) (py_range start (e + 1)))
         (S \<union> set (py_range start (e + 1)))
         (''Segment '' @ str start @ '':'' @ str e @ '' sorted'')]"
    by (auto simp: priv_merge_st_def Let_def left_def right_def)
  from merge_while_sim[OF w assms(2)]
  have p1: "merge_while left right start mid e S (h ! a, 0, 0, start) =
              (map fst ys1, (h1 ! a, i1, j1, k1))" "a < length h1" by simp_all
  from merge_left_sim[OF l p1(2)]
  have p2: "merge_left left S (h1 ! a, i1, k1) = (map fst ys2, (h2 ! a, i2, k2))"
    "a < length h2" by simp_all
  from merge_right_sim[OF r p2(2)]
  have p3: "merge_right right S (h2 ! a, j1, k2) = (map fst ys3, (h3 ! a, j3, k3))"
    "a < length h3" by simp_all
  from p1 p2 p3 show ?thesis unfolding eq
    by (simp add: priv_merge_def Let_def left_def[symmetric] right_def[symmetric])
qed

lemma priv_merge_sort_sim:
  "priv_merge_sort_st a h start e S = (ys, h', S') \<Longrightarrow> a < length h \<Longrightarrow>
   priv_merge_sort (h ! a) start e S = (map fst ys, h' ! a, S') \<and> a < length h'"
proof (induction a h start e S arbitrary: ys h' S' rule: priv_merge_sort_st.induct)
  case (1 a h start e S)
  note run = "1.prems"(1)[unfolded priv_merge_sort_st.simps[of a h start e S]]
  show ?case
  proof (cases "start \<ge> e")
    case True
    with run have eq: "ys = [yield_state h a [(start, SORTED)] (insert start S)
                (''Index '' @ str start @ '' is trivially sorted'')]" "h' = h"
      "S' = insert start S"
      by (auto simp: Let_def)
    from True have "priv_merge_sort (h ! a) start e S =
        ([priv_state (h ! a) [(start, SORTED)] (insert start S)
            (''Index '' @ str start @ '' is trivially sorted'')], h ! a, insert start S)"
      by (subst priv_merge_sort.simps) (simp add: Let_def)
    with eq "1.prems"(2) show ?thesis by simp
  next
    case False
    define mid where "mid = (start + e) div 2"
    obtain ys1 h1 S1 where l: "priv_merge_sort_st a h start mid S = (ys1, h1, S1)"
      by (metis prod.exhaust)
    obtain ys2 h2 S2 where r: "priv_merge_sort_st a h1 (mid + 1) e S1 = (ys2, h2, S2)"
      by (metis prod.exhaust)
    obtain ys3 h3 S3 where m: "priv_merge_st a h2 start mid e S2 = (ys3, h3, S3)"
      by (metis prod.exhaust)
    from run False l r m have eq: "ys = ys1 @ ys2 @ ys3" "h' = h3" "S' = S3"
      by (auto simp: Let_def mid_def)
    from "1.IH"(1)[OF False mid_def l "1.prems"(2)]
    have p1: "priv_merge_sort (h ! a) start mid S = (map fst ys1, h1 ! a, S1)" "a < length h1"
      by simp_all
    from "1.IH"(2)[OF False mid_def l[symmetric] refl r p1(2)]
    have p2: "priv_merge_sort (h1 ! a) (mid + 1) e S1 = (map fst ys2, h2 ! a, S2)"
      "a < length h2" by simp_all
    from priv_merge_sim[OF m p2(2)]
    have p3: "priv_merge (h2 ! a) start mid e S2 = (map fst ys3, h3 ! a, S3)" "a < length h3"
      by simp_all
    have "priv_merge_sort (h ! a) start e S =
            (map fst ys1 @ map fst ys2 @ map fst ys3, h3 ! a, S3)"
      using False p1(1) p2(1) p3(1)
      by (subst priv_merge_sort.simps) (simp add: Let_def mid_def)
    with p3(2) show ?thesis unfolding eq by simp
  qed
qed

lemma merge_sort_sim:
  assumes "d < length h"
  shows "map fst (fst (merge_sort_st h d)) = merge_sort (h ! d)"
proof -
  define h0 where "h0 = h @ [h ! d]"
  define a where "a = length h"
  have a0: "a < length h0" "h0 ! a = h ! d" by (simp_all add: a_def h0_def)
  have run: "merge_sort_st h d =
     (case (if h0 ! a \<noteq> [] then priv_merge_sort_st a h0 0 (len (h0 ! a) - 1) {}
               else ([], h0, {})) of
           (ys, h1, S1) \<Rightarrow>
             (ys @ [yield_state h1 a [] (set (py_range 0 (len (h1 ! a))))
                      ''Merge sort complete''], h1))"
    by (simp only: merge_sort_st_def list_copy_def h0_def a_def prod.case)
  show ?thesis
  proof (cases "h ! d = []")
    case True
    with a0 show ?thesis unfolding run by (simp add: merge_sort_def)
  next
    case False
    obtain zs h1 S1 where f: "priv_merge_sort_st a h0 0 (len (h ! d) - 1) {} = (zs, h1, S1)"
      by (metis prod.exhaust)
    from priv_merge_sort_sim[OF f a0(1)] a0(2)
    have r: "priv_merge_sort (h ! d) 0 (len (h ! d) - 1) {} = (map fst zs, h1 ! a, S1)"
      by simp
    from False a0 f r show ?thesis unfolding run by (simp add: merge_sort_def Let_def)
  qed
qed

lemma engines_st_refine:
  assumes "d < length h"
  shows "map (\<lambda>e. map fst (fst (e h d))) engines_st = map (\<lambda>e. e (h ! d)) engines"
  using assms
  by (simp add: engines_st_def engines_def bubble_sort_sim insertion_sort_sim
      selection_sort_sim quick_sort_sim merge_sort_sim)

subsection \<open>The caller's store after a run\<close>

lemma consume_caller:
  assumes "e \<in> set engines_st" "d < length h"
  shows "take (length h) (consume e k h d) = h"
proof -
  note fr = engines_frame[OF assms]
  from consume_cases[of e k h d] show ?thesis
  proof (elim disjE bexE)
    assume "consume e k h d = h"
    then show ?thesis by simp
  next
    assume c: "consume e k h d = snd (e h d)"
    from fr have "only_at (length h) (h @ [h ! d]) (snd (e h d))" by blast
    from only_at_caller[OF this] c show ?thesis by simp
  next
    fix y assume y: "y \<in> set (fst (e h d))" and c: "consume e k h d = snd y"
    from fr y have "only_at (length h) (h @ [h ! d]) (snd y)" by (auto simp: own_def)
    from only_at_caller[OF this] c show ?thesis by simp
  qed
qed

text \<open>
  C4: a run of an engine on the sequence at address \<open>d\<close> of the caller's store \<open>h\<close>,
  consumed up to any number \<open>k\<close> of calls of \<^verbatim>\<open>next\<close> (none, some, all, or more than the
  run has yields), leaves the caller's store as it was: the sequence at \<open>d\<close> and every
  other object of the caller are unchanged. Every yield shows the object at the address
  past the caller's objects, which the engine has allocated for its copy, and the
  snapshots are those of the engine run on the contents of the caller's sequence.
\<close>

theorem input_not_mutated:
  assumes "d < length h"
  shows "(\<forall>e \<in> set engines_st. \<forall>k.
            consume e k h d ! d = h ! d \<and>
            take (length h) (consume e k h d) = h \<and>
            (\<forall>y \<in> set (fst (e h d)).
               length (snd y) = Suc (length h) \<and> array (fst y) = snd y ! length h)) \<and>
         map (\<lambda>e. map fst (fst (e h d))) engines_st = map (\<lambda>e. e (h ! d)) engines"
proof (intro conjI ballI allI)
  fix e k
  assume e: "e \<in> set engines_st"
  from consume_caller[OF e assms, of k]
  show t: "take (length h) (consume e k h d) = h" .
  then have "take (length h) (consume e k h d) ! d = h ! d" by simp
  with assms show "consume e k h d ! d = h ! d" by simp
next
  fix e k y
  assume e: "e \<in> set engines_st" and y: "y \<in> set (fst (e h d))"
  from engines_frame[OF e assms] y have o: "own (length h) (h @ [h ! d]) y" by blast
  then have "only_at (length h) (h @ [h ! d]) (snd y)" by (simp add: own_def)
  from only_at_caller[OF this] show "length (snd y) = Suc (length h)" by simp
  from o show "array (fst y) = snd y ! length h" by (simp add: own_def)
next
  show "map (\<lambda>e. map fst (fst (e h d))) engines_st = map (\<lambda>e. e (h ! d)) engines"
    by (rule engines_st_refine[OF assms])
qed


text \<open>
  The helpers work in place: \<open>priv_quick_sort_st\<close> run on an address of the caller
  sorts the caller's object. What protects the caller is the copy at the start of each
  engine, as the fifth pull of insertion sort on \<open>[2, 3, 1]\<close> shows: the object at
  address \<open>0\<close> is as it was and the copy at address \<open>1\<close> has changed.
\<close>

lemma priv_quick_sort_in_place:
  "fst (snd (priv_quick_sort_st 0 [[3, 1, 2]] 0 2 {})) = [[1, 2, 3]]"
  by code_simp

lemma consume_insertion_5:
  "consume insertion_sort_st 5 [[2, 3, 1]] 0 = [[2, 3, 1], [2, 3, 3]]"
  by code_simp

theorem input_not_mutated_witness:
  "(0 :: nat) < length [[2, 3, 1 :: int]] \<and> insertion_sort_st \<in> set engines_st \<and>
   consume insertion_sort_st 5 [[2, 3, 1]] 0 = [[2, 3, 1], [2, 3, 3]] \<and>
   consume insertion_sort_st 5 [[2, 3, 1]] 0 ! 0 = [2, 3, 1]"
proof -
  have d: "(0 :: nat) < length [[2, 3, 1 :: int]]" by simp
  have e: "insertion_sort_st \<in> set engines_st" by (simp add: engines_st_def)
  from input_not_mutated[OF d] e
  have "consume insertion_sort_st 5 [[2, 3, 1]] 0 ! 0 = [[2, 3, 1]] ! 0"
    by blast
  with d e consume_insertion_5 show ?thesis by simp
qed
section \<open>How the sorted indices evolve during a run\<close>

text \<open>
  A run is followed through the pairs of working array and set of sorted indices that
  its snapshots show. Both relations between two such pairs are reflexive and transitive,
  so a piece of a run (a loop body, a loop, a recursive call) is described by \<open>steps\<close>
  and pieces compose.
\<close>

lemma grows_refl [simp]: "grows p p"
  by (simp add: grows_def)

lemma grows_trans: "grows p q \<Longrightarrow> grows q r \<Longrightarrow> grows p r"
  by (auto simp: grows_def)

lemma frozen_refl [simp]: "frozen p p"
  by (simp add: frozen_def)

lemma frozen_trans: "frozen p q \<Longrightarrow> frozen q r \<Longrightarrow> frozen p r"
  unfolding frozen_def by (metis subsetD subset_trans)

lemma frozen_grows: "frozen p q \<Longrightarrow> grows p q"
  by (simp add: frozen_def grows_def)

lemma frozenI:
  "S \<subseteq> S' \<Longrightarrow> (\<And>k. k \<in> S \<Longrightarrow> getitem a' k = getitem a k) \<Longrightarrow> frozen (a, S) (a', S')"
  by (simp add: frozen_def)

lemma snap_state_priv_state [simp]:
  "finite S \<Longrightarrow> snap_state (priv_state a hls S d) = (a, S)"
  by (simp add: snap_state_def priv_state_def)

lemma steps_Nil: "R p q \<Longrightarrow> steps R p [] q"
  by (simp add: steps_def)

lemma steps_single:
  "R p (snap_state s) \<Longrightarrow> R (snap_state s) q \<Longrightarrow> R p q \<Longrightarrow> steps R p [s] q"
  by (simp add: steps_def)

lemma steps_append:
  assumes tr: "\<And>a b c. R a b \<Longrightarrow> R b c \<Longrightarrow> R a c"
    and "steps R p ys q" "steps R q zs r"
  shows "steps R p (ys @ zs) r"
proof -
  from assms(2,3) have a: "R p q" "R q r"
    "\<And>s. s \<in> set ys \<Longrightarrow> R p (snap_state s)" "\<And>s. s \<in> set ys \<Longrightarrow> R (snap_state s) q"
    "\<And>s. s \<in> set zs \<Longrightarrow> R q (snap_state s)" "\<And>s. s \<in> set zs \<Longrightarrow> R (snap_state s) r"
    "sorted_wrt R (map snap_state ys)" "sorted_wrt R (map snap_state zs)"
    by (simp_all add: steps_def)
  have "R p r" using a(1,2) by (rule tr)
  moreover have "R p (snap_state s) \<and> R (snap_state s) r" if "s \<in> set (ys @ zs)" for s
    using that a(1-6) by (auto intro: tr)
  moreover have "sorted_wrt R (map snap_state (ys @ zs))"
    using a(3-8) by (auto simp: sorted_wrt_append intro: tr)
  ultimately show ?thesis by (simp add: steps_def)
qed

lemma steps_mono:
  "(\<And>a b. R a b \<Longrightarrow> R' a b) \<Longrightarrow> steps R p ys q \<Longrightarrow> steps R' p ys q"
  unfolding steps_def by (auto intro: sorted_wrt_mono_rel[of _ R R'])

lemma for_range_steps:
  assumes "for_range j stop body st = (ys, st')"
    and tr: "\<And>a b c. R a b \<Longrightarrow> R b c \<Longrightarrow> R a c" and rf: "\<And>a. R a a"
    and "I j st"
    and "\<And>k s zs s'. j \<le> k \<Longrightarrow> k < stop \<Longrightarrow> I k s \<Longrightarrow> body k s = (zs, s') \<Longrightarrow>
           I (k + 1) s' \<and> steps R (proj s) zs (proj s')"
  shows "I (max j stop) st' \<and> steps R (proj st) ys (proj st')"
  using assms(1,4,5)
proof (induction j stop body st arbitrary: ys st' rule: for_range.induct)
  case (1 j stop body st)
  show ?case
  proof (cases "j < stop")
    case False
    with "1.prems"(1) have "ys = []" "st' = st"
      by (simp_all add: for_range.simps)
    with False "1.prems"(2) show ?thesis by (simp add: max_def steps_Nil rf)
  next
    case True
    obtain zs s1 where b: "body j st = (zs, s1)" by (cases "body j st")
    obtain ws s2 where r: "for_range (j + 1) stop body s1 = (ws, s2)"
      by (cases "for_range (j + 1) stop body s1")
    from "1.prems"(1) True b r have eq: "ys = zs @ ws" "st' = s2"
      by (simp_all add: for_range.simps)
    from "1.prems"(3)[OF _ True "1.prems"(2) b]
    have s: "I (j + 1) s1" "steps R (proj st) zs (proj s1)"
      by simp_all
    have t: "I (max (j + 1) stop) s2 \<and> steps R (proj s1) ws (proj s2)"
    proof (rule "1.IH"[OF True b[symmetric] r s(1)])
      fix k s zs' s'
      assume "j + 1 \<le> k" "k < stop" "I k s" "body k s = (zs', s')"
      then show "I (k + 1) s' \<and> steps R (proj s) zs' (proj s')"
        using "1.prems"(3)[of k s zs' s'] by simp
    qed
    have "steps R (proj st) (zs @ ws) (proj s2)"
    proof (rule steps_append)
      fix a b c assume "R a b" "R b c"
      then show "R a c" by (rule tr)
    next
      show "steps R (proj st) zs (proj s1)" by fact
    next
      show "steps R (proj s1) ws (proj s2)" using t by blast
    qed
    with True t eq show ?thesis by (auto simp: max_def)
  qed
qed

lemma steps_sorted_wrt: "steps R p ys q \<Longrightarrow> sorted_wrt R (map snap_state ys)"
  by (simp add: steps_def)


lemma steps_frozen_append:
  "steps frozen p ys q \<Longrightarrow> steps frozen q zs r \<Longrightarrow> steps frozen p (ys @ zs) r"
  by (rule steps_append[of frozen]) (auto intro: frozen_trans)

lemma steps_frozen_same:
  "finite S \<Longrightarrow> steps frozen (a, S) [priv_state a hls S d] (a, S)"
  by (simp add: steps_def)

lemma steps_frozen_step:
  "finite S' \<Longrightarrow> frozen (a, S) (a', S') \<Longrightarrow> steps frozen (a, S) [priv_state a' hls S' d] (a', S')"
  by (simp add: steps_def)


lemma steps_grows_append:
  "steps grows p ys q \<Longrightarrow> steps grows q zs r \<Longrightarrow> steps grows p (ys @ zs) r"
  by (rule steps_append[of grows]) (auto intro: grows_trans)

lemma steps_grows_step:
  "finite S' \<Longrightarrow> S \<subseteq> S' \<Longrightarrow> steps grows (a, S) [priv_state a' hls S' d] (b, S')"
  by (simp add: steps_def grows_def)

lemma steps_grows_fst: "steps grows (a, S) ys (b, T) \<Longrightarrow> steps grows (a', S) ys (b', T)"
  by (simp add: steps_def grows_def)

lemma sorted_wrt_all: "(\<And>x y. x \<in> set xs \<Longrightarrow> y \<in> set xs \<Longrightarrow> P x y) \<Longrightarrow> sorted_wrt P xs"
  by (induction xs) auto

lemma steps_grows_same:
  assumes "\<forall>s\<in>set ys. set (sorted_indices s) = S"
  shows "steps grows (a, S) ys (b, S)"
proof -
  have "sorted_wrt grows (map snap_state ys)"
    by (rule sorted_wrt_all) (use assms in \<open>auto simp: grows_def snap_state_def\<close>)
  with assms show ?thesis by (auto simp: steps_def grows_def snap_state_def)
qed

lemma set_sorted_priv_state [simp]:
  "finite S \<Longrightarrow> set (sorted_indices (priv_state a hls S d)) = S"
  by (simp add: priv_state_def)


subsection \<open>The value at a recorded index stays: bubble, selection and quick sort\<close>

text \<open>
  Bubble sort records the tail positions and swaps only before them, selection sort
  records the head positions and swaps only from them on, and quick sort records the
  pivot's index and the one-element ranges and then works inside ranges that hold no
  recorded index.
\<close>

lemma bubble_body_steps:
  assumes "bubble_body S j arr = (zs, arr')" "0 \<le> j" "j + 1 < n" "len arr = n"
    "finite S" "\<forall>k\<in>S. j + 1 < k"
  shows "len arr' = n \<and> steps frozen (arr, S) zs (arr', S)"
proof (cases "getitem arr j > getitem arr (j + 1)")
  case True
  have f: "frozen (arr, S) (swap arr j (j + 1), S)"
  proof (rule frozenI)
    fix k assume "k \<in> S"
    with assms(6) have "j + 1 < k" by blast
    with assms(2-4) show "getitem (swap arr j (j + 1)) k = getitem arr k"
      by (simp add: getitem_swap)
  qed simp
  from assms(1)[unfolded bubble_body_gt[OF True]] assms(4,5) f show ?thesis
    by (auto simp: steps_def)
next
  case False
  from assms(1)[unfolded bubble_body_le[OF False]] assms(4,5) show ?thesis
    by (auto simp: steps_def)
qed

lemma bubble_pass_steps:
  assumes "bubble_pass n i (arr, S) = (zs, (arr', S'))" "0 \<le> i" "i < n" "len arr = n"
    "finite S" "\<forall>k\<in>S. n - i \<le> k \<and> k < n"
  shows "len arr' = n \<and> finite S' \<and> (\<forall>k\<in>S'. n - (i + 1) \<le> k \<and> k < n) \<and>
         steps frozen (arr, S) zs (arr', S')"
proof -
  obtain ys a1 where f: "for_range 0 (n - i - 1) (bubble_body S) arr = (ys, a1)"
    by (metis prod.exhaust)
  have inner: "len a1 = n \<and> steps frozen (arr, S) ys (a1, S)"
  proof (rule for_range_steps[OF f, where I="\<lambda>j a. len a = n" and proj="\<lambda>a. (a, S)"])
    show "len arr = n" by fact
  next
    fix k s zs' s'
    assume h: "0 \<le> k" "k < n - i - 1" "len s = n" "bubble_body S k s = (zs', s')"
    from assms(6) h(2) have "\<forall>m\<in>S. k + 1 < m" by auto
    with h assms(2,5) show "len s' = n \<and> steps frozen (s, S) zs' (s', S)"
      using bubble_body_steps[of S k s zs' s' n] by auto
  qed (auto intro: frozen_trans)
  from assms(1) f have eq: "arr' = a1" "S' = insert (n - i - 1) S"
    "zs = ys @ [priv_state a1 [(n - i - 1, SORTED)] (insert (n - i - 1) S)
                  (''Position '' @ str (n - i - 1) @ '' is sorted'')]"
    by (auto simp: bubble_pass_def Let_def)
  have g: "frozen (a1, S) (a1, insert (n - i - 1) S)"
    by (rule frozenI) auto
  have "steps frozen (a1, S) [priv_state a1 [(n - i - 1, SORTED)] (insert (n - i - 1) S)
                  (''Position '' @ str (n - i - 1) @ '' is sorted'')] (a1, insert (n - i - 1) S)"
    using assms(5) g by (intro steps_single) simp_all
  with inner have "steps frozen (arr, S) zs (a1, insert (n - i - 1) S)"
    unfolding eq(3) by (intro steps_append[of frozen]) (auto intro: frozen_trans)
  with inner eq assms(2-6) show ?thesis by auto
qed

lemma bubble_sort_frozen: "sorted_wrt frozen (map snap_state (bubble_sort xs))"
proof -
  define n where "n = len xs"
  obtain ys a1 S1 where f: "for_range 0 n (bubble_pass n) (xs, {}) = (ys, (a1, S1))"
    by (metis prod.exhaust)
  have r: "(case (a1, S1) of (a, S) \<Rightarrow> len a = n \<and> finite S \<and> (\<forall>k\<in>S. n - max 0 n \<le> k \<and> k < n)) \<and>
        steps frozen (xs, {}) ys (a1, S1)"
  proof (rule for_range_steps[OF f, where I="\<lambda>i st. case st of (a, S) \<Rightarrow>
          len a = n \<and> finite S \<and> (\<forall>k\<in>S. n - i \<le> k \<and> k < n)" and proj="\<lambda>st. st"])
    show "case (xs, {}) of (a, S) \<Rightarrow> len a = n \<and> finite S \<and> (\<forall>k\<in>S. n - 0 \<le> k \<and> k < n)"
      by (simp add: n_def)
  next
    fix k s zs s'
    assume h: "0 \<le> k" "k < n"
      "case s of (a, S) \<Rightarrow> len a = n \<and> finite S \<and> (\<forall>k'\<in>S. n - k \<le> k' \<and> k' < n)"
      "bubble_pass n k s = (zs, s')"
    obtain a S where s: "s = (a, S)" by (cases s)
    obtain a' S' where s': "s' = (a', S')" by (cases s')
    from bubble_pass_steps[of n k a S zs a' S'] h s s'
    show "(case s' of (a, S) \<Rightarrow> len a = n \<and> finite S \<and> (\<forall>k'\<in>S. n - (k + 1) \<le> k' \<and> k' < n)) \<and>
          steps frozen s zs s'"
      by simp
  qed (auto intro: frozen_trans)
  then have fin: "finite S1" "S1 \<subseteq> {0..<n}" "steps frozen (xs, {}) ys (a1, S1)"
    by (auto simp: n_def)
  have g: "frozen (a1, S1) (a1, {0..<n})"
    using fin(2) by (intro frozenI) auto
  have "steps frozen (a1, S1) [priv_state a1 [] {0..<n} ''Bubble sort complete''] (a1, {0..<n})"
    using g by (intro steps_single) simp_all
  with fin(3) have "steps frozen (xs, {}) (ys @ [priv_state a1 [] {0..<n} ''Bubble sort complete'']) (a1, {0..<n})"
    by (intro steps_append[of frozen]) (auto intro: frozen_trans)
  moreover from f have "bubble_sort xs = ys @ [priv_state a1 [] {0..<n} ''Bubble sort complete'']"
    by (simp add: bubble_sort_def Let_def n_def)
  ultimately show ?thesis by (simp add: steps_def)
qed

lemma selection_scan_steps:
  assumes "selection_scan arr S i j m = (zs, m')" "i \<le> m" "m < j" "finite S"
  shows "(i \<le> m' \<and> m' < j + 1) \<and> steps frozen (arr, S) zs (arr, S)"
proof (cases "getitem arr j < getitem arr m")
  case True
  with assms(1) have eq: "zs = [priv_state arr [(m, PIVOT), (j, COMPARE)] S
                 (''Finding minimum from index '' @ str i @ '' onward'')] @
     [priv_state arr [(j, PIVOT)] S (''New minimum at index '' @ str j)]" "m' = j"
    by (auto simp: selection_scan_def Let_def)
  have "steps frozen (arr, S) zs (arr, S)"
    unfolding eq(1) using assms(4)
    by (intro steps_frozen_append[of "(arr, S)" _ "(arr, S)"] steps_frozen_same)
  with eq assms(2-) show ?thesis by simp
next
  case False
  with assms(1) have "zs = [priv_state arr [(m, PIVOT), (j, COMPARE)] S
                 (''Finding minimum from index '' @ str i @ '' onward'')]" "m' = m"
    by (auto simp: selection_scan_def Let_def)
  with assms(2-) show ?thesis
    by (auto intro!: steps_frozen_same)
qed

lemma selection_pass_steps:
  assumes "selection_pass n i (arr, S) = (zs, (arr', S'))" "0 \<le> i" "i < n" "len arr = n"
    "finite S" "\<forall>k\<in>S. 0 \<le> k \<and> k < i"
  shows "len arr' = n \<and> finite S' \<and> (\<forall>k\<in>S'. 0 \<le> k \<and> k < i + 1) \<and>
         steps frozen (arr, S) zs (arr', S')"
proof -
  obtain ys m where f: "for_range (i + 1) n (selection_scan arr S i) i = (ys, m)"
    by (metis prod.exhaust)
  have inner: "(i \<le> m \<and> m < max (i + 1) n) \<and> steps frozen (arr, S) ys (arr, S)"
  proof (rule for_range_steps[OF f, where I="\<lambda>j m. i \<le> m \<and> m < j" and proj="\<lambda>m. (arr, S)"])
    show "i \<le> i \<and> i < i + 1" by simp
  next
    fix k s zs' s'
    assume "i + 1 \<le> k" "k < n" "i \<le> s \<and> s < k" "selection_scan arr S i k s = (zs', s')"
    with assms(5) selection_scan_steps[of arr S i k s zs' s']
    show "(i \<le> s' \<and> s' < k + 1) \<and> steps frozen (arr, S) zs' (arr, S)"
      by simp
  qed (auto intro: frozen_trans)
  with assms(3) have m: "i \<le> m" "m < n" by auto
  from assms(1) f have eq: "arr' = swap arr i m" "S' = insert i S"
    "zs = ys @ [priv_state (swap arr i m) [(i, SORTED), (m, SWAP)] (insert i S)
                        (''Swapped minimum into position '' @ str i)]"
    by (auto simp: selection_pass_def Let_def)
  have g: "frozen (arr, S) (swap arr i m, insert i S)"
  proof (rule frozenI)
    fix k assume "k \<in> S"
    with assms(6) have "0 \<le> k" "k < i" by auto
    with m assms(2-4) show "getitem (swap arr i m) k = getitem arr k"
      by (simp add: getitem_swap)
  qed auto
  have "steps frozen (arr, S) zs (swap arr i m, insert i S)"
    unfolding eq(3) using inner assms(5) g
    by (intro steps_frozen_append[of "(arr, S)" _ "(arr, S)"] steps_frozen_step) auto
  with eq assms(2-6) show ?thesis by auto
qed

lemma selection_sort_frozen: "sorted_wrt frozen (map snap_state (selection_sort xs))"
proof -
  define n where "n = len xs"
  obtain ys a1 S1 where f: "for_range 0 n (selection_pass n) (xs, {}) = (ys, (a1, S1))"
    by (metis prod.exhaust)
  have r: "(case (a1, S1) of (a, S) \<Rightarrow> len a = n \<and> finite S \<and> (\<forall>k\<in>S. 0 \<le> k \<and> k < max 0 n)) \<and>
        steps frozen (xs, {}) ys (a1, S1)"
  proof (rule for_range_steps[OF f, where I="\<lambda>i st. case st of (a, S) \<Rightarrow>
          len a = n \<and> finite S \<and> (\<forall>k\<in>S. 0 \<le> k \<and> k < i)" and proj="\<lambda>st. st"])
    show "case (xs, {}) of (a, S) \<Rightarrow> len a = n \<and> finite S \<and> (\<forall>k\<in>S. 0 \<le> k \<and> k < 0)"
      by (simp add: n_def)
  next
    fix k s zs s'
    assume h: "0 \<le> k" "k < n"
      "case s of (a, S) \<Rightarrow> len a = n \<and> finite S \<and> (\<forall>k'\<in>S. 0 \<le> k' \<and> k' < k)"
      "selection_pass n k s = (zs, s')"
    obtain a S where s: "s = (a, S)" by (cases s)
    obtain a' S' where s': "s' = (a', S')" by (cases s')
    from selection_pass_steps[of n k a S zs a' S'] h s s'
    show "(case s' of (a, S) \<Rightarrow> len a = n \<and> finite S \<and> (\<forall>k'\<in>S. 0 \<le> k' \<and> k' < k + 1)) \<and>
          steps frozen s zs s'"
      by simp
  qed (auto intro: frozen_trans)
  then have fin: "finite S1" "S1 \<subseteq> {0..<n}" "steps frozen (xs, {}) ys (a1, S1)"
    by (auto simp: n_def)
  have g: "frozen (a1, S1) (a1, {0..<n})"
    using fin(2) by (intro frozenI) auto
  from fin(3) g
  have "steps frozen (xs, {}) (ys @ [priv_state a1 [] {0..<n} ''Selection sort complete'']) (a1, {0..<n})"
    by (intro steps_frozen_append[of _ _ "(a1, S1)"] steps_frozen_step) auto
  moreover from f have "selection_sort xs = ys @ [priv_state a1 [] {0..<n} ''Selection sort complete'']"
    by (simp add: selection_sort_def Let_def n_def)
  ultimately show ?thesis by (simp add: steps_def)
qed

lemma partition_body_steps:
  assumes "partition_body S high pivot j (arr, i) = (zs, (arr', i'))"
    "0 \<le> low" "low - 1 \<le> i" "i < j" "low \<le> j" "j < high" "high < n" "len arr = n"
    "finite S" "\<forall>k\<in>S. 0 \<le> k \<and> (k < low \<or> high < k)"
  shows "(len arr' = n \<and> low - 1 \<le> i' \<and> i' < j + 1) \<and> steps frozen (arr, S) zs (arr', S)"
proof (cases "getitem arr j \<le> pivot")
  case True
  with assms(1) have eq: "zs = [priv_state arr [(j, COMPARE), (high, PIVOT)] S
                    (''Comparing index '' @ str j @ '' with pivot'')] @
     [priv_state (swap arr (i + 1) j) [(i + 1, SWAP), (j, SWAP)] S
                          (''Swapped indices '' @ str (i + 1) @ '' and '' @ str j)]"
    "arr' = swap arr (i + 1) j" "i' = i + 1"
    by (auto simp: partition_body_def Let_def)
  have g: "frozen (arr, S) (swap arr (i + 1) j, S)"
  proof (rule frozenI)
    fix k assume "k \<in> S"
    with assms(10) have "0 \<le> k" "k < low \<or> high < k" by auto
    with assms(2-8) show "getitem (swap arr (i + 1) j) k = getitem arr k"
      by (auto simp: getitem_swap)
  qed auto
  have "steps frozen (arr, S) zs (swap arr (i + 1) j, S)"
    unfolding eq(1) using assms(9) g
    by (intro steps_frozen_append[of "(arr, S)" _ "(arr, S)"] steps_frozen_step steps_frozen_same)
  with eq assms(2-8) show ?thesis by auto
next
  case False
  with assms(1) have "zs = [priv_state arr [(j, COMPARE), (high, PIVOT)] S
                    (''Comparing index '' @ str j @ '' with pivot'')]" "arr' = arr" "i' = i"
    by (auto simp: partition_body_def Let_def)
  with assms(2-) show ?thesis by (auto intro!: steps_frozen_same)
qed

lemma partition_steps:
  assumes "lomuto_partition arr low high S = (zs, arr2, p, S1)"
    "0 \<le> low" "low < high" "high < n" "len arr = n" "finite S"
    "\<forall>k\<in>S. 0 \<le> k \<and> (k < low \<or> high < k)"
  shows "steps frozen (arr, S) zs (arr2, S1)"
proof -
  obtain ys a1 i1 where
    f: "for_range low high (partition_body S high (getitem arr high)) (arr, low - 1) = (ys, (a1, i1))"
    by (metis prod.exhaust)
  have inner: "(case (a1, i1) of (a, i) \<Rightarrow> len a = n \<and> low - 1 \<le> i \<and> i < max low high) \<and>
      steps frozen (arr, S) ys (a1, S)"
  proof (rule for_range_steps[OF f, where
        I="\<lambda>j st. case st of (a, i) \<Rightarrow> len a = n \<and> low - 1 \<le> i \<and> i < j"
        and proj="\<lambda>st. (fst st, S)", simplified fst_conv])
    show "case (arr, low - 1) of (a, i) \<Rightarrow> len a = n \<and> low - 1 \<le> i \<and> i < low"
      using assms(5) by simp
  next
    fix k s zs' s'
    assume h: "low \<le> k" "k < high"
      "case s of (a, i) \<Rightarrow> len a = n \<and> low - 1 \<le> i \<and> i < k"
      "partition_body S high (getitem arr high) k s = (zs', s')"
    obtain a i where s: "s = (a, i)" by (cases s)
    obtain a' i' where s': "s' = (a', i')" by (cases s')
    from partition_body_steps[of S high "getitem arr high" k a i zs' a' i' low n] h s s' assms(2-)
    show "(case s' of (a, i) \<Rightarrow> len a = n \<and> low - 1 \<le> i \<and> i < k + 1) \<and>
          steps frozen (fst s, S) zs' (fst s', S)"
      by simp
  qed (auto intro: frozen_trans)
  then have b: "len a1 = n" "low - 1 \<le> i1" "i1 < high" "steps frozen (arr, S) ys (a1, S)"
    using assms(3) by auto
  from assms(1) f have eq: "zs = [priv_state arr [(high, PIVOT)] S (''Pivot chosen at index '' @ str high)] @ ys @
      [priv_state (swap a1 (i1 + 1) high) [(i1 + 1, SORTED)] (insert (i1 + 1) S)
                               (''Pivot settled at index '' @ str (i1 + 1))]"
    "arr2 = swap a1 (i1 + 1) high" "p = i1 + 1" "S1 = insert (i1 + 1) S"
    by (auto simp: lomuto_partition_def Let_def)
  have g: "frozen (a1, S) (swap a1 (i1 + 1) high, insert (i1 + 1) S)"
  proof (rule frozenI)
    fix k assume "k \<in> S"
    with assms(7) have "0 \<le> k" "k < low \<or> high < k" by auto
    with assms(2-4) b(1-3) show "getitem (swap a1 (i1 + 1) high) k = getitem a1 k"
      by (auto simp: getitem_swap)
  qed auto
  have "steps frozen (arr, S) zs (swap a1 (i1 + 1) high, insert (i1 + 1) S)"
    unfolding eq(1) using assms(6) g b(4)
    by (intro steps_frozen_append[of "(arr, S)" _ "(arr, S)"]
        steps_frozen_append[of "(arr, S)" _ "(a1, S)"] steps_frozen_step steps_frozen_same) auto
  with eq show ?thesis by simp
qed

lemma priv_quick_sort_steps:
  assumes "priv_quick_sort arr low high S = (zs, arr', S')"
    "0 \<le> low" "high < n" "len arr = n" "finite S"
    "\<forall>k\<in>S. 0 \<le> k \<and> k < n \<and> (k < low \<or> high < k)"
  shows "steps frozen (arr, S) zs (arr', S')"
  using assms
proof (induction arr low high S arbitrary: zs arr' S' rule: priv_quick_sort.induct)
  case (1 arr low high S)
  note run = "1.prems"(1)[unfolded priv_quick_sort.simps[of arr low high S]]
  have sub: "S \<subseteq> {0..<n}" using "1.prems"(6) by auto
  show ?case
  proof (cases "low \<ge> high")
    case True
    show ?thesis
    proof (cases "low = high")
      case eq: True
      from run eq have r: "zs = [priv_state arr [(low, SORTED)] (insert low S)
                            (''Index '' @ str low @ '' is sorted'')]" "arr' = arr" "S' = insert low S"
        by (auto simp: Let_def)
      have "frozen (arr, S) (arr, insert low S)" by (rule frozenI) auto
      with r "1.prems"(5) show ?thesis by (auto intro!: steps_frozen_step)
    next
      case False
      with True run have "zs = []" "arr' = arr" "S' = S"
        by auto
      then show ?thesis by (simp add: steps_Nil)
    qed
  next
    case False
    obtain ys arr2 p S1 where pt: "lomuto_partition arr low high S = (ys, arr2, p, S1)"
      by (metis prod.exhaust)
    obtain ls arr3 S2 where l: "priv_quick_sort arr2 low (p - 1) S1 = (ls, arr3, S2)"
      by (metis prod.exhaust)
    obtain rs arr4 S3 where r: "priv_quick_sort arr3 (p + 1) high S2 = (rs, arr4, S3)"
      by (metis prod.exhaust)
    from run False pt l r have eq: "zs = ys @ ls @ rs" "arr' = arr4" "S' = S3"
      by auto
    from partition_shape[OF pt, of n] False "1.prems"(2-5) sub
    have ps: "len arr2 = n" "low \<le> p" "p \<le> high" "S1 = insert p S"
      by simp_all
    have s1: "steps frozen (arr, S) ys (arr2, S1)"
      using partition_steps[OF pt, of n] False "1.prems"(2-) by auto
    have S1: "finite S1" "S1 \<subseteq> {0..<n}"
      "\<forall>k\<in>S1. 0 \<le> k \<and> k < n \<and> (k < low \<or> p - 1 < k)"
      using ps "1.prems"(2-) by auto
    from priv_quick_sort_shape[OF l, of n] ps S1 "1.prems"(2,3)
    have ls: "len arr3 = n" "S2 = S1 \<union> {low..p - 1}" by simp_all
    have s2: "steps frozen (arr2, S1) ls (arr3, S2)"
    proof (rule "1.IH"(1)[OF False pt[symmetric] refl refl l])
      show "0 \<le> low" "len arr2 = n" "finite S1"
        "\<forall>k\<in>S1. 0 \<le> k \<and> k < n \<and> (k < low \<or> p - 1 < k)"
        using ps S1 "1.prems"(2) by simp_all
      show "p - 1 < n" using ps "1.prems"(3) by simp
    qed
    have S2: "finite S2" "\<forall>k\<in>S2. 0 \<le> k \<and> k < n \<and> (k < p + 1 \<or> high < k)"
      using ls S1 ps "1.prems"(2-) by auto
    have s3: "steps frozen (arr3, S2) rs (arr4, S3)"
    proof (rule "1.IH"(2)[OF False pt[symmetric] refl refl l[symmetric] refl r])
      show "0 \<le> p + 1" "high < n" "len arr3 = n" "finite S2"
        "\<forall>k\<in>S2. 0 \<le> k \<and> k < n \<and> (k < p + 1 \<or> high < k)"
        using ps S2 ls "1.prems"(2,3) by simp_all
    qed
    from s1 s2 s3 show ?thesis unfolding eq
      by (intro steps_frozen_append[of _ _ "(arr2, S1)"] steps_frozen_append[of _ _ "(arr3, S2)"])
  qed
qed

lemma quick_sort_frozen: "sorted_wrt frozen (map snap_state (quick_sort xs))"
proof -
  obtain ys a1 S1 where f: "priv_quick_sort xs 0 (len xs - 1) {} = (ys, a1, S1)"
    by (metis prod.exhaust)
  have "len a1 = len xs \<and> S1 = {} \<union> {0..len xs - 1} \<and>
        (\<forall>s\<in>set ys. intermediate (len xs) ''Quick sort complete'' s)"
    by (rule priv_quick_sort_shape[OF f]) simp_all
  then have sh: "len a1 = len xs" "S1 = {0..len xs - 1}" by blast+
  have st: "steps frozen (xs, {}) ys (a1, S1)"
    by (rule priv_quick_sort_steps[OF f, of "len xs"]) simp_all
  have g: "frozen (a1, S1) (a1, {0..<len xs})"
    unfolding sh(2) by (intro frozenI) auto
  from st g
  have "steps frozen (xs, {})
          (ys @ [priv_state a1 [] {0..<len xs} ''Quick sort complete'']) (a1, {0..<len xs})"
    by (intro steps_frozen_append[of _ _ "(a1, S1)"] steps_frozen_step) auto
  moreover from f sh(1)
  have "quick_sort xs = ys @ [priv_state a1 [] {0..<len xs} ''Quick sort complete'']"
    by (simp add: quick_sort_def Let_def)
  ultimately show ?thesis by (simp add: steps_def)
qed

subsection \<open>The set only grows: insertion and merge sort\<close>

lemma insertion_while_sets:
  "insertion_while S key arr j = (ys, st) \<Longrightarrow> finite S \<Longrightarrow>
   \<forall>s\<in>set ys. set (sorted_indices s) = S"
proof (induction S key arr j arbitrary: ys st rule: insertion_while.induct)
  case (1 S key arr j)
  show ?case
  proof (cases "j \<ge> 0 \<and> getitem arr j > key")
    case False
    with "1.prems" show ?thesis by (simp add: insertion_while.simps)
  next
    case True
    define arr1 where "arr1 = setitem arr (j + 1) (getitem arr j)"
    define s1 where "s1 = priv_state arr [(j, COMPARE), (j + 1, COMPARE)] S
                    (''Comparing key with index '' @ str j)"
    define s2 where "s2 = priv_state arr1 [(j, SWAP), (j + 1, SWAP)] S
                    (''Shifting value at index '' @ str j @ '' to index '' @ str (j + 1))"
    obtain zs st2 where r: "insertion_while S key arr1 (j - 1) = (zs, st2)"
      by (metis prod.exhaust)
    from "1.prems"(1) True r have eq: "ys = s1 # s2 # zs"
      by (auto simp: insertion_while.simps[of S key arr j] Let_def arr1_def s1_def s2_def)
    from "1.IH"[OF True s1_def arr1_def s2_def r "1.prems"(2)] "1.prems"(2)
    show ?thesis unfolding eq by (simp add: s1_def s2_def)
  qed
qed

lemma insertion_body_steps:
  assumes "insertion_body i (arr, S) = (zs, (arr', S'))" "finite S"
  shows "steps grows (arr, S) zs (arr', S')"
proof -
  obtain ys a1 j1 where w: "insertion_while S (getitem arr i) arr (i - 1) = (ys, a1, j1)"
    by (metis prod.exhaust)
  from assms(1) w have eq:
    "zs = [priv_state arr [(i, PIVOT)] S (''Selecting key at index '' @ str i)] @ ys @
       [priv_state (setitem a1 (j1 + 1) (getitem arr i)) [(j1 + 1, SWAP)]
          (S \<union> set (py_range 0 (i + 1))) (''Inserted key at index '' @ str (j1 + 1))]"
    "S' = S \<union> set (py_range 0 (i + 1))"
    by (auto simp: insertion_body_def Let_def)
  have "steps grows (arr, S) ys (arr, S)"
    using insertion_while_sets[OF w assms(2)] by (rule steps_grows_same)
  then show ?thesis unfolding eq using assms(2)
    by (intro steps_grows_append[of "(arr, S)" _ "(arr, S)"] steps_grows_step) auto
qed

lemma insertion_sort_grows: "sorted_wrt grows (map snap_state (insertion_sort xs))"
proof -
  obtain ys a1 S1 where f: "for_range 1 (len xs) insertion_body (xs, {}) = (ys, (a1, S1))"
    by (metis prod.exhaust)
  have r: "(case (a1, S1) of (a, S) \<Rightarrow> len a = len xs \<and> finite S \<and> S \<subseteq> {0..<len xs}) \<and>
        steps grows (xs, {}) ys (a1, S1)"
  proof (rule for_range_steps[OF f, where I="\<lambda>i st. case st of (a, S) \<Rightarrow>
          len a = len xs \<and> finite S \<and> S \<subseteq> {0..<len xs}" and proj="\<lambda>st. st"])
    show "case (xs, {}) of (a, S) \<Rightarrow> len a = len xs \<and> finite S \<and> S \<subseteq> {0..<len xs}"
      by simp
  next
    fix k s zs s'
    assume h: "1 \<le> k" "k < len xs"
      "case s of (a, S) \<Rightarrow> len a = len xs \<and> finite S \<and> S \<subseteq> {0..<len xs}"
      "insertion_body k s = (zs, s')"
    obtain a S where s: "s = (a, S)" by (cases s)
    obtain a' S' where s': "s' = (a', S')" by (cases s')
    from insertion_body_shape[of k a S zs a' S' "len xs"] insertion_body_steps[of k a S zs a' S']
      h s s'
    show "(case s' of (a, S) \<Rightarrow> len a = len xs \<and> finite S \<and> S \<subseteq> {0..<len xs}) \<and>
          steps grows s zs s'"
      by simp
  qed (auto intro: grows_trans)
  then have fin: "len a1 = len xs" "S1 \<subseteq> {0..<len xs}" "steps grows (xs, {}) ys (a1, S1)"
    by auto
  from fin(2,3)
  have "steps grows (xs, {})
          (ys @ [priv_state a1 [] {0..<len xs} ''Insertion sort complete'']) (a1, {0..<len xs})"
    by (intro steps_grows_append[of _ _ "(a1, S1)"] steps_grows_step) auto
  moreover from f fin(1)
  have "insertion_sort xs = ys @ [priv_state a1 [] {0..<len xs} ''Insertion sort complete'']"
    by (simp add: insertion_sort_def Let_def)
  ultimately show ?thesis by (simp add: steps_def)
qed

lemma merge_while_sets:
  "merge_while left right start mid e S (a, i, j, k) = (ys, st) \<Longrightarrow> finite S \<Longrightarrow>
   \<forall>s\<in>set ys. set (sorted_indices s) = S"
proof (induction left right start mid e S "(a, i, j, k)"
    arbitrary: a i j k ys rule: merge_while.induct)
  case (1 left right start mid e S a i j k)
  note run = "1.prems"(1)[unfolded merge_while.simps[of left right start mid e S a i j k]]
  show ?case
  proof (cases "i < len left \<and> j < len right")
    case False
    with run show ?thesis by auto
  next
    case True
    define s1 where "s1 = priv_state a
                    [(k, COMPARE), (start + i, COMPARE), (mid + 1 + j, COMPARE)] S
                    (''Merging indices '' @ str start @ '' to '' @ str e)"
    define st0 where "st0 = (if getitem left i \<le> getitem right j
                then (setitem a k (getitem left i), i + 1, j)
                else (setitem a k (getitem right j), i, j + 1))"
    obtain a1 i1 j1 where st1: "st0 = (a1, i1, j1)" by (metis prod.exhaust)
    define s2 where "s2 = priv_state a1 [(k, SWAP)] S (''Placed value at index '' @ str k)"
    obtain zs fin where r: "merge_while left right start mid e S (a1, i1, j1, k + 1) = (zs, fin)"
      by (metis prod.exhaust)
    from run True st1 r have eq: "ys = s1 # s2 # zs" "fin = st"
      by (auto simp: Let_def s1_def s2_def st0_def)
    from "1.hyps"[OF True s1_def st0_def st1[symmetric] refl s2_def r[unfolded eq(2)] "1.prems"(2)]
    have ih: "\<forall>s\<in>set zs. set (sorted_indices s) = S" .
    with "1.prems"(2) show ?thesis unfolding eq(1) by (simp add: s1_def s2_def)
  qed
qed

lemma merge_left_sets:
  "merge_left left S (a, i, k) = (ys, st) \<Longrightarrow> finite S \<Longrightarrow>
   \<forall>s\<in>set ys. set (sorted_indices s) = S"
proof (induction left S "(a, i, k)" arbitrary: a i k ys rule: merge_left.induct)
  case (1 left S a i k)
  note run = "1.prems"(1)[unfolded merge_left.simps[of left S a i k]]
  show ?case
  proof (cases "i < len left")
    case False
    with run show ?thesis by auto
  next
    case True
    define a1 where "a1 = setitem a k (getitem left i)"
    obtain zs fin where r: "merge_left left S (a1, i + 1, k + 1) = (zs, fin)"
      by (metis prod.exhaust)
    from run True r have eq: "ys = priv_state a1 [(k, SWAP)] S
                   (''Copying remaining left element to index '' @ str k) # zs" "fin = st"
      by (auto simp: Let_def a1_def)
    from "1.hyps"[OF True a1_def refl r[unfolded eq(2)] "1.prems"(2)] "1.prems"(2)
    show ?thesis unfolding eq(1) by simp
  qed
qed

lemma merge_right_sets:
  "merge_right right S (a, j, k) = (ys, st) \<Longrightarrow> finite S \<Longrightarrow>
   \<forall>s\<in>set ys. set (sorted_indices s) = S"
proof (induction right S "(a, j, k)" arbitrary: a j k ys rule: merge_right.induct)
  case (1 right S a j k)
  note run = "1.prems"(1)[unfolded merge_right.simps[of right S a j k]]
  show ?case
  proof (cases "j < len right")
    case False
    with run show ?thesis by auto
  next
    case True
    define a1 where "a1 = setitem a k (getitem right j)"
    obtain zs fin where r: "merge_right right S (a1, j + 1, k + 1) = (zs, fin)"
      by (metis prod.exhaust)
    from run True r have eq: "ys = priv_state a1 [(k, SWAP)] S
                   (''Copying remaining right element to index '' @ str k) # zs" "fin = st"
      by (auto simp: Let_def a1_def)
    from "1.hyps"[OF True a1_def refl r[unfolded eq(2)] "1.prems"(2)] "1.prems"(2)
    show ?thesis unfolding eq(1) by simp
  qed
qed

lemma priv_merge_steps:
  assumes "priv_merge arr start mid e S = (ys, arr', S')" "finite S"
  shows "steps grows (arr, S) ys (arr', S')"
proof -
  define left where "left = slice arr start (mid + 1)"
  define right where "right = slice arr (mid + 1) (e + 1)"
  obtain ys1 a1 i1 j1 k1 where
    w: "merge_while left right start mid e S (arr, 0, 0, start) = (ys1, (a1, i1, j1, k1))"
    by (metis prod.exhaust)
  obtain ys2 a2 i2 k2 where l: "merge_left left S (a1, i1, k1) = (ys2, (a2, i2, k2))"
    by (metis prod.exhaust)
  obtain ys3 a3 j3 k3 where r: "merge_right right S (a2, j1, k2) = (ys3, (a3, j3, k3))"
    by (metis prod.exhaust)
  define ws where "ws = ys1 @ ys2 @ ys3"
  from assms(1) w l r have eq: "ys = ws @
      [priv_state a3 (map (\<lambda>idx. (idx, SORTED)) (py_range start (e + 1)))
       (S \<union> set (py_range start (e + 1))) (''Segment '' @ str start @ '':'' @ str e @ '' sorted'')]"
    "arr' = a3" "S' = S \<union> set (py_range start (e + 1))"
    by (auto simp: priv_merge_def Let_def left_def right_def ws_def)
  have "\<forall>s\<in>set ws. set (sorted_indices s) = S"
    using merge_while_sets[OF w assms(2)] merge_left_sets[OF l assms(2)]
      merge_right_sets[OF r assms(2)] by (auto simp: ws_def)
  then have "steps grows (arr, S) ws (arr, S)"
    by (rule steps_grows_same)
  then show ?thesis unfolding eq using assms(2)
    by (intro steps_grows_append[of "(arr, S)" _ "(arr, S)"] steps_grows_step) auto
qed

lemma priv_merge_sort_steps:
  assumes "priv_merge_sort arr start e S = (ys, arr', S')"
    "0 \<le> start" "start \<le> e" "e < n" "len arr = n" "finite S" "S \<subseteq> {0..<n}"
  shows "steps grows (arr, S) ys (arr', S')"
  using assms
proof (induction arr start e S arbitrary: ys arr' S' rule: priv_merge_sort.induct)
  case (1 arr start e S)
  note run = "1.prems"(1)[unfolded priv_merge_sort.simps[of arr start e S]]
  show ?case
  proof (cases "start \<ge> e")
    case True
    from run True have r: "ys = [priv_state arr [(start, SORTED)] (insert start S)
                (''Index '' @ str start @ '' is trivially sorted'')]" "arr' = arr" "S' = insert start S"
      by (auto simp: Let_def)
    show ?thesis unfolding r using "1.prems"(6) by (intro steps_grows_step) auto
  next
    case False
    define mid where "mid = (start + e) div 2"
    have mid: "start \<le> mid" "mid < e" using False by (auto simp: mid_def)
    obtain ys1 a1 S1 where l: "priv_merge_sort arr start mid S = (ys1, a1, S1)"
      by (metis prod.exhaust)
    obtain ys2 a2 S2 where r: "priv_merge_sort a1 (mid + 1) e S1 = (ys2, a2, S2)"
      by (metis prod.exhaust)
    obtain ys3 a3 S3 where m: "priv_merge a2 start mid e S2 = (ys3, a3, S3)"
      by (metis prod.exhaust)
    from run False l r m have eq: "ys = ys1 @ ys2 @ ys3" "arr' = a3" "S' = S3"
      by (auto simp: Let_def mid_def)
    have shl: "len a1 = n \<and> S1 = S \<union> {start..mid} \<and>
         (\<forall>s\<in>set ys1. intermediate n ''Merge sort complete'' s)"
      by (rule priv_merge_sort_shape[OF l]) (use "1.prems"(2-) mid in auto)
    have S1: "finite S1" "S1 \<subseteq> {0..<n}" using shl mid "1.prems"(2-) by auto
    have shr: "len a2 = n \<and> S2 = S1 \<union> {mid + 1..e} \<and>
         (\<forall>s\<in>set ys2. intermediate n ''Merge sort complete'' s)"
      by (rule priv_merge_sort_shape[OF r]) (use "1.prems"(2-) mid shl S1 in auto)
    have S2: "finite S2" "S2 \<subseteq> {0..<n}" using shr S1 mid "1.prems"(2-) by auto
    have s1: "steps grows (arr, S) ys1 (a1, S1)"
      by (rule "1.IH"(1)[OF False mid_def l]) (use "1.prems"(2-) mid in auto)
    have s2: "steps grows (a1, S1) ys2 (a2, S2)"
      by (rule "1.IH"(2)[OF False mid_def l[symmetric] refl r])
         (use "1.prems"(2-) mid shl S1 in auto)
    have s3: "steps grows (a2, S2) ys3 (a3, S3)"
      by (rule priv_merge_steps[OF m S2(1)])
    from s1 s2 s3 show ?thesis unfolding eq
      by (intro steps_grows_append[of _ _ "(a1, S1)"] steps_grows_append[of _ _ "(a2, S2)"])
  qed
qed

lemma merge_sort_grows: "sorted_wrt grows (map snap_state (merge_sort xs))"
proof (cases "xs = []")
  case True
  then show ?thesis by (simp add: merge_sort_def)
next
  case False
  obtain ys a1 S1 where f: "priv_merge_sort xs 0 (len xs - 1) {} = (ys, a1, S1)"
    by (metis prod.exhaust)
  have "len a1 = len xs \<and> S1 = {} \<union> {0..len xs - 1} \<and>
        (\<forall>s\<in>set ys. intermediate (len xs) ''Merge sort complete'' s)"
    by (rule priv_merge_sort_shape[OF f]) (use False in \<open>auto simp: len_def\<close>)
  then have sh: "len a1 = len xs" "S1 = {0..len xs - 1}" by blast+
  have st: "steps grows (xs, {}) ys (a1, S1)"
    by (rule priv_merge_sort_steps[OF f, of "len xs"]) (use False in \<open>auto simp: len_def\<close>)
  have "steps grows (xs, {})
          (ys @ [priv_state a1 [] {0..<len xs} ''Merge sort complete'']) (a1, {0..<len xs})"
    using st unfolding sh(2)
    by (intro steps_grows_append[of _ _ "(a1, {0..len xs - 1})"] steps_grows_step) auto
  moreover from f sh(1) False
  have "merge_sort xs = ys @ [priv_state a1 [] {0..<len xs} ''Merge sort complete'']"
    by (simp add: merge_sort_def Let_def)
  ultimately show ?thesis by (simp add: steps_def)
qed


text \<open>
  In every engine a later snapshot records every index an earlier one records; in
  bubble, selection and quick sort the value at a recorded index is the same in every
  later snapshot.
\<close>

lemma sorted_wrt_frozen_grows:
  "sorted_wrt frozen xs \<Longrightarrow> sorted_wrt grows xs"
  by (rule sorted_wrt_mono_rel[of xs frozen grows]) (auto intro: frozen_grows)

lemma engines_grow:
  assumes "e \<in> set engines" "i \<le> j" "j < length (e xs)"
  shows "set (sorted_indices (e xs ! i)) \<subseteq> set (sorted_indices (e xs ! j))"
proof -
  from assms(1) have sw: "sorted_wrt grows (map snap_state (e xs))"
    using bubble_sort_frozen[of xs] selection_sort_frozen[of xs] quick_sort_frozen[of xs]
      insertion_sort_grows[of xs] merge_sort_grows[of xs]
    by (auto simp: engines_def intro: sorted_wrt_frozen_grows)
  show ?thesis
  proof (cases "i = j")
    case True
    then show ?thesis by simp
  next
    case False
    with assms(2) have "i < j" by simp
    with sw assms(3) have "grows (snap_state (e xs ! i)) (snap_state (e xs ! j))"
      by (simp add: sorted_wrt_iff_nth_less)
    then show ?thesis by (simp add: grows_def snap_state_def)
  qed
qed

lemma engines_frozen:
  assumes "e \<in> {bubble_sort, selection_sort, quick_sort}" "i \<le> j" "j < length (e xs)"
    "k \<in> set (sorted_indices (e xs ! i))"
  shows "k \<in> set (sorted_indices (e xs ! j)) \<and>
         getitem (array (e xs ! j)) k = getitem (array (e xs ! i)) k"
proof -
  from assms(1) have sw: "sorted_wrt frozen (map snap_state (e xs))"
    using bubble_sort_frozen[of xs] selection_sort_frozen[of xs] quick_sort_frozen[of xs]
    by auto
  show ?thesis
  proof (cases "i = j")
    case True
    with assms(4) show ?thesis by simp
  next
    case False
    with assms(2) have "i < j" by simp
    with sw assms(3) have "frozen (snap_state (e xs ! i)) (snap_state (e xs ! j))"
      by (simp add: sorted_wrt_iff_nth_less)
    with assms(4) show ?thesis by (auto simp: frozen_def snap_state_def)
  qed
qed

subsection \<open>When every index is recorded\<close>

text \<open>
  In bubble, insertion, selection and quick sort each recording adds an index that was
  not recorded before, so the set is complete only in the last two snapshots of a run:
  the one of the last recording and the completion snapshot.
\<close>

lemma reaches_Nil: "reaches S [] S"
  by (simp add: reaches_def)

lemma set_butlast_last: "ys \<noteq> [] \<Longrightarrow> set ys = insert (last ys) (set (butlast ys))"
  by (induction ys) auto

lemma reaches_append:
  assumes "reaches S ys S1" "reaches S1 zs S2"
  shows "reaches S (ys @ zs) S2"
proof (cases "ys = []")
  case True
  with assms(1) have "S1 = S" by (simp add: reaches_def)
  with assms(2) True show ?thesis by simp
next
  case ys: False
  show ?thesis
  proof (cases "zs = []")
    case True
    with assms(2) have "S2 = S1" by (simp add: reaches_def)
    with assms(1) True show ?thesis by simp
  next
    case zs: False
    from assms ys zs have a: "S \<subset> S1" "S1 \<subset> S2" "set (sorted_indices (last ys)) = S1"
      "set (sorted_indices (last zs)) = S2"
      "\<And>s. s \<in> set (butlast ys) \<Longrightarrow> S \<subseteq> set (sorted_indices s) \<and> set (sorted_indices s) \<subset> S1"
      "\<And>s. s \<in> set (butlast zs) \<Longrightarrow> S1 \<subseteq> set (sorted_indices s) \<and> set (sorted_indices s) \<subset> S2"
      by (simp_all add: reaches_def)
    have "S \<subseteq> set (sorted_indices s) \<and> set (sorted_indices s) \<subset> S2"
      if "s \<in> set (butlast (ys @ zs))" for s
    proof -
      from that zs have "s \<in> set ys \<or> s \<in> set (butlast zs)"
        by (simp add: butlast_append)
      with set_butlast_last[OF ys]
      have "s \<in> set (butlast ys) \<or> s = last ys \<or> s \<in> set (butlast zs)" by auto
      then show ?thesis
      proof (elim disjE)
        assume "s \<in> set (butlast ys)"
        from a(5)[OF this] a(2) show ?thesis by auto
      next
        assume "s = last ys"
        with a(1-3) show ?thesis by auto
      next
        assume "s \<in> set (butlast zs)"
        from a(6)[OF this] a(1) show ?thesis by auto
      qed
    qed
    moreover from a(1,2) have "S \<subset> S2" by auto
    ultimately show ?thesis using a(4) ys zs by (simp add: reaches_def)
  qed
qed

lemma reaches_final:
  assumes "\<forall>s\<in>set ys. set (sorted_indices s) = S" "S \<subset> S'" "set (sorted_indices t) = S'"
  shows "reaches S (ys @ [t]) S'"
  using assms by (auto simp: reaches_def)

lemma for_range_reaches:
  assumes "for_range j stop body st = (ys, st')"
    and "I j st"
    and "\<And>k s zs s'. j \<le> k \<Longrightarrow> k < stop \<Longrightarrow> I k s \<Longrightarrow> body k s = (zs, s') \<Longrightarrow>
           I (k + 1) s' \<and> reaches (snd s) zs (snd s')"
  shows "I (max j stop) st' \<and> reaches (snd st) ys (snd st')"
  using assms
proof (induction j stop body st arbitrary: ys st' rule: for_range.induct)
  case (1 j stop body st)
  show ?case
  proof (cases "j < stop")
    case False
    with "1.prems"(1) have "ys = []" "st' = st"
      by (simp_all add: for_range.simps)
    with False "1.prems"(2) show ?thesis by (simp add: max_def reaches_Nil)
  next
    case True
    obtain zs s1 where b: "body j st = (zs, s1)" by (cases "body j st")
    obtain ws s2 where r: "for_range (j + 1) stop body s1 = (ws, s2)"
      by (cases "for_range (j + 1) stop body s1")
    from "1.prems"(1) True b r have eq: "ys = zs @ ws" "st' = s2"
      by (simp_all add: for_range.simps)
    from "1.prems"(3)[OF _ True "1.prems"(2) b]
    have s: "I (j + 1) s1" "reaches (snd st) zs (snd s1)"
      by simp_all
    have t: "I (max (j + 1) stop) s2 \<and> reaches (snd s1) ws (snd s2)"
    proof (rule "1.IH"[OF True b[symmetric] r s(1)])
      fix k s zs' s'
      assume "j + 1 \<le> k" "k < stop" "I k s" "body k s = (zs', s')"
      then show "I (k + 1) s' \<and> reaches (snd s) zs' (snd s')"
        using "1.prems"(3)[of k s zs' s'] by simp
    qed
    from reaches_append[OF s(2)] t have "reaches (snd st) (zs @ ws) (snd s2)"
      by blast
    with True t eq show ?thesis by (auto simp: max_def)
  qed
qed

lemma reaches_not_full:
  assumes "reaches S ys S1" "S1 \<subseteq> F" "s \<in> set (butlast (butlast (ys @ [t])))"
  shows "set (sorted_indices s) \<subset> F"
proof -
  from assms(3) have "s \<in> set (butlast ys)" by simp
  then have "ys \<noteq> []" by auto
  with assms(1) \<open>s \<in> set (butlast ys)\<close> have "set (sorted_indices s) \<subset> S1"
    by (simp add: reaches_def)
  with assms(2) show ?thesis by auto
qed

lemma reaches_final_priv:
  "\<forall>s\<in>set ys. set (sorted_indices s) = S \<Longrightarrow> S \<subset> S' \<Longrightarrow> finite S' \<Longrightarrow>
   reaches S (ys @ [priv_state a hls S' d]) S'"
  using reaches_final[of ys S S' "priv_state a hls S' d"] set_sorted_priv_state[of S' a hls d]
  by blast

lemma bubble_body_sets:
  assumes "bubble_body S j arr = (zs, arr')" "finite S"
  shows "\<forall>s\<in>set zs. set (sorted_indices s) = S"
proof (cases "getitem arr j > getitem arr (j + 1)")
  case True
  from assms(1)[unfolded bubble_body_gt[OF True]] assms(2) show ?thesis by auto
next
  case False
  from assms(1)[unfolded bubble_body_le[OF False]] assms(2) show ?thesis by auto
qed

lemma bubble_pass_reaches:
  assumes "bubble_pass n i (arr, S) = (zs, (arr', S'))" "finite S" "\<forall>k\<in>S. n - i \<le> k"
  shows "reaches S zs S'"
proof -
  obtain ys a1 where f: "for_range 0 (n - i - 1) (bubble_body S) arr = (ys, a1)"
    by (metis prod.exhaust)
  have "True \<and> (\<forall>s\<in>set ys. set (sorted_indices s) = S)"
    by (rule for_range_rule[OF f, where I="\<lambda>j a. True"]) (use assms(2) bubble_body_sets in auto)
  then have inner: "\<forall>s\<in>set ys. set (sorted_indices s) = S" by simp
  from assms(1) f have eq: "S' = insert (n - i - 1) S"
    "zs = ys @ [priv_state a1 [(n - i - 1, SORTED)] (insert (n - i - 1) S)
                  (''Position '' @ str (n - i - 1) @ '' is sorted'')]"
    by (auto simp: bubble_pass_def Let_def)
  from assms(3) have "n - i - 1 \<notin> S" by auto
  then have "S \<subset> insert (n - i - 1) S" by auto
  with inner assms(2) show ?thesis unfolding eq by (intro reaches_final_priv) auto
qed

lemma bubble_sort_late:
  assumes "s \<in> set (butlast (butlast (bubble_sort xs)))"
  shows "set (sorted_indices s) \<subset> {0..<len xs}"
proof -
  define n where "n = len xs"
  obtain ys a1 S1 where f: "for_range 0 n (bubble_pass n) (xs, {}) = (ys, (a1, S1))"
    by (metis prod.exhaust)
  have r: "(case (a1, S1) of (a, S) \<Rightarrow> len a = n \<and> finite S \<and> (\<forall>k\<in>S. n - max 0 n \<le> k \<and> k < n)) \<and>
        reaches (snd (xs, {})) ys (snd (a1, S1))"
  proof (rule for_range_reaches[OF f, where I="\<lambda>i st. case st of (a, S) \<Rightarrow>
          len a = n \<and> finite S \<and> (\<forall>k\<in>S. n - i \<le> k \<and> k < n)"])
    show "case (xs, {}) of (a, S) \<Rightarrow> len a = n \<and> finite S \<and> (\<forall>k\<in>S. n - 0 \<le> k \<and> k < n)"
      by (simp add: n_def)
  next
    fix k s zs s'
    assume h: "0 \<le> k" "k < n"
      "case s of (a, S) \<Rightarrow> len a = n \<and> finite S \<and> (\<forall>k'\<in>S. n - k \<le> k' \<and> k' < n)"
      "bubble_pass n k s = (zs, s')"
    obtain a S where s: "s = (a, S)" by (cases s)
    obtain a' S' where s': "s' = (a', S')" by (cases s')
    from bubble_pass_steps[of n k a S zs a' S'] bubble_pass_reaches[of n k a S zs a' S'] h s s'
    show "(case s' of (a, S) \<Rightarrow> len a = n \<and> finite S \<and> (\<forall>k'\<in>S. n - (k + 1) \<le> k' \<and> k' < n)) \<and>
          reaches (snd s) zs (snd s')"
      by simp
  qed
  then have fin: "S1 \<subseteq> {0..<n}" "reaches {} ys S1"
    by (auto simp: n_def)
  from f have "bubble_sort xs = ys @ [priv_state a1 [] {0..<n} ''Bubble sort complete'']"
    by (simp add: bubble_sort_def Let_def n_def)
  with assms reaches_not_full[OF fin(2,1)] show ?thesis by (simp add: n_def)
qed

lemma selection_scan_sets:
  assumes "selection_scan arr S i j m = (zs, m')" "finite S"
  shows "\<forall>s\<in>set zs. set (sorted_indices s) = S"
proof (cases "getitem arr j < getitem arr m")
  case True
  with assms(1) have "zs = [priv_state arr [(m, PIVOT), (j, COMPARE)] S
                 (''Finding minimum from index '' @ str i @ '' onward''),
     priv_state arr [(j, PIVOT)] S (''New minimum at index '' @ str j)]"
    by (auto simp: selection_scan_def Let_def)
  with assms(2) show ?thesis by simp
next
  case False
  with assms(1) have "zs = [priv_state arr [(m, PIVOT), (j, COMPARE)] S
                 (''Finding minimum from index '' @ str i @ '' onward'')]"
    by (auto simp: selection_scan_def Let_def)
  with assms(2) show ?thesis by simp
qed

lemma selection_pass_reaches:
  assumes "selection_pass n i (arr, S) = (zs, (arr', S'))" "finite S" "\<forall>k\<in>S. k < i"
  shows "reaches S zs S'"
proof -
  obtain ys m where f: "for_range (i + 1) n (selection_scan arr S i) i = (ys, m)"
    by (metis prod.exhaust)
  have "True \<and> (\<forall>s\<in>set ys. set (sorted_indices s) = S)"
    by (rule for_range_rule[OF f, where I="\<lambda>j a. True"])
       (use assms(2) selection_scan_sets in auto)
  then have inner: "\<forall>s\<in>set ys. set (sorted_indices s) = S" by simp
  from assms(1) f have eq: "S' = insert i S"
    "zs = ys @ [priv_state (swap arr i m) [(i, SORTED), (m, SWAP)] (insert i S)
                        (''Swapped minimum into position '' @ str i)]"
    by (auto simp: selection_pass_def Let_def)
  from assms(3) have "i \<notin> S" by auto
  then have "S \<subset> insert i S" by auto
  with inner assms(2) show ?thesis unfolding eq by (intro reaches_final_priv) auto
qed

lemma selection_sort_late:
  assumes "s \<in> set (butlast (butlast (selection_sort xs)))"
  shows "set (sorted_indices s) \<subset> {0..<len xs}"
proof -
  define n where "n = len xs"
  obtain ys a1 S1 where f: "for_range 0 n (selection_pass n) (xs, {}) = (ys, (a1, S1))"
    by (metis prod.exhaust)
  have r: "(case (a1, S1) of (a, S) \<Rightarrow> len a = n \<and> finite S \<and> (\<forall>k\<in>S. 0 \<le> k \<and> k < max 0 n)) \<and>
        reaches (snd (xs, {})) ys (snd (a1, S1))"
  proof (rule for_range_reaches[OF f, where I="\<lambda>i st. case st of (a, S) \<Rightarrow>
          len a = n \<and> finite S \<and> (\<forall>k\<in>S. 0 \<le> k \<and> k < i)"])
    show "case (xs, {}) of (a, S) \<Rightarrow> len a = n \<and> finite S \<and> (\<forall>k\<in>S. 0 \<le> k \<and> k < 0)"
      by (simp add: n_def)
  next
    fix k s zs s'
    assume h: "0 \<le> k" "k < n"
      "case s of (a, S) \<Rightarrow> len a = n \<and> finite S \<and> (\<forall>k'\<in>S. 0 \<le> k' \<and> k' < k)"
      "selection_pass n k s = (zs, s')"
    obtain a S where s: "s = (a, S)" by (cases s)
    obtain a' S' where s': "s' = (a', S')" by (cases s')
    from selection_pass_steps[of n k a S zs a' S'] selection_pass_reaches[of n k a S zs a' S']
      h s s'
    show "(case s' of (a, S) \<Rightarrow> len a = n \<and> finite S \<and> (\<forall>k'\<in>S. 0 \<le> k' \<and> k' < k + 1)) \<and>
          reaches (snd s) zs (snd s')"
      by simp
  qed
  then have fin: "S1 \<subseteq> {0..<n}" "reaches {} ys S1"
    by (auto simp: n_def)
  from f have "selection_sort xs = ys @ [priv_state a1 [] {0..<n} ''Selection sort complete'']"
    by (simp add: selection_sort_def Let_def n_def)
  with assms reaches_not_full[OF fin(2,1)] show ?thesis by (simp add: n_def)
qed

lemma insertion_body_reaches:
  assumes "insertion_body i (arr, S) = (zs, (arr', S'))" "1 \<le> i" "finite S" "S \<subseteq> {0..<i}"
  shows "reaches S zs S' \<and> S' \<subseteq> {0..<i + 1}"
proof -
  obtain ys a1 j1 where w: "insertion_while S (getitem arr i) arr (i - 1) = (ys, a1, j1)"
    by (metis prod.exhaust)
  define ws where "ws = priv_state arr [(i, PIVOT)] S (''Selecting key at index '' @ str i) # ys"
  from assms(1) w have eq:
    "zs = ws @ [priv_state (setitem a1 (j1 + 1) (getitem arr i)) [(j1 + 1, SWAP)]
          (S \<union> set (py_range 0 (i + 1))) (''Inserted key at index '' @ str (j1 + 1))]"
    "S' = S \<union> set (py_range 0 (i + 1))"
    by (auto simp: insertion_body_def Let_def ws_def)
  have inner: "\<forall>s\<in>set ws. set (sorted_indices s) = S"
    using insertion_while_sets[OF w assms(3)] assms(3) by (simp add: ws_def)
  from assms(2,4) have "i \<notin> S" "i \<in> set (py_range 0 (i + 1))" by auto
  then have "S \<subset> S \<union> set (py_range 0 (i + 1))" by auto
  with inner assms(3) have "reaches S zs S'" unfolding eq by (intro reaches_final_priv) auto
  with eq(2) assms(4) show ?thesis by auto
qed

lemma insertion_sort_late:
  assumes "s \<in> set (butlast (butlast (insertion_sort xs)))"
  shows "set (sorted_indices s) \<subset> {0..<len xs}"
proof -
  obtain ys a1 S1 where f: "for_range 1 (len xs) insertion_body (xs, {}) = (ys, (a1, S1))"
    by (metis prod.exhaust)
  have r: "(case (a1, S1) of (a, S) \<Rightarrow> len a = len xs \<and> finite S \<and> S \<subseteq> {0..<len xs} \<and>
             S \<subseteq> {0..<max 1 (len xs)}) \<and>
        reaches (snd (xs, {})) ys (snd (a1, S1))"
  proof (rule for_range_reaches[OF f, where I="\<lambda>i st. case st of (a, S) \<Rightarrow>
          len a = len xs \<and> finite S \<and> S \<subseteq> {0..<len xs} \<and> S \<subseteq> {0..<i}"])
    show "case (xs, {}) of (a, S) \<Rightarrow> len a = len xs \<and> finite S \<and> S \<subseteq> {0..<len xs} \<and> S \<subseteq> {0..<1}"
      by simp
  next
    fix k s zs s'
    assume h: "1 \<le> k" "k < len xs"
      "case s of (a, S) \<Rightarrow> len a = len xs \<and> finite S \<and> S \<subseteq> {0..<len xs} \<and> S \<subseteq> {0..<k}"
      "insertion_body k s = (zs, s')"
    obtain a S where s: "s = (a, S)" by (cases s)
    obtain a' S' where s': "s' = (a', S')" by (cases s')
    from insertion_body_shape[of k a S zs a' S' "len xs"]
      insertion_body_reaches[of k a S zs a' S'] h s s'
    show "(case s' of (a, S) \<Rightarrow> len a = len xs \<and> finite S \<and> S \<subseteq> {0..<len xs} \<and>
             S \<subseteq> {0..<k + 1}) \<and>
          reaches (snd s) zs (snd s')"
      by simp
  qed
  then have fin: "len a1 = len xs" "S1 \<subseteq> {0..<len xs}" "reaches {} ys S1"
    by auto
  from f fin(1)
  have "insertion_sort xs = ys @ [priv_state a1 [] {0..<len xs} ''Insertion sort complete'']"
    by (simp add: insertion_sort_def Let_def)
  with assms reaches_not_full[OF fin(3,2)] show ?thesis by simp
qed

lemma partition_body_sets:
  assumes "partition_body S high pivot j (arr, i) = (zs, st)" "finite S"
  shows "\<forall>s\<in>set zs. set (sorted_indices s) = S"
proof (cases "getitem arr j \<le> pivot")
  case True
  with assms(1) have "zs = [priv_state arr [(j, COMPARE), (high, PIVOT)] S
                    (''Comparing index '' @ str j @ '' with pivot''),
     priv_state (swap arr (i + 1) j) [(i + 1, SWAP), (j, SWAP)] S
                          (''Swapped indices '' @ str (i + 1) @ '' and '' @ str j)]"
    by (auto simp: partition_body_def Let_def)
  with assms(2) show ?thesis by simp
next
  case False
  with assms(1) have "zs = [priv_state arr [(j, COMPARE), (high, PIVOT)] S
                    (''Comparing index '' @ str j @ '' with pivot'')]"
    by (auto simp: partition_body_def Let_def)
  with assms(2) show ?thesis by simp
qed

lemma partition_reaches:
  assumes "lomuto_partition arr low high S = (zs, arr2, p, S1)" "finite S" "p \<notin> S"
  shows "reaches S zs S1"
proof -
  obtain ys a1 i1 where
    f: "for_range low high (partition_body S high (getitem arr high)) (arr, low - 1) = (ys, (a1, i1))"
    by (metis prod.exhaust)
  have "True \<and> (\<forall>s\<in>set ys. set (sorted_indices s) = S)"
  proof (rule for_range_rule[OF f, where I="\<lambda>j a. True"])
    fix k s zs' s'
    assume h: "partition_body S high (getitem arr high) k s = (zs', s')"
    obtain a i where s: "s = (a, i)" by (cases s)
    from partition_body_sets[OF h[unfolded s] assms(2)]
    show "True \<and> (\<forall>y\<in>set zs'. set (sorted_indices y) = S)" by simp
  qed simp
  then have inner: "\<forall>s\<in>set ys. set (sorted_indices s) = S" by simp
  define ws where "ws = priv_state arr [(high, PIVOT)] S (''Pivot chosen at index '' @ str high) # ys"
  from assms(1) f have eq: "zs = ws @
      [priv_state (swap a1 (i1 + 1) high) [(i1 + 1, SORTED)] (insert (i1 + 1) S)
                               (''Pivot settled at index '' @ str (i1 + 1))]"
    "p = i1 + 1" "S1 = insert (i1 + 1) S"
    by (auto simp: lomuto_partition_def Let_def ws_def)
  from inner assms(2) have "\<forall>s\<in>set ws. set (sorted_indices s) = S" by (simp add: ws_def)
  moreover from assms(3) eq(2) have "S \<subset> insert (i1 + 1) S" by auto
  ultimately show ?thesis unfolding eq using assms(2) by (intro reaches_final_priv) auto
qed

lemma priv_quick_sort_reaches:
  assumes "priv_quick_sort arr low high S = (zs, arr', S')"
    "0 \<le> low" "high < n" "len arr = n" "finite S"
    "\<forall>k\<in>S. 0 \<le> k \<and> k < n \<and> (k < low \<or> high < k)"
  shows "reaches S zs S'"
  using assms
proof (induction arr low high S arbitrary: zs arr' S' rule: priv_quick_sort.induct)
  case (1 arr low high S)
  note run = "1.prems"(1)[unfolded priv_quick_sort.simps[of arr low high S]]
  have sub: "S \<subseteq> {0..<n}" using "1.prems"(6) by auto
  show ?case
  proof (cases "low \<ge> high")
    case True
    show ?thesis
    proof (cases "low = high")
      case eq: True
      from run eq have r: "zs = [] @ [priv_state arr [(low, SORTED)] (insert low S)
                            (''Index '' @ str low @ '' is sorted'')]" "S' = insert low S"
        by (auto simp: Let_def)
      from "1.prems"(6) eq have "low \<notin> S" by auto
      then have "S \<subset> insert low S" by auto
      then show ?thesis unfolding r using "1.prems"(5) by (intro reaches_final_priv) auto
    next
      case False
      with True run have "zs = []" "S' = S"
        by auto
      then show ?thesis by (simp add: reaches_Nil)
    qed
  next
    case False
    obtain ys arr2 p S1 where pt: "lomuto_partition arr low high S = (ys, arr2, p, S1)"
      by (metis prod.exhaust)
    obtain ls arr3 S2 where l: "priv_quick_sort arr2 low (p - 1) S1 = (ls, arr3, S2)"
      by (metis prod.exhaust)
    obtain rs arr4 S3 where r: "priv_quick_sort arr3 (p + 1) high S2 = (rs, arr4, S3)"
      by (metis prod.exhaust)
    from run False pt l r have eq: "zs = ys @ ls @ rs" "S' = S3"
      by auto
    from partition_shape[OF pt, of n] False "1.prems"(2-5) sub
    have ps: "len arr2 = n" "low \<le> p" "p \<le> high" "S1 = insert p S"
      by simp_all
    from ps(2,3) "1.prems"(6) have "p \<notin> S" by auto
    then have s1: "reaches S ys S1"
      using partition_reaches[OF pt "1.prems"(5)] by simp
    have S1: "finite S1" "S1 \<subseteq> {0..<n}"
      "\<forall>k\<in>S1. 0 \<le> k \<and> k < n \<and> (k < low \<or> p - 1 < k)"
      using ps "1.prems"(2-) by auto
    from priv_quick_sort_shape[OF l, of n] ps S1 "1.prems"(2,3)
    have ls: "len arr3 = n" "S2 = S1 \<union> {low..p - 1}" by simp_all
    have s2: "reaches S1 ls S2"
    proof (rule "1.IH"(1)[OF False pt[symmetric] refl refl l])
      show "0 \<le> low" "len arr2 = n" "finite S1"
        "\<forall>k\<in>S1. 0 \<le> k \<and> k < n \<and> (k < low \<or> p - 1 < k)"
        using ps S1 "1.prems"(2) by simp_all
      show "p - 1 < n" using ps "1.prems"(3) by simp
    qed
    have S2: "finite S2" "\<forall>k\<in>S2. 0 \<le> k \<and> k < n \<and> (k < p + 1 \<or> high < k)"
      using ls S1 ps "1.prems"(2-) by auto
    have s3: "reaches S2 rs S3"
    proof (rule "1.IH"(2)[OF False pt[symmetric] refl refl l[symmetric] refl r])
      show "0 \<le> p + 1" "high < n" "len arr3 = n" "finite S2"
        "\<forall>k\<in>S2. 0 \<le> k \<and> k < n \<and> (k < p + 1 \<or> high < k)"
        using ps S2 ls "1.prems"(2,3) by simp_all
    qed
    from s1 s2 s3 show ?thesis unfolding eq
      by (intro reaches_append[of _ _ S1] reaches_append[of _ _ S2])
  qed
qed

lemma quick_sort_late:
  assumes "s \<in> set (butlast (butlast (quick_sort xs)))"
  shows "set (sorted_indices s) \<subset> {0..<len xs}"
proof -
  obtain ys a1 S1 where f: "priv_quick_sort xs 0 (len xs - 1) {} = (ys, a1, S1)"
    by (metis prod.exhaust)
  have "len a1 = len xs \<and> S1 = {} \<union> {0..len xs - 1} \<and>
        (\<forall>s\<in>set ys. intermediate (len xs) ''Quick sort complete'' s)"
    by (rule priv_quick_sort_shape[OF f]) simp_all
  then have sh: "len a1 = len xs" "S1 = {0..len xs - 1}" by blast+
  have st: "reaches {} ys S1"
    by (rule priv_quick_sort_reaches[OF f, of "len xs"]) simp_all
  from sh(2) have sub: "S1 \<subseteq> {0..<len xs}" by auto
  from f sh(1)
  have "quick_sort xs = ys @ [priv_state a1 [] {0..<len xs} ''Quick sort complete'']"
    by (simp add: quick_sort_def Let_def)
  with assms reaches_not_full[OF st sub] show ?thesis by simp
qed

lemma engines_full_late:
  assumes "e \<in> {bubble_sort, insertion_sort, selection_sort, quick_sort}"
    "s \<in> set (butlast (butlast (e xs)))"
  shows "set (sorted_indices s) \<subset> {0..<len xs}"
  using assms bubble_sort_late[of s xs] insertion_sort_late[of s xs]
    selection_sort_late[of s xs] quick_sort_late[of s xs]
  by blast
section \<open>Runs on concrete inputs\<close>

text \<open>
  C8: on the input \<open>[5, 1]\<close> bubble sort yields five snapshots: the COMPARE snapshot of
  the pair \<open>(0, 1)\<close>, then, as a snapshot of its own, the SWAP snapshot of that pair, the
  two SORTED snapshots, and the completion snapshot with the array \<open>[1, 5]\<close> and both
  indices sorted.
\<close>

theorem bubble_sort_5_1:
  "bubble_sort [5, 1] =
     [\<lparr>array = [5, 1], highlights = [(0, COMPARE), (1, COMPARE)], sorted_indices = [],
         description = ''Comparing indices 0 and 1''\<rparr>,
      \<lparr>array = [1, 5], highlights = [(0, SWAP), (1, SWAP)], sorted_indices = [],
         description = ''Swapped indices 0 and 1''\<rparr>,
      \<lparr>array = [1, 5], highlights = [(1, SORTED)], sorted_indices = [1],
         description = ''Position 1 is sorted''\<rparr>,
      \<lparr>array = [1, 5], highlights = [(0, SORTED)], sorted_indices = [0, 1],
         description = ''Position 0 is sorted''\<rparr>,
      \<lparr>array = [1, 5], highlights = [], sorted_indices = [0, 1],
         description = ''Bubble sort complete''\<rparr>]"
  by code_simp

text \<open>Every engine ends with the yield of its completion snapshot.\<close>

lemma engines_nonempty:
  "bubble_sort xs \<noteq> []" "insertion_sort xs \<noteq> []" "selection_sort xs \<noteq> []"
  "quick_sort xs \<noteq> []" "merge_sort ys \<noteq> []"
  by (simp_all add: bubble_sort_def insertion_sort_def selection_sort_def quick_sort_def
      merge_sort_def Let_def split: prod.splits)

text \<open>
  C7: on the empty input every engine yields exactly one snapshot, the completion
  snapshot with the empty array and no sorted index; on \<open>[7]\<close> the last snapshot of every
  engine is the completion snapshot with the array \<open>[7]\<close> and the sorted indices \<open>{0}\<close>;
  and no engine yields an empty sequence, whatever the input.
\<close>

theorem empty_and_singleton_runs:
  "bubble_sort [] = [\<lparr>array = [], highlights = [], sorted_indices = [],
                       description = ''Bubble sort complete''\<rparr>] \<and>
   insertion_sort [] = [\<lparr>array = [], highlights = [], sorted_indices = [],
                          description = ''Insertion sort complete''\<rparr>] \<and>
   selection_sort [] = [\<lparr>array = [], highlights = [], sorted_indices = [],
                          description = ''Selection sort complete''\<rparr>] \<and>
   quick_sort [] = [\<lparr>array = [], highlights = [], sorted_indices = [],
                      description = ''Quick sort complete''\<rparr>] \<and>
   merge_sort ([] :: int list) = [\<lparr>array = [], highlights = [], sorted_indices = [],
                      description = ''Merge sort complete''\<rparr>] \<and>
   last (bubble_sort [7]) = \<lparr>array = [7], highlights = [], sorted_indices = [0],
                              description = ''Bubble sort complete''\<rparr> \<and>
   last (insertion_sort [7]) = \<lparr>array = [7], highlights = [], sorted_indices = [0],
                                 description = ''Insertion sort complete''\<rparr> \<and>
   last (selection_sort [7]) = \<lparr>array = [7], highlights = [], sorted_indices = [0],
                                 description = ''Selection sort complete''\<rparr> \<and>
   last (quick_sort [7]) = \<lparr>array = [7], highlights = [], sorted_indices = [0],
                             description = ''Quick sort complete''\<rparr> \<and>
   last (merge_sort [7 :: int]) = \<lparr>array = [7], highlights = [], sorted_indices = [0],
                             description = ''Merge sort complete''\<rparr> \<and>
   (\<forall>xs. bubble_sort xs \<noteq> []) \<and> (\<forall>xs. insertion_sort xs \<noteq> []) \<and>
   (\<forall>xs. selection_sort xs \<noteq> []) \<and> (\<forall>xs. quick_sort xs \<noteq> []) \<and>
   (\<forall>xs :: int list. merge_sort xs \<noteq> [])"
proof -
  have e: "bubble_sort [] = [\<lparr>array = [], highlights = [], sorted_indices = [],
                       description = ''Bubble sort complete''\<rparr>]"
   "insertion_sort [] = [\<lparr>array = [], highlights = [], sorted_indices = [],
                          description = ''Insertion sort complete''\<rparr>]"
   "selection_sort [] = [\<lparr>array = [], highlights = [], sorted_indices = [],
                          description = ''Selection sort complete''\<rparr>]"
   "quick_sort [] = [\<lparr>array = [], highlights = [], sorted_indices = [],
                      description = ''Quick sort complete''\<rparr>]"
   "merge_sort ([] :: int list) = [\<lparr>array = [], highlights = [], sorted_indices = [],
                      description = ''Merge sort complete''\<rparr>]"
    by code_simp+
  have s: "last (bubble_sort [7]) = \<lparr>array = [7], highlights = [], sorted_indices = [0],
                              description = ''Bubble sort complete''\<rparr>"
   "last (insertion_sort [7]) = \<lparr>array = [7], highlights = [], sorted_indices = [0],
                                 description = ''Insertion sort complete''\<rparr>"
   "last (selection_sort [7]) = \<lparr>array = [7], highlights = [], sorted_indices = [0],
                                 description = ''Selection sort complete''\<rparr>"
   "last (quick_sort [7]) = \<lparr>array = [7], highlights = [], sorted_indices = [0],
                             description = ''Quick sort complete''\<rparr>"
   "last (merge_sort [7 :: int]) = \<lparr>array = [7], highlights = [], sorted_indices = [0],
                             description = ''Merge sort complete''\<rparr>"
    by code_simp+
  from e s engines_nonempty show ?thesis by blast
qed

section \<open>Indices recorded as sorted before they are final\<close>

text \<open>
  C2 (the code departs from the claim): insertion sort records the indices \<open>0..i\<close> as
  sorted after every insertion, and merge sort records an index at the base case of the
  recursion, before any merge. On \<open>[2, 3, 1]\<close> the second snapshot of insertion sort has
  index \<open>0\<close> among the sorted indices with the value \<open>2\<close> there, and the eighth has the
  value \<open>1\<close> there; on \<open>[2, 1]\<close> the first snapshot of merge sort has index \<open>0\<close> sorted
  with the value \<open>2\<close>, and the fourth has the value \<open>1\<close> there. The membership
  half of the claim holds in every engine (\<open>engines_grow\<close>), and bubble, selection and
  quick sort keep the value at a recorded index as well (\<open>engines_frozen\<close>).
\<close>

theorem finalized_value_changes:
  "0 \<in> set (sorted_indices (insertion_sort [2, 3, 1] ! 1)) \<and>
   array (insertion_sort [2, 3, 1] ! 1) = [2, 3, 1] \<and>
   array (insertion_sort [2, 3, 1] ! 7) = [1, 2, 3] \<and>
   0 \<in> set (sorted_indices (merge_sort [2, 1 :: int] ! 0)) \<and>
   array (merge_sort [2, 1 :: int] ! 0) = [2, 1] \<and>
   array (merge_sort [2, 1 :: int] ! 3) = [1, 1]"
  by code_simp

text \<open>
  C3 (the code departs from the claim): on \<open>[2, 1]\<close> merge sort yields seven
  snapshots; the second already has every index among the sorted indices, with the array
  still \<open>[2, 1]\<close>, and the array is sorted only by the merge that follows. The set
  never shrinks in any engine (\<open>engines_grow\<close>), and in bubble, insertion, selection
  and quick sort it is complete in the last two snapshots only (\<open>engines_full_late\<close>).
\<close>

theorem merge_sort_early_full_coverage:
  "length (merge_sort [2, 1 :: int]) = 7 \<and>
   sorted_indices (merge_sort [2, 1 :: int] ! 1) = [0, 1] \<and>
   array (merge_sort [2, 1 :: int] ! 1) = [2, 1] \<and>
   array (last (merge_sort [2, 1 :: int])) = [1, 2]"
  by code_simp

section \<open>Quick sort sorts\<close>

lemma same_outside_refl [simp]: "same_outside arr arr low high"
  by (simp add: same_outside_def)

lemma values_from_refl [simp]: "values_from arr arr low high"
  by (auto simp: values_from_def)

lemma same_outside_swap:
  assumes "same_outside arr a low high" "0 \<le> low" "low \<le> x" "x \<le> high" "low \<le> y" "y \<le> high"
    "high < len a"
  shows "same_outside arr (swap a x y) low high"
  using assms by (auto simp: same_outside_def getitem_swap)

lemma values_from_swap:
  assumes "values_from arr a low high" "0 \<le> low" "low \<le> x" "x \<le> high" "low \<le> y" "y \<le> high"
    "high < len a"
  shows "values_from arr (swap a x y) low high"
  unfolding values_from_def
proof (intro allI impI)
  fix k assume k: "low \<le> k \<and> k \<le> high"
  have g: "getitem (swap a x y) k =
     (if k = y then getitem a x else if k = x then getitem a y else getitem a k)"
    using assms k by (intro getitem_swap) auto
  from assms(1) have v: "\<And>m. low \<le> m \<Longrightarrow> m \<le> high \<Longrightarrow>
      \<exists>k'. low \<le> k' \<and> k' \<le> high \<and> getitem a m = getitem arr k'"
    by (auto simp: values_from_def)
  from v[of x] v[of y] v[of k] assms k g
  show "\<exists>k'. low \<le> k' \<and> k' \<le> high \<and> getitem (swap a x y) k = getitem arr k'"
    by (auto split: if_splits)
qed

lemma partition_body_inv:
  assumes b: "partition_body S high pivot j (a, i) = (zs, st')"
    and inv: "part_inv arr low high pivot j (a, i)"
    and bounds: "0 \<le> low" "low \<le> j" "j < high" "high < len arr"
  shows "part_inv arr low high pivot (j + 1) st'"
proof -
  from inv have i: "len a = len arr" "mset a = mset arr" "low - 1 \<le> i" "i < j"
    "getitem a high = pivot"
    "\<And>k. low \<le> k \<Longrightarrow> k \<le> i \<Longrightarrow> getitem a k \<le> pivot"
    "\<And>k. i < k \<Longrightarrow> k < j \<Longrightarrow> pivot < getitem a k"
    "same_outside arr a low high" "values_from arr a low high"
    by (auto simp: part_inv_def)
  show ?thesis
  proof (cases "getitem a j \<le> pivot")
    case False
    with b have st: "st' = (a, i)" by (auto simp: partition_body_def Let_def)
    have "\<And>k. i < k \<Longrightarrow> k < j + 1 \<Longrightarrow> pivot < getitem a k"
    proof -
      fix k assume "i < k" "k < j + 1"
      then consider "k < j" | "k = j" by linarith
      then show "pivot < getitem a k"
        using i(7)[of k] \<open>i < k\<close> False by cases auto
    qed
    with i st show ?thesis by (auto simp: part_inv_def)
  next
    case True
    with b have st: "st' = (swap a (i + 1) j, i + 1)"
      by (auto simp: partition_body_def Let_def)
    define a' where "a' = swap a (i + 1) j"
    have g: "\<And>k. 0 \<le> k \<Longrightarrow> getitem a' k =
       (if k = j then getitem a (i + 1) else if k = i + 1 then getitem a j else getitem a k)"
      unfolding a'_def using i(1,3,4) bounds by (intro getitem_swap) auto
    have 1: "len a' = len arr" "mset a' = mset arr"
      unfolding a'_def using i(1-4) bounds by (simp_all add: mset_swap_int)
    have 2: "getitem a' high = pivot"
      using g[of high] i(3,4,5) bounds by auto
    have 3: "\<And>k. low \<le> k \<Longrightarrow> k \<le> i + 1 \<Longrightarrow> getitem a' k \<le> pivot"
    proof -
      fix k assume k: "low \<le> k" "k \<le> i + 1"
      then consider "k \<le> i" | "k = i + 1" by linarith
      then show "getitem a' k \<le> pivot"
      proof cases
        case 1
        with k g[of k] i(6)[of k] i(4) bounds show ?thesis by auto
      next
        case 2
        with k g[of k] True bounds show ?thesis by auto
      qed
    qed
    have 4: "\<And>k. i + 1 < k \<Longrightarrow> k < j + 1 \<Longrightarrow> pivot < getitem a' k"
    proof -
      fix k assume k: "i + 1 < k" "k < j + 1"
      then consider "k < j" | "k = j" by linarith
      then show "pivot < getitem a' k"
      proof cases
        case 1
        with k g[of k] i(7)[of k] i(3) bounds show ?thesis by auto
      next
        case 2
        with k g[of k] i(7)[of "i + 1"] i(3) bounds show ?thesis by auto
      qed
    qed
    have 5: "same_outside arr a' low high" "values_from arr a' low high"
      unfolding a'_def using i bounds
      by (auto intro!: same_outside_swap values_from_swap)
    from 1 2 3 4 5 i(3,4) st show ?thesis
      by (auto simp: part_inv_def a'_def)
  qed
qed

lemma partition_post:
  assumes pt: "lomuto_partition arr low high S = (zs, arr2, p, S1)"
    and bounds: "0 \<le> low" "low < high" "high < len arr"
  shows "len arr2 = len arr" "mset arr2 = mset arr" "low \<le> p" "p \<le> high"
    "getitem arr2 p = getitem arr high"
    "\<forall>k. low \<le> k \<and> k < p \<longrightarrow> getitem arr2 k \<le> getitem arr high"
    "\<forall>k. p < k \<and> k \<le> high \<longrightarrow> getitem arr high < getitem arr2 k"
    "same_outside arr arr2 low high" "values_from arr arr2 low high"
proof -
  define pivot where "pivot = getitem arr high"
  obtain ys a1 i1 where
    f: "for_range low high (partition_body S high pivot) (arr, low - 1) = (ys, (a1, i1))"
    by (metis prod.exhaust)
  have "part_inv arr low high pivot (max low high) (a1, i1) \<and> (\<forall>y\<in>set ys. True)"
  proof (rule for_range_rule[OF f, where I="part_inv arr low high pivot"])
    show "part_inv arr low high pivot low (arr, low - 1)"
      by (simp add: part_inv_def pivot_def)
  next
    fix k s zs' s'
    assume h: "low \<le> k" "k < high" "part_inv arr low high pivot k s"
      "partition_body S high pivot k s = (zs', s')"
    obtain a i where s: "s = (a, i)" by (cases s)
    from partition_body_inv[OF h(4)[unfolded s] h(3)[unfolded s] bounds(1) h(1,2) bounds(3)]
    show "part_inv arr low high pivot (k + 1) s' \<and> (\<forall>y\<in>set zs'. True)" by simp
  qed
  with bounds have "part_inv arr low high pivot high (a1, i1)" by (simp add: max_def)
  then have i: "len a1 = len arr" "mset a1 = mset arr" "low - 1 \<le> i1" "i1 < high"
    "getitem a1 high = pivot"
    "\<And>k. low \<le> k \<Longrightarrow> k \<le> i1 \<Longrightarrow> getitem a1 k \<le> pivot"
    "\<And>k. i1 < k \<Longrightarrow> k < high \<Longrightarrow> pivot < getitem a1 k"
    "same_outside arr a1 low high" "values_from arr a1 low high"
    by (auto simp: part_inv_def)
  from pt f have eq: "arr2 = swap a1 (i1 + 1) high" "p = i1 + 1"
    by (auto simp: lomuto_partition_def Let_def pivot_def)
  have g: "\<And>k. 0 \<le> k \<Longrightarrow> getitem arr2 k =
     (if k = high then getitem a1 (i1 + 1) else if k = i1 + 1 then getitem a1 high else getitem a1 k)"
    unfolding eq using i(1,3,4) bounds by (intro getitem_swap) auto
  show "len arr2 = len arr" "mset arr2 = mset arr" "low \<le> p" "p \<le> high"
    unfolding eq using i(1-4) bounds by (simp_all add: mset_swap_int)
  show "getitem arr2 p = getitem arr high"
    using g[of p] i(3,5) bounds eq by (auto simp: pivot_def)
  show "\<forall>k. low \<le> k \<and> k < p \<longrightarrow> getitem arr2 k \<le> getitem arr high"
  proof (intro allI impI)
    fix k assume "low \<le> k \<and> k < p"
    with g[of k] i(6)[of k] i(4) bounds eq show "getitem arr2 k \<le> getitem arr high"
      by (auto simp: pivot_def)
  qed
  show "\<forall>k. p < k \<and> k \<le> high \<longrightarrow> getitem arr high < getitem arr2 k"
  proof (intro allI impI)
    fix k assume k: "p < k \<and> k \<le> high"
    then consider "k < high" | "k = high" by linarith
    then show "getitem arr high < getitem arr2 k"
    proof cases
      case 1
      with k g[of k] i(7)[of k] i(3) bounds eq show ?thesis by (auto simp: pivot_def)
    next
      case 2
      with k g[of k] i(7)[of "i1 + 1"] i(3) bounds eq show ?thesis by (auto simp: pivot_def)
    qed
  qed
  show "same_outside arr arr2 low high" "values_from arr arr2 low high"
    unfolding eq using i bounds by (auto intro!: same_outside_swap values_from_swap)
qed

lemma values_fromD:
  "values_from arr a low high \<Longrightarrow> low \<le> k \<Longrightarrow> k \<le> high \<Longrightarrow>
   \<exists>k'. low \<le> k' \<and> k' \<le> high \<and> getitem a k = getitem arr k'"
  by (simp add: values_from_def)

lemma same_outside_trans:
  "same_outside arr a low high \<Longrightarrow> same_outside a b l h \<Longrightarrow> low \<le> l \<Longrightarrow> h \<le> high \<Longrightarrow>
   same_outside arr b low high"
  by (auto simp: same_outside_def)

lemma values_from_sub:
  assumes "values_from a b l h" "same_outside a b l h" "low \<le> l" "h \<le> high" "0 \<le> low"
  shows "values_from a b low high"
  unfolding values_from_def
proof (intro allI impI)
  fix k assume k: "low \<le> k \<and> k \<le> high"
  show "\<exists>k'. low \<le> k' \<and> k' \<le> high \<and> getitem b k = getitem a k'"
  proof (cases "l \<le> k \<and> k \<le> h")
    case True
    with assms(1) obtain k' where "l \<le> k'" "k' \<le> h" "getitem b k = getitem a k'"
      by (auto simp: values_from_def)
    with assms(3,4) show ?thesis by (intro exI[of _ k']) auto
  next
    case False
    with assms(2,5) k have "getitem b k = getitem a k" by (auto simp: same_outside_def)
    with k show ?thesis by (intro exI[of _ k]) auto
  qed
qed

lemma values_from_trans:
  assumes "values_from arr a low high" "values_from a b low high"
  shows "values_from arr b low high"
  unfolding values_from_def
proof (intro allI impI)
  fix k assume "low \<le> k \<and> k \<le> high"
  with assms(2) obtain k1 where "low \<le> k1" "k1 \<le> high" "getitem b k = getitem a k1"
    by (auto simp: values_from_def)
  moreover with assms(1) obtain k2 where "low \<le> k2" "k2 \<le> high" "getitem a k1 = getitem arr k2"
    by (auto simp: values_from_def)
  ultimately show "\<exists>k'. low \<le> k' \<and> k' \<le> high \<and> getitem b k = getitem arr k'"
    by (intro exI[of _ k2]) auto
qed

lemma priv_quick_sort_sorts:
  assumes "priv_quick_sort arr low high S = (zs, arr', S')" "0 \<le> low" "high < len arr"
  shows "len arr' = len arr \<and> mset arr' = mset arr \<and> same_outside arr arr' low high \<and>
         values_from arr arr' low high \<and> sorted_between arr' low high"
  using assms
proof (induction arr low high S arbitrary: zs arr' S' rule: priv_quick_sort.induct)
  case (1 arr low high S)
  note run = "1.prems"(1)[unfolded priv_quick_sort.simps[of arr low high S]]
  show ?case
  proof (cases "low \<ge> high")
    case True
    with run have "arr' = arr" by (auto simp: Let_def split: if_splits)
    moreover have "sorted_between arr low high"
      unfolding sorted_between_def
    proof (intro allI impI)
      fix k l assume "low \<le> k \<and> k \<le> l \<and> l \<le> high"
      with True have "k = l" by linarith
      then show "getitem arr k \<le> getitem arr l" by simp
    qed
    ultimately show ?thesis by simp
  next
    case False
    obtain ys arr2 p S1 where pt: "lomuto_partition arr low high S = (ys, arr2, p, S1)"
      by (metis prod.exhaust)
    obtain ls arr3 S2 where l: "priv_quick_sort arr2 low (p - 1) S1 = (ls, arr3, S2)"
      by (metis prod.exhaust)
    obtain rs arr4 S3 where r: "priv_quick_sort arr3 (p + 1) high S2 = (rs, arr4, S3)"
      by (metis prod.exhaust)
    from run False pt l r have eq: "arr' = arr4" by auto
    from False "1.prems"(2,3) have b: "0 \<le> low" "low < high" "high < len arr" by auto
    note ps = partition_post[OF pt b]
    have ihl: "len arr3 = len arr2 \<and> mset arr3 = mset arr2 \<and> same_outside arr2 arr3 low (p - 1) \<and>
         values_from arr2 arr3 low (p - 1) \<and> sorted_between arr3 low (p - 1)"
      by (rule "1.IH"(1)[OF False pt[symmetric] refl refl l]) (use ps b in auto)
    have ihr: "len arr4 = len arr3 \<and> mset arr4 = mset arr3 \<and> same_outside arr3 arr4 (p + 1) high \<and>
         values_from arr3 arr4 (p + 1) high \<and> sorted_between arr4 (p + 1) high"
      by (rule "1.IH"(2)[OF False pt[symmetric] refl refl l[symmetric] refl r])
         (use ps b ihl in auto)
    from ihl have l3: "len arr3 = len arr2" "mset arr3 = mset arr2"
      "same_outside arr2 arr3 low (p - 1)" "values_from arr2 arr3 low (p - 1)"
      "sorted_between arr3 low (p - 1)" by simp_all
    from ihr have r4: "len arr4 = len arr3" "mset arr4 = mset arr3"
      "same_outside arr3 arr4 (p + 1) high" "values_from arr3 arr4 (p + 1) high"
      "sorted_between arr4 (p + 1) high" by simp_all
    define pivot where "pivot = getitem arr high"
    have so3: "\<And>k. 0 \<le> k \<Longrightarrow> k < low \<or> p - 1 < k \<Longrightarrow> getitem arr3 k = getitem arr2 k"
      using l3(3) by (auto simp: same_outside_def)
    have so4: "\<And>k. 0 \<le> k \<Longrightarrow> k < p + 1 \<or> high < k \<Longrightarrow> getitem arr4 k = getitem arr3 k"
      using r4(3) by (auto simp: same_outside_def)
    have left3: "\<And>k. low \<le> k \<Longrightarrow> k < p \<Longrightarrow> getitem arr3 k \<le> pivot"
    proof -
      fix k assume k: "low \<le> k" "k < p"
      then have "k \<le> p - 1" by simp
      from values_fromD[OF l3(4) k(1) this]
      obtain k' where "low \<le> k'" "k' \<le> p - 1" "getitem arr3 k = getitem arr2 k'"
        by blast
      with ps(6) show "getitem arr3 k \<le> pivot" by (auto simp: pivot_def)
    qed
    have right4: "\<And>k. p < k \<Longrightarrow> k \<le> high \<Longrightarrow> pivot < getitem arr4 k"
    proof -
      fix k assume k: "p < k" "k \<le> high"
      then have "p + 1 \<le> k" by simp
      from values_fromD[OF r4(4) this k(2)]
      obtain k' where k': "p + 1 \<le> k'" "k' \<le> high" "getitem arr4 k = getitem arr3 k'"
        by blast
      with so3[of k'] b ps(3) have "getitem arr3 k' = getitem arr2 k'" by auto
      with k' ps(7) show "pivot < getitem arr4 k" by (auto simp: pivot_def)
    qed
    have mid4: "getitem arr4 p = pivot"
      using so4[of p] so3[of p] ps(3,5) b by (auto simp: pivot_def)
    have left4: "\<And>k. low \<le> k \<Longrightarrow> k < p \<Longrightarrow> getitem arr4 k = getitem arr3 k"
      using so4 b by auto
    have sorted: "sorted_between arr4 low high"
      unfolding sorted_between_def
    proof (intro allI impI)
      fix k m assume km: "low \<le> k \<and> k \<le> m \<and> m \<le> high"
      consider "m < p" | "k < p" "m = p" | "k < p" "p < m" | "k = p" "m = p"
        | "k = p" "p < m" | "p < k"
        using km by linarith
      then show "getitem arr4 k \<le> getitem arr4 m"
      proof cases
        case 1
        with km l3(5) have "getitem arr3 k \<le> getitem arr3 m" by (auto simp: sorted_between_def)
        with 1 km left4[of k] left4[of m] show ?thesis by auto
      next
        case 2
        with km left4[of k] left3[of k] mid4 show ?thesis by auto
      next
        case 3
        with km left4[of k] left3[of k] right4[of m] show ?thesis by auto
      next
        case 4
        then show ?thesis by simp
      next
        case 5
        with km mid4 right4[of m] show ?thesis by auto
      next
        case 6
        with km r4(5) show ?thesis by (auto simp: sorted_between_def)
      qed
    qed
    have so3': "same_outside arr arr3 low high"
      by (rule same_outside_trans[OF ps(8) l3(3)]) (use ps(3,4) in simp_all)
    have so: "same_outside arr arr4 low high"
      by (rule same_outside_trans[OF so3' r4(3)]) (use ps(3,4) in simp_all)
    have v3: "values_from arr2 arr3 low high"
      by (rule values_from_sub[OF l3(4) l3(3)]) (use ps(3,4) b in simp_all)
    have v4: "values_from arr3 arr4 low high"
      by (rule values_from_sub[OF r4(4) r4(3)]) (use ps(3,4) b in simp_all)
    have vf: "values_from arr arr4 low high"
      by (rule values_from_trans[OF values_from_trans[OF ps(9) v3] v4])
    from ps(1,2) l3(1,2) r4(1,2) sorted so vf eq show ?thesis by simp
  qed
qed

lemma sorted_between_all:
  "sorted_between xs 0 (len xs - 1) \<Longrightarrow> sorted xs"
  by (auto simp: sorted_getitem sorted_between_def)

lemma quick_sort_sorts:
  "sorted (array (last (quick_sort xs))) \<and> mset (array (last (quick_sort xs))) = mset xs"
proof -
  obtain ys a1 S1 where f: "priv_quick_sort xs 0 (len xs - 1) {} = (ys, a1, S1)"
    by (metis prod.exhaust)
  from priv_quick_sort_sorts[OF f] have "len a1 = len xs" "mset a1 = mset xs"
    "sorted_between a1 0 (len xs - 1)" by auto
  then have "sorted a1" "mset a1 = mset xs" using sorted_between_all[of a1] by auto
  with f show ?thesis by (simp add: quick_sort_def Let_def)
qed

lemma partition_snapshots:
  assumes "lomuto_partition arr low high S = (zs, arr2, p, S1)"
  shows "zs \<noteq> [] \<and> S1 = insert p S \<and>
     hd zs = priv_state arr [(high, PIVOT)] S (''Pivot chosen at index '' @ str high) \<and>
     last zs = priv_state arr2 [(p, SORTED)] (insert p S) (''Pivot settled at index '' @ str p)"
proof -
  obtain ys a1 i1 where
    f: "for_range low high (partition_body S high (getitem arr high)) (arr, low - 1) = (ys, (a1, i1))"
    by (metis prod.exhaust)
  from assms f show ?thesis
    by (auto simp: lomuto_partition_def Let_def)
qed

lemma lomuto_partition_example:
  "lomuto_partition [3, 1, 2] 0 2 {} =
     ([priv_state [3, 1, 2] [(2, PIVOT)] {} ''Pivot chosen at index 2'',
       priv_state [3, 1, 2] [(0, COMPARE), (2, PIVOT)] {} ''Comparing index 0 with pivot'',
       priv_state [3, 1, 2] [(1, COMPARE), (2, PIVOT)] {} ''Comparing index 1 with pivot'',
       priv_state [1, 3, 2] [(0, SWAP), (1, SWAP)] {} ''Swapped indices 0 and 1'',
       priv_state [1, 2, 3] [(1, SORTED)] {1} ''Pivot settled at index 1''],
      [1, 2, 3], 1, {1})"
  by code_simp

text \<open>
  C5: in \<^verbatim>\<open>_quick_sort\<close> a range of one index is recorded as sorted with one SORTED
  snapshot, and an empty range yields nothing and changes nothing. On a longer range
  the pivot is the last element; an element goes to the low side exactly when it is
  \<^verbatim>\<open><=\<close> the pivot (the loop body swaps it down in that case and leaves it otherwise), so
  that after the partition the cells below the pivot's index hold values at most the
  pivot and the cells above it values greater than the pivot; the pivot's index is then
  added to the sorted indices and shown by a SORTED snapshot, the last of the partition,
  before the two recursive calls.
\<close>

theorem quick_sort_partition:
  "(low = high \<longrightarrow>
      priv_quick_sort arr low high S =
        ([priv_state arr [(low, SORTED)] (insert low S) (''Index '' @ str low @ '' is sorted'')],
         arr, insert low S)) \<and>
   (high < low \<longrightarrow> priv_quick_sort arr low high S = ([], arr, S)) \<and>
   partition_body S high pivot j (a, i) =
     (if getitem a j \<le> pivot then
        ([priv_state a [(j, COMPARE), (high, PIVOT)] S
            (''Comparing index '' @ str j @ '' with pivot''),
          priv_state (swap a (i + 1) j) [(i + 1, SWAP), (j, SWAP)] S
            (''Swapped indices '' @ str (i + 1) @ '' and '' @ str j)],
         (swap a (i + 1) j, i + 1))
      else
        ([priv_state a [(j, COMPARE), (high, PIVOT)] S
            (''Comparing index '' @ str j @ '' with pivot'')], (a, i))) \<and>
   (0 \<le> low \<and> low < high \<and> high < len arr \<and>
    lomuto_partition arr low high S = (zs, arr2, p, S1) \<longrightarrow>
      hd zs = priv_state arr [(high, PIVOT)] S (''Pivot chosen at index '' @ str high) \<and>
      last zs = priv_state arr2 [(p, SORTED)] (insert p S)
                  (''Pivot settled at index '' @ str p) \<and>
      S1 = insert p S \<and> low \<le> p \<and> p \<le> high \<and>
      mset arr2 = mset arr \<and> getitem arr2 p = getitem arr high \<and>
      (\<forall>k. low \<le> k \<and> k < p \<longrightarrow> getitem arr2 k \<le> getitem arr high) \<and>
      (\<forall>k. p < k \<and> k \<le> high \<longrightarrow> getitem arr high < getitem arr2 k) \<and>
      priv_quick_sort arr low high S =
        (case priv_quick_sort arr2 low (p - 1) S1 of (ls, arr3, S2) \<Rightarrow>
           (case priv_quick_sort arr3 (p + 1) high S2 of (rs, arr4, S3) \<Rightarrow>
              (zs @ ls @ rs, arr4, S3))))"
proof (intro conjI impI)
  show "priv_quick_sort arr low high S =
        ([priv_state arr [(low, SORTED)] (insert low S) (''Index '' @ str low @ '' is sorted'')],
         arr, insert low S)" if "low = high"
    using that by (subst priv_quick_sort.simps) (simp add: Let_def)
  show "priv_quick_sort arr low high S = ([], arr, S)" if "high < low"
    using that by (subst priv_quick_sort.simps) simp
  show "partition_body S high pivot j (a, i) =
     (if getitem a j \<le> pivot then
        ([priv_state a [(j, COMPARE), (high, PIVOT)] S
            (''Comparing index '' @ str j @ '' with pivot''),
          priv_state (swap a (i + 1) j) [(i + 1, SWAP), (j, SWAP)] S
            (''Swapped indices '' @ str (i + 1) @ '' and '' @ str j)],
         (swap a (i + 1) j, i + 1))
      else
        ([priv_state a [(j, COMPARE), (high, PIVOT)] S
            (''Comparing index '' @ str j @ '' with pivot'')], (a, i)))"
    by (simp add: partition_body_def Let_def)
next
  assume h: "0 \<le> low \<and> low < high \<and> high < len arr \<and>
    lomuto_partition arr low high S = (zs, arr2, p, S1)"
  then have b: "0 \<le> low" "low < high" "high < len arr"
    and pt: "lomuto_partition arr low high S = (zs, arr2, p, S1)" by simp_all
  note ps = partition_post[OF pt b]
  note sn = partition_snapshots[OF pt]
  show "hd zs = priv_state arr [(high, PIVOT)] S (''Pivot chosen at index '' @ str high)"
    "last zs = priv_state arr2 [(p, SORTED)] (insert p S) (''Pivot settled at index '' @ str p)"
    "S1 = insert p S"
    using sn by simp_all
  show "low \<le> p" "p \<le> high" "mset arr2 = mset arr" "getitem arr2 p = getitem arr high"
    "\<forall>k. low \<le> k \<and> k < p \<longrightarrow> getitem arr2 k \<le> getitem arr high"
    "\<forall>k. p < k \<and> k \<le> high \<longrightarrow> getitem arr high < getitem arr2 k"
    by (rule ps)+
  show "priv_quick_sort arr low high S =
        (case priv_quick_sort arr2 low (p - 1) S1 of (ls, arr3, S2) \<Rightarrow>
           (case priv_quick_sort arr3 (p + 1) high S2 of (rs, arr4, S3) \<Rightarrow>
              (zs @ ls @ rs, arr4, S3)))"
    using b pt by (subst priv_quick_sort.simps) simp
qed

theorem quick_sort_partition_witness:
  "(0 :: int) \<le> 0 \<and> (0 :: int) < 2 \<and> 2 < len [3, 1, 2 :: int] \<and>
   lomuto_partition [3, 1, 2] 0 2 {} =
     ([priv_state [3, 1, 2] [(2, PIVOT)] {} ''Pivot chosen at index 2'',
       priv_state [3, 1, 2] [(0, COMPARE), (2, PIVOT)] {} ''Comparing index 0 with pivot'',
       priv_state [3, 1, 2] [(1, COMPARE), (2, PIVOT)] {} ''Comparing index 1 with pivot'',
       priv_state [1, 3, 2] [(0, SWAP), (1, SWAP)] {} ''Swapped indices 0 and 1'',
       priv_state [1, 2, 3] [(1, SORTED)] {1} ''Pivot settled at index 1''],
      [1, 2, 3], 1, {1}) \<and>
   getitem [1, 2, 3 :: int] 1 = getitem [3, 1, 2] 2 \<and>
   priv_quick_sort [7] 0 0 {} = ([priv_state [7] [(0, SORTED)] {0} ''Index 0 is sorted''], [7], {0}) \<and>
   priv_quick_sort [] 0 (- 1) {} = ([], [], {})"
proof -
  have b: "(0 :: int) \<le> 0 \<and> (0 :: int) < 2 \<and> 2 < len [3, 1, 2 :: int]"
    by (simp add: len_def)
  note t = quick_sort_partition[where low = 0 and high = 2 and arr = "[3, 1, 2]" and S = "{}"
      and ?arr2.0 = "[1, 2, 3]" and p = 1 and ?S1.0 = "{1}"]
  from t b lomuto_partition_example have "getitem [1, 2, 3 :: int] 1 = getitem [3, 1, 2] 2"
    by blast
  moreover from quick_sort_partition[where low = 0 and high = 0 and arr = "[7]" and S = "{}"]
  have "priv_quick_sort [7] 0 0 {} =
         ([priv_state [7] [(0, SORTED)] {0} (''Index '' @ str 0 @ '' is sorted'')], [7], {0})"
    by simp
  then have "priv_quick_sort [7] 0 0 {} =
         ([priv_state [7] [(0, SORTED)] {0} ''Index 0 is sorted''], [7], {0})"
    by (simp add: str_def str_nat.simps digit_def)
  moreover from quick_sort_partition[where low = 0 and high = "- 1" and arr = "[]" and S = "{}"]
  have "priv_quick_sort [] 0 (- 1) {} = ([], [], {})" by simp
  ultimately show ?thesis using b lomuto_partition_example by simp
qed

section \<open>Bubble sort sorts\<close>

lemma bubble_body_arr:
  "snd (bubble_body S j a) = (if getitem a j > getitem a (j + 1) then swap a j (j + 1) else a)"
  by (simp add: bubble_body_def Let_def)

text \<open>
  The inner loop before the iteration for \<open>j\<close>, in the pass that ends at \<open>stop\<close>: the
  cell \<open>j\<close> holds the greatest value of the cells \<open>0..j\<close>; the cells above \<open>stop\<close> are
  ascending and at least every cell up to \<open>stop\<close>.
\<close>

lemma bubble_body_inv:
  assumes b: "bubble_body S j a = (zs, a')"
    and bounds: "0 \<le> j" "j < stop" "stop < len a"
    and inv: "mset a = M"
      "\<forall>k. 0 \<le> k \<and> k \<le> j \<longrightarrow> getitem a k \<le> getitem a j"
      "sorted_between a (stop + 1) (len a - 1)"
      "\<forall>k l. 0 \<le> k \<and> k \<le> stop \<and> stop < l \<and> l < len a \<longrightarrow> getitem a k \<le> getitem a l"
  shows "len a' = len a \<and> mset a' = M \<and>
      (\<forall>k. 0 \<le> k \<and> k \<le> j + 1 \<longrightarrow> getitem a' k \<le> getitem a' (j + 1)) \<and>
      sorted_between a' (stop + 1) (len a - 1) \<and>
      (\<forall>k l. 0 \<le> k \<and> k \<le> stop \<and> stop < l \<and> l < len a \<longrightarrow> getitem a' k \<le> getitem a' l)"
proof (cases "getitem a j > getitem a (j + 1)")
  case False
  with b have a': "a' = a" using bubble_body_arr[of S j a] by simp
  have "\<forall>k. 0 \<le> k \<and> k \<le> j + 1 \<longrightarrow> getitem a k \<le> getitem a (j + 1)"
  proof (intro allI impI)
    fix k assume k: "0 \<le> k \<and> k \<le> j + 1"
    then consider "k \<le> j" | "k = j + 1" by linarith
    then show "getitem a k \<le> getitem a (j + 1)"
    proof cases
      case 1
      with k inv(2) have "getitem a k \<le> getitem a j" by simp
      with False show ?thesis by simp
    next
      case 2
      then show ?thesis by simp
    qed
  qed
  with a' inv show ?thesis by simp
next
  case True
  with b have a': "a' = swap a j (j + 1)" using bubble_body_arr[of S j a] by simp
  have g: "\<And>k. 0 \<le> k \<Longrightarrow> getitem a' k =
     (if k = j + 1 then getitem a j else if k = j then getitem a (j + 1) else getitem a k)"
    unfolding a' using bounds by (intro getitem_swap) auto
  have 1: "len a' = len a" "mset a' = M"
    unfolding a' using bounds inv(1) by (simp_all add: mset_swap_int)
  have 2: "\<forall>k. 0 \<le> k \<and> k \<le> j + 1 \<longrightarrow> getitem a' k \<le> getitem a' (j + 1)"
  proof (intro allI impI)
    fix k assume k: "0 \<le> k \<and> k \<le> j + 1"
    then consider "k < j" | "k = j" | "k = j + 1" by linarith
    then show "getitem a' k \<le> getitem a' (j + 1)"
    proof cases
      case 1
      with k inv(2) have "getitem a k \<le> getitem a j" by simp
      with 1 k g[of k] g[of "j + 1"] bounds show ?thesis by simp
    next
      case 2
      with g[of j] g[of "j + 1"] bounds True show ?thesis by simp
    next
      case 3
      then show ?thesis by simp
    qed
  qed
  have 3: "sorted_between a' (stop + 1) (len a - 1)"
    unfolding sorted_between_def
  proof (intro allI impI)
    fix k l assume kl: "stop + 1 \<le> k \<and> k \<le> l \<and> l \<le> len a - 1"
    with inv(3) have "getitem a k \<le> getitem a l" by (simp add: sorted_between_def)
    with kl g[of k] g[of l] bounds show "getitem a' k \<le> getitem a' l" by simp
  qed
  have 4: "\<forall>k l. 0 \<le> k \<and> k \<le> stop \<and> stop < l \<and> l < len a \<longrightarrow> getitem a' k \<le> getitem a' l"
  proof (intro allI impI)
    fix k l assume kl: "0 \<le> k \<and> k \<le> stop \<and> stop < l \<and> l < len a"
    from kl bounds have l: "getitem a' l = getitem a l" using g[of l] by simp
    from kl bounds inv(4) have "getitem a k \<le> getitem a l" "getitem a j \<le> getitem a l"
      "getitem a (j + 1) \<le> getitem a l" by simp_all
    with kl g[of k] l show "getitem a' k \<le> getitem a' l" by simp
  qed
  from 1 2 3 4 show ?thesis by simp
qed

lemma bubble_pass_inv:
  assumes p: "bubble_pass n i (a, S) = (zs, (a', S'))"
    and bounds: "0 \<le> i" "i < n" "n = len a"
    and inv: "mset a = M" "sorted_between a (n - i) (n - 1)"
      "\<forall>k l. 0 \<le> k \<and> k < n - i \<and> n - i \<le> l \<and> l < n \<longrightarrow> getitem a k \<le> getitem a l"
  shows "len a' = n \<and> mset a' = M \<and> sorted_between a' (n - (i + 1)) (n - 1) \<and>
     (\<forall>k l. 0 \<le> k \<and> k < n - (i + 1) \<and> n - (i + 1) \<le> l \<and> l < n \<longrightarrow> getitem a' k \<le> getitem a' l)"
proof -
  define stop where "stop = n - i - 1"
  have stop: "0 \<le> stop" "stop < n" using bounds by (auto simp: stop_def)
  obtain ys a1 where f: "for_range 0 stop (bubble_body S) a = (ys, a1)"
    by (metis prod.exhaust)
  define I where "I = (\<lambda>j b. len b = n \<and> mset b = M \<and>
      (\<forall>k. 0 \<le> k \<and> k \<le> j \<longrightarrow> getitem b k \<le> getitem b j) \<and>
      sorted_between b (stop + 1) (n - 1) \<and>
      (\<forall>k l. 0 \<le> k \<and> k \<le> stop \<and> stop < l \<and> l < n \<longrightarrow> getitem b k \<le> getitem b l))"
  have "I (max 0 stop) a1 \<and> (\<forall>y\<in>set ys. True)"
  proof (rule for_range_rule[OF f, where I=I])
    have "\<forall>k. 0 \<le> k \<and> k \<le> 0 \<longrightarrow> getitem a k \<le> getitem a 0"
    proof (intro allI impI)
      fix k :: int assume "0 \<le> k \<and> k \<le> 0"
      then have "k = 0" by simp
      then show "getitem a k \<le> getitem a 0" by simp
    qed
    moreover have "sorted_between a (stop + 1) (n - 1)"
      using inv(2) by (simp add: stop_def)
    moreover have "\<forall>k l. 0 \<le> k \<and> k \<le> stop \<and> stop < l \<and> l < n \<longrightarrow> getitem a k \<le> getitem a l"
      using inv(3) by (simp add: stop_def)
    ultimately show "I 0 a" using bounds inv(1) by (simp add: I_def)
  next
    fix k s zs' s'
    assume h: "0 \<le> k" "k < stop" "I k s" "bubble_body S k s = (zs', s')"
    from h(3) have s: "len s = n" "mset s = M"
      "\<forall>m. 0 \<le> m \<and> m \<le> k \<longrightarrow> getitem s m \<le> getitem s k"
      "sorted_between s (stop + 1) (len s - 1)"
      "\<forall>m l. 0 \<le> m \<and> m \<le> stop \<and> stop < l \<and> l < len s \<longrightarrow> getitem s m \<le> getitem s l"
      by (simp_all add: I_def)
    from bubble_body_inv[OF h(4) h(1,2) _ s(2-5), of ] stop s(1)
    show "I (k + 1) s' \<and> (\<forall>y\<in>set zs'. True)" by (simp add: I_def)
  qed
  with stop have a1: "len a1 = n" "mset a1 = M"
    "\<forall>k. 0 \<le> k \<and> k \<le> stop \<longrightarrow> getitem a1 k \<le> getitem a1 stop"
    "sorted_between a1 (stop + 1) (n - 1)"
    "\<forall>k l. 0 \<le> k \<and> k \<le> stop \<and> stop < l \<and> l < n \<longrightarrow> getitem a1 k \<le> getitem a1 l"
    by (simp_all add: I_def max_def)
  from p f have a': "a' = a1" by (auto simp: bubble_pass_def Let_def stop_def)
  have sb: "sorted_between a1 stop (n - 1)"
    unfolding sorted_between_def
  proof (intro allI impI)
    fix k l assume kl: "stop \<le> k \<and> k \<le> l \<and> l \<le> n - 1"
    then consider "k = l" | "k = stop" "stop < l" | "stop + 1 \<le> k" by linarith
    then show "getitem a1 k \<le> getitem a1 l"
    proof cases
      case 1
      then show ?thesis by simp
    next
      case 2
      with kl a1(5) stop show ?thesis by simp
    next
      case 3
      with kl a1(4) show ?thesis by (simp add: sorted_between_def)
    qed
  qed
  have le: "\<forall>k l. 0 \<le> k \<and> k < stop \<and> stop \<le> l \<and> l < n \<longrightarrow> getitem a1 k \<le> getitem a1 l"
  proof (intro allI impI)
    fix k l assume kl: "0 \<le> k \<and> k < stop \<and> stop \<le> l \<and> l < n"
    then consider "l = stop" | "stop < l" by linarith
    then show "getitem a1 k \<le> getitem a1 l"
    proof cases
      case 1
      with kl a1(3) show ?thesis by simp
    next
      case 2
      with kl a1(5) show ?thesis by simp
    qed
  qed
  have "n - (i + 1) = stop" by (simp add: stop_def)
  with a' a1(1,2) sb le show ?thesis by simp
qed

lemma bubble_sort_sorts:
  "sorted (array (last (bubble_sort xs))) \<and> mset (array (last (bubble_sort xs))) = mset xs"
proof -
  define n where "n = len xs"
  obtain ys a1 S1 where f: "for_range 0 n (bubble_pass n) (xs, {}) = (ys, (a1, S1))"
    by (metis prod.exhaust)
  define I where "I = (\<lambda>i (st :: int list \<times> int set). len (fst st) = n \<and> mset (fst st) = mset xs \<and>
      sorted_between (fst st) (n - i) (n - 1) \<and>
      (\<forall>k l. 0 \<le> k \<and> k < n - i \<and> n - i \<le> l \<and> l < n \<longrightarrow> getitem (fst st) k \<le> getitem (fst st) l))"
  have "I (max 0 n) (a1, S1) \<and> (\<forall>y\<in>set ys. True)"
  proof (rule for_range_rule[OF f, where I=I])
    have "sorted_between xs (n - 0) (n - 1)" by (simp add: sorted_between_def)
    then show "I 0 (xs, {})" by (simp add: I_def n_def)
  next
    fix k s zs s'
    assume h: "0 \<le> k" "k < n" "I k s" "bubble_pass n k s = (zs, s')"
    obtain a S where s: "s = (a, S)" by (cases s)
    obtain a' S' where s': "s' = (a', S')" by (cases s')
    from h(3) s have i: "n = len a" "mset a = mset xs" "sorted_between a (n - k) (n - 1)"
      "\<forall>m l. 0 \<le> m \<and> m < n - k \<and> n - k \<le> l \<and> l < n \<longrightarrow> getitem a m \<le> getitem a l"
      by (simp_all add: I_def)
    from bubble_pass_inv[OF h(4)[unfolded s s'] h(1,2) i] s'
    show "I (k + 1) s' \<and> (\<forall>y\<in>set zs. True)" by (simp add: I_def)
  qed
  then have "len a1 = n" "mset a1 = mset xs" "sorted_between a1 0 (n - 1)"
    by (simp_all add: I_def n_def max_def)
  then have "sorted a1" "mset a1 = mset xs" using sorted_between_all[of a1] by auto
  with f show ?thesis by (simp add: bubble_sort_def Let_def n_def)
qed

section \<open>Selection sort sorts\<close>

lemma selection_scan_min:
  "snd (selection_scan a S i j m) = (if getitem a j < getitem a m then j else m)"
  by (simp add: selection_scan_def Let_def)

lemma selection_pass_inv:
  assumes p: "selection_pass n i (a, S) = (zs, (a', S'))"
    and bounds: "0 \<le> i" "i < n" "n = len a"
    and inv: "mset a = M" "sorted_between a 0 (i - 1)"
      "\<forall>k l. 0 \<le> k \<and> k < i \<and> i \<le> l \<and> l < n \<longrightarrow> getitem a k \<le> getitem a l"
  shows "len a' = n \<and> mset a' = M \<and> sorted_between a' 0 i \<and>
     (\<forall>k l. 0 \<le> k \<and> k < i + 1 \<and> i + 1 \<le> l \<and> l < n \<longrightarrow> getitem a' k \<le> getitem a' l)"
proof -
  obtain ys m where f: "for_range (i + 1) n (selection_scan a S i) i = (ys, m)"
    by (metis prod.exhaust)
  define I where "I = (\<lambda>j m. i \<le> m \<and> m < j \<and> (\<forall>k. i \<le> k \<and> k < j \<longrightarrow> getitem a m \<le> getitem a k))"
  have "I (max (i + 1) n) m \<and> (\<forall>y\<in>set ys. True)"
  proof (rule for_range_rule[OF f, where I=I])
    have "\<forall>k. i \<le> k \<and> k < i + 1 \<longrightarrow> getitem a i \<le> getitem a k"
    proof (intro allI impI)
      fix k assume "i \<le> k \<and> k < i + 1"
      then have "k = i" by simp
      then show "getitem a i \<le> getitem a k" by simp
    qed
    then show "I (i + 1) i" by (simp add: I_def)
  next
    fix k s zs' s'
    assume h: "i + 1 \<le> k" "k < n" "I k s" "selection_scan a S i k s = (zs', s')"
    from h(3) have s: "i \<le> s" "s < k" "\<forall>l. i \<le> l \<and> l < k \<longrightarrow> getitem a s \<le> getitem a l"
      by (simp_all add: I_def)
    from h(4) selection_scan_min[of a S i k s]
    have s': "s' = (if getitem a k < getitem a s then k else s)" by simp
    have "\<forall>l. i \<le> l \<and> l < k + 1 \<longrightarrow> getitem a s' \<le> getitem a l"
    proof (intro allI impI)
      fix l assume l: "i \<le> l \<and> l < k + 1"
      then consider "l < k" | "l = k" by linarith
      then show "getitem a s' \<le> getitem a l"
      proof cases
        case 1
        with l s(3) have "getitem a s \<le> getitem a l" by simp
        with s' show ?thesis by auto
      next
        case 2
        with s' show ?thesis by auto
      qed
    qed
    moreover from s' s h(1) have "i \<le> s'" "s' < k + 1" by auto
    ultimately show "I (k + 1) s' \<and> (\<forall>y\<in>set zs'. True)" by (simp add: I_def)
  qed
  with bounds have m: "i \<le> m" "m < n" "\<And>k. i \<le> k \<Longrightarrow> k < n \<Longrightarrow> getitem a m \<le> getitem a k"
    by (simp_all add: I_def max_def)
  from p f have a': "a' = swap a i m" by (auto simp: selection_pass_def Let_def)
  have g: "\<And>k. 0 \<le> k \<Longrightarrow> getitem a' k =
     (if k = m then getitem a i else if k = i then getitem a m else getitem a k)"
    unfolding a' using bounds m(1,2) by (intro getitem_swap) auto
  have 1: "len a' = n" "mset a' = M"
    unfolding a' using bounds m(1,2) inv(1) by (simp_all add: mset_swap_int)
  have ai: "getitem a' i = getitem a m" using g[of i] bounds by simp
  have 2: "sorted_between a' 0 i"
    unfolding sorted_between_def
  proof (intro allI impI)
    fix k l assume kl: "0 \<le> k \<and> k \<le> l \<and> l \<le> i"
    then consider "l < i" | "k < i" "l = i" | "k = i" "l = i" by linarith
    then show "getitem a' k \<le> getitem a' l"
    proof cases
      case 1
      with kl inv(2) have "getitem a k \<le> getitem a l" by (simp add: sorted_between_def)
      with 1 kl m(1) g[of k] g[of l] show ?thesis by simp
    next
      case 2
      with kl inv(3) m have "getitem a k \<le> getitem a m" by simp
      with 2 kl m(1) g[of k] ai show ?thesis by simp
    next
      case 3
      then show ?thesis by simp
    qed
  qed
  have 3: "\<forall>k l. 0 \<le> k \<and> k < i + 1 \<and> i + 1 \<le> l \<and> l < n \<longrightarrow> getitem a' k \<le> getitem a' l"
  proof (intro allI impI)
    fix k l assume kl: "0 \<le> k \<and> k < i + 1 \<and> i + 1 \<le> l \<and> l < n"
    obtain x where x: "i \<le> x" "x < n" "getitem a' l = getitem a x"
    proof (cases "l = m")
      case True
      with g[of l] kl bounds have "getitem a' l = getitem a i" by simp
      with bounds that[of i] show ?thesis by simp
    next
      case False
      with g[of l] kl bounds have "getitem a' l = getitem a l" by simp
      with kl that[of l] show ?thesis by simp
    qed
    from kl consider "k < i" | "k = i" by linarith
    then show "getitem a' k \<le> getitem a' l"
    proof cases
      case 1
      with kl inv(3) x have "getitem a k \<le> getitem a x" by simp
      with 1 kl m(1) g[of k] x show ?thesis by simp
    next
      case 2
      with ai m(3)[of x] x show ?thesis by simp
    qed
  qed
  from 1 2 3 show ?thesis by simp
qed

lemma selection_sort_sorts:
  "sorted (array (last (selection_sort xs))) \<and> mset (array (last (selection_sort xs))) = mset xs"
proof -
  define n where "n = len xs"
  obtain ys a1 S1 where f: "for_range 0 n (selection_pass n) (xs, {}) = (ys, (a1, S1))"
    by (metis prod.exhaust)
  define I where "I = (\<lambda>i (st :: int list \<times> int set). len (fst st) = n \<and> mset (fst st) = mset xs \<and>
      sorted_between (fst st) 0 (i - 1) \<and>
      (\<forall>k l. 0 \<le> k \<and> k < i \<and> i \<le> l \<and> l < n \<longrightarrow> getitem (fst st) k \<le> getitem (fst st) l))"
  have "I (max 0 n) (a1, S1) \<and> (\<forall>y\<in>set ys. True)"
  proof (rule for_range_rule[OF f, where I=I])
    have "sorted_between xs 0 (0 - 1)" by (simp add: sorted_between_def)
    then show "I 0 (xs, {})" by (simp add: I_def n_def)
  next
    fix k s zs s'
    assume h: "0 \<le> k" "k < n" "I k s" "selection_pass n k s = (zs, s')"
    obtain a S where s: "s = (a, S)" by (cases s)
    obtain a' S' where s': "s' = (a', S')" by (cases s')
    from h(3) s have i: "n = len a" "mset a = mset xs" "sorted_between a 0 (k - 1)"
      "\<forall>m l. 0 \<le> m \<and> m < k \<and> k \<le> l \<and> l < n \<longrightarrow> getitem a m \<le> getitem a l"
      by (simp_all add: I_def)
    from selection_pass_inv[OF h(4)[unfolded s s'] h(1,2) i] s'
    show "I (k + 1) s' \<and> (\<forall>y\<in>set zs. True)" by (simp add: I_def)
  qed
  then have "len a1 = n" "mset a1 = mset xs" "sorted_between a1 0 (n - 1)"
    by (simp_all add: I_def n_def max_def)
  then have "sorted a1" "mset a1 = mset xs" using sorted_between_all[of a1] by auto
  with f show ?thesis by (simp add: selection_sort_def Let_def n_def)
qed

section \<open>Insertion sort sorts\<close>

lemma mset_shift_nat:
  assumes "Suc n < length xs"
  shows "mset (xs[Suc n := xs ! n, n := k]) = mset (xs[Suc n := k])"
proof -
  define X where "X = xs[Suc n := k]"
  have X: "X ! n = xs ! n" "X ! Suc n = k" "length X = length xs"
    using assms by (simp_all add: X_def)
  have "X[Suc n := X ! n, n := X ! Suc n] = X[Suc n := xs ! n, n := k]"
    by (simp only: X(1,2))
  also have "X[Suc n := xs ! n] = xs[Suc n := xs ! n]"
    by (simp add: X_def)
  finally have "X[Suc n := X ! n, n := X ! Suc n] = xs[Suc n := xs ! n, n := k]" .
  moreover have "mset (X[Suc n := X ! n, n := X ! Suc n]) = mset X"
    using assms X(3) by (intro mset_swap) auto
  ultimately show ?thesis by (simp add: X_def)
qed

lemma mset_shift:
  assumes "0 \<le> j" "j + 1 < len a"
  shows "mset (setitem (setitem a (j + 1) (getitem a j)) j key) = mset (setitem a (j + 1) key)"
proof -
  from assms have n: "nat (j + 1) = Suc (nat j)" "Suc (nat j) < length a"
    by (auto simp: len_def)
  with assms mset_shift_nat[of "nat j" a key] show ?thesis
    by (simp add: setitem_def getitem_def)
qed

text \<open>
  The shifting loop of the iteration for \<open>i\<close>, against the array \<open>a0\<close> at the start of the
  iteration: the cells \<open>0..j\<close> are untouched, the cells \<open>j+2..i\<close> hold the old values
  of \<open>j+1..i-1\<close>, all greater than the key, and the cell \<open>j+1\<close> is free for the key.
\<close>

lemma insertion_while_inv:
  assumes "insertion_while S key a j = (ys, a', j')"
    and "- 1 \<le> j" "j < i" "i < len a"
    and "len a = len a0" "mset (setitem a (j + 1) key) = mset a0"
      "\<forall>k. 0 \<le> k \<and> k \<le> j \<longrightarrow> getitem a k = getitem a0 k"
      "\<forall>k. j + 2 \<le> k \<and> k \<le> i \<longrightarrow> getitem a k = getitem a0 (k - 1) \<and> key < getitem a k"
  shows "- 1 \<le> j' \<and> j' < i \<and> len a' = len a0 \<and> mset (setitem a' (j' + 1) key) = mset a0 \<and>
      (\<forall>k. 0 \<le> k \<and> k \<le> j' \<longrightarrow> getitem a' k = getitem a0 k) \<and>
      (\<forall>k. j' + 2 \<le> k \<and> k \<le> i \<longrightarrow> getitem a' k = getitem a0 (k - 1) \<and> key < getitem a' k) \<and>
      (0 \<le> j' \<longrightarrow> getitem a' j' \<le> key)"
  using assms
proof (induction S key a j arbitrary: ys rule: insertion_while.induct)
  case (1 S key a j)
  note run = "1.prems"(1)[unfolded insertion_while.simps[of S key a j]]
  note b = "1.prems"(2-4)
  note inv = "1.prems"(5-8)
  show ?case
  proof (cases "j \<ge> 0 \<and> getitem a j > key")
    case False
    with run have "a' = a" "j' = j" by auto
    with False b inv show ?thesis by auto
  next
    case True
    define a1 where "a1 = setitem a (j + 1) (getitem a j)"
    obtain zs a2 j2 where r: "insertion_while S key a1 (j - 1) = (zs, a2, j2)"
      by (metis prod.exhaust)
    from run True r have eq: "a' = a2" "j' = j2" by (auto simp: Let_def a1_def)
    have g: "\<And>k. 0 \<le> k \<Longrightarrow> getitem a1 k = (if k = j + 1 then getitem a j else getitem a k)"
      unfolding a1_def using True b by (intro getitem_setitem) auto
    have 1: "len a1 = len a0" using inv(1) by (simp add: a1_def)
    have 2: "mset (setitem a1 (j - 1 + 1) key) = mset a0"
      using mset_shift[of j a key] True b inv(2) by (simp add: a1_def)
    have 3: "\<forall>k. 0 \<le> k \<and> k \<le> j - 1 \<longrightarrow> getitem a1 k = getitem a0 k"
    proof (intro allI impI)
      fix k assume "0 \<le> k \<and> k \<le> j - 1"
      with g[of k] inv(3) show "getitem a1 k = getitem a0 k" by simp
    qed
    have 4: "\<forall>k. j - 1 + 2 \<le> k \<and> k \<le> i \<longrightarrow> getitem a1 k = getitem a0 (k - 1) \<and> key < getitem a1 k"
    proof (intro allI impI)
      fix k assume k: "j - 1 + 2 \<le> k \<and> k \<le> i"
      then consider "k = j + 1" | "j + 2 \<le> k" by linarith
      then show "getitem a1 k = getitem a0 (k - 1) \<and> key < getitem a1 k"
      proof cases
        case 1
        from True inv(3) have "getitem a j = getitem a0 j" by simp
        with 1 g[of k] True show ?thesis by simp
      next
        case 2
        with k inv(4) have "getitem a k = getitem a0 (k - 1) \<and> key < getitem a k" by blast
        with 2 g[of k] True show ?thesis by simp
      qed
    qed
    show ?thesis
    proof (rule "1.IH"[OF True refl a1_def refl])
      show "insertion_while S key a1 (j - 1) = (zs, a', j')" using r eq by simp
      show "- 1 \<le> j - 1" "j - 1 < i" "i < len a1" using True b by (simp_all add: a1_def)
      show "len a1 = len a0" by (rule 1)
      show "mset (setitem a1 (j - 1 + 1) key) = mset a0" by (rule 2)
      show "\<forall>k. 0 \<le> k \<and> k \<le> j - 1 \<longrightarrow> getitem a1 k = getitem a0 k" by (rule 3)
      show "\<forall>k. j - 1 + 2 \<le> k \<and> k \<le> i \<longrightarrow>
                getitem a1 k = getitem a0 (k - 1) \<and> key < getitem a1 k" by (rule 4)
    qed
  qed
qed

lemma sorted_between_mono:
  "sorted_between a low high \<Longrightarrow> low \<le> l \<Longrightarrow> h \<le> high \<Longrightarrow> sorted_between a l h"
  by (simp add: sorted_between_def)

lemma insertion_body_inv:
  assumes p: "insertion_body i (a0, S) = (zs, (a', S'))"
    and bounds: "1 \<le> i" "i < len a0"
    and inv: "sorted_between a0 0 (i - 1)"
  shows "len a' = len a0 \<and> mset a' = mset a0 \<and> sorted_between a' 0 i"
proof -
  define key where "key = getitem a0 i"
  obtain ys a1 j where w: "insertion_while S key a0 (i - 1) = (ys, a1, j)"
    by (metis prod.exhaust)
  have "- 1 \<le> j \<and> j < i \<and> len a1 = len a0 \<and> mset (setitem a1 (j + 1) key) = mset a0 \<and>
      (\<forall>k. 0 \<le> k \<and> k \<le> j \<longrightarrow> getitem a1 k = getitem a0 k) \<and>
      (\<forall>k. j + 2 \<le> k \<and> k \<le> i \<longrightarrow> getitem a1 k = getitem a0 (k - 1) \<and> key < getitem a1 k) \<and>
      (0 \<le> j \<longrightarrow> getitem a1 j \<le> key)"
  proof (rule insertion_while_inv[OF w, of i a0])
    show "- 1 \<le> i - 1" "i - 1 < i" "i < len a0" "len a0 = len a0" using bounds by simp_all
    have "setitem a0 i key = a0"
      using bounds by (simp add: setitem_def getitem_def key_def)
    then show "mset (setitem a0 (i - 1 + 1) key) = mset a0" by simp
    show "\<forall>k. 0 \<le> k \<and> k \<le> i - 1 \<longrightarrow> getitem a0 k = getitem a0 k" by simp
    show "\<forall>k. i - 1 + 2 \<le> k \<and> k \<le> i \<longrightarrow> getitem a0 k = getitem a0 (k - 1) \<and> key < getitem a0 k"
      by simp
  qed
  then have w': "- 1 \<le> j" "j < i" "len a1 = len a0" "mset (setitem a1 (j + 1) key) = mset a0"
    "\<And>k. 0 \<le> k \<Longrightarrow> k \<le> j \<Longrightarrow> getitem a1 k = getitem a0 k"
    "\<And>k. j + 2 \<le> k \<Longrightarrow> k \<le> i \<Longrightarrow> getitem a1 k = getitem a0 (k - 1)"
    "\<And>k. j + 2 \<le> k \<Longrightarrow> k \<le> i \<Longrightarrow> key < getitem a1 k"
    "0 \<le> j \<Longrightarrow> getitem a1 j \<le> key"
    by blast+
  from p w have a': "a' = setitem a1 (j + 1) key"
    by (auto simp: insertion_body_def Let_def key_def)
  have g: "\<And>k. 0 \<le> k \<Longrightarrow> getitem a' k = (if k = j + 1 then key else getitem a1 k)"
    unfolding a' using w'(1-3) bounds by (intro getitem_setitem) auto
  have s0: "\<And>k l. 0 \<le> k \<Longrightarrow> k \<le> l \<Longrightarrow> l \<le> i - 1 \<Longrightarrow> getitem a0 k \<le> getitem a0 l"
    using inv by (simp add: sorted_between_def)
  have "sorted_between a' 0 i"
    unfolding sorted_between_def
  proof (intro allI impI)
    fix k l assume kl: "0 \<le> k \<and> k \<le> l \<and> l \<le> i"
    consider "l \<le> j" | "k \<le> j" "l = j + 1" | "k = j + 1" "l = j + 1" | "k \<le> j" "j + 2 \<le> l"
      | "k = j + 1" "j + 2 \<le> l" | "j + 2 \<le> k"
      using kl by linarith
    then show "getitem a' k \<le> getitem a' l"
    proof cases
      case 1
      with kl g[of k] g[of l] w'(5)[of k] w'(5)[of l] s0[of k l] w'(2) show ?thesis by simp
    next
      case 2
      with kl have j: "0 \<le> j" by simp
      from 2 kl j s0[of k j] w'(2) have "getitem a0 k \<le> getitem a0 j" by simp
      with 2 kl j g[of k] g[of l] w'(5)[of k] w'(5)[of j] w'(8) show ?thesis by simp
    next
      case 3
      then show ?thesis by simp
    next
      case 4
      with kl g[of k] g[of l] w'(5)[of k] w'(6)[of l] s0[of k "l - 1"] show ?thesis by simp
    next
      case 5
      with kl g[of k] g[of l] w'(7)[of l] w'(1) show ?thesis by simp
    next
      case 6
      with kl g[of k] g[of l] w'(6)[of k] w'(6)[of l] s0[of "k - 1" "l - 1"] w'(1)
      show ?thesis by simp
    qed
  qed
  with a' w'(3,4) show ?thesis by simp
qed

lemma insertion_sort_sorts:
  "sorted (array (last (insertion_sort xs))) \<and> mset (array (last (insertion_sort xs))) = mset xs"
proof -
  define n where "n = len xs"
  obtain ys a1 S1 where f: "for_range 1 n insertion_body (xs, {}) = (ys, (a1, S1))"
    by (metis prod.exhaust)
  define I where "I = (\<lambda>i (st :: int list \<times> int set). len (fst st) = n \<and> mset (fst st) = mset xs \<and>
      sorted_between (fst st) 0 (i - 1))"
  have "I (max 1 n) (a1, S1) \<and> (\<forall>y\<in>set ys. True)"
  proof (rule for_range_rule[OF f, where I=I])
    have "sorted_between xs 0 (1 - 1)"
      unfolding sorted_between_def
    proof (intro allI impI)
      fix k l :: int assume "0 \<le> k \<and> k \<le> l \<and> l \<le> 1 - 1"
      then have "k = l" by simp
      then show "getitem xs k \<le> getitem xs l" by simp
    qed
    then show "I 1 (xs, {})" by (simp add: I_def n_def)
  next
    fix k s zs s'
    assume h: "1 \<le> k" "k < n" "I k s" "insertion_body k s = (zs, s')"
    obtain a S where s: "s = (a, S)" by (cases s)
    obtain a' S' where s': "s' = (a', S')" by (cases s')
    from h(3) s have i: "len a = n" "mset a = mset xs" "sorted_between a 0 (k - 1)"
      by (simp_all add: I_def)
    from insertion_body_inv[OF h(4)[unfolded s s'] h(1) _ i(3)] h(2) i(1,2) s'
    show "I (k + 1) s' \<and> (\<forall>y\<in>set zs. True)" by (simp add: I_def)
  qed
  then have r: "len a1 = n" "mset a1 = mset xs" "sorted_between a1 0 (max 1 n - 1)"
    by (simp_all add: I_def)
  from r(3) have "sorted_between a1 0 (len a1 - 1)"
    by (rule sorted_between_mono) (simp_all add: r(1))
  then have "sorted a1" by (rule sorted_between_all)
  with r(2) f show ?thesis by (simp add: insertion_sort_def Let_def n_def)
qed

section \<open>Merge sort sorts\<close>

lemma length_spec_merge [simp]: "length (spec_merge xs ys) = length xs + length ys"
  by (induction xs ys rule: spec_merge.induct) auto

lemma mset_spec_merge [simp]: "mset (spec_merge xs ys) = mset xs + mset ys"
  by (induction xs ys rule: spec_merge.induct) auto

lemma set_spec_merge [simp]: "set (spec_merge xs ys) = set xs \<union> set ys"
  by (induction xs ys rule: spec_merge.induct) auto

lemma sorted_spec_merge:
  "sorted xs \<Longrightarrow> sorted ys \<Longrightarrow> sorted (spec_merge xs (ys :: 'a::linorder list))"
  by (induction xs ys rule: spec_merge.induct) auto

lemma spec_merge_Nil2 [simp]: "spec_merge xs [] = xs"
  by (cases xs) auto

lemma drop_eq_Cons:
  assumes "drop c xs = v # rest"
  shows "c < length xs \<and> xs ! c = v \<and> drop (Suc c) xs = rest"
proof -
  from assms have c: "c < length xs" by (cases "c < length xs") auto
  from Cons_nth_drop_Suc[OF c] assms show ?thesis using c by simp
qed

lemma drop_nth_Cons: "i < length xs \<Longrightarrow> drop i xs = xs ! i # drop (Suc i) xs"
  by (simp add: Cons_nth_drop_Suc)

text \<open>
  The copy loops, against the merged sequence \<open>Mg\<close>: the cells \<open>start..k-1\<close> hold the
  first \<open>k - start\<close> elements of \<open>Mg\<close>, and what is left of \<open>Mg\<close> starts with what is left
  of the side being copied.
\<close>

lemma merge_left_inv:
  assumes "merge_left left S (a, i, k) = (ys, (a', i', k'))"
    and "0 \<le> i" "i \<le> len left" "0 \<le> start" "start \<le> k" "k + (len left - i) \<le> e + 1"
      "e < len a"
    and "drop (nat (k - start)) Mg = drop (nat i) left @ R"
      "\<forall>m. 0 \<le> m \<and> m < k - start \<longrightarrow> getitem a (start + m) = Mg ! nat m"
      "same_outside arr0 a start e"
  shows "len a' = len a \<and> k' = k + (len left - i) \<and> drop (nat (k' - start)) Mg = R \<and>
      (\<forall>m. 0 \<le> m \<and> m < k' - start \<longrightarrow> getitem a' (start + m) = Mg ! nat m) \<and>
      same_outside arr0 a' start e"
  using assms
proof (induction left S "(a, i, k)" arbitrary: a i k ys rule: merge_left.induct)
  case (1 left S a i k)
  note run = "1.prems"(1)[unfolded merge_left.simps[of left S a i k]]
  note b = "1.prems"(2-7)
  note inv = "1.prems"(8-10)
  show ?case
  proof (cases "i < len left")
    case False
    with run have eq: "a' = a" "k' = k" by auto
    from False b have "drop (nat i) left = []" by (simp add: len_def)
    with eq inv b False show ?thesis by simp
  next
    case True
    define v where "v = getitem left i"
    define a1 where "a1 = setitem a k (getitem left i)"
    obtain zs fin where r: "merge_left left S (a1, i + 1, k + 1) = (zs, fin)"
      by (metis prod.exhaust)
    from run True r have fin: "fin = (a', i', k')" by (auto simp: Let_def a1_def)
    from True b have "drop (nat i) left = v # drop (Suc (nat i)) left"
      by (simp add: drop_nth_Cons v_def getitem_nth len_def)
    with inv(1) have "drop (nat (k - start)) Mg = v # (drop (Suc (nat i)) left @ R)" by simp
    from drop_eq_Cons[OF this]
    have mg: "Mg ! nat (k - start) = v" "drop (Suc (nat (k - start))) Mg = drop (Suc (nat i)) left @ R"
      by simp_all
    have g: "\<And>x. 0 \<le> x \<Longrightarrow> getitem a1 x = (if x = k then v else getitem a x)"
      unfolding a1_def v_def using True b by (intro getitem_setitem) auto
    have n1: "nat (k + 1 - start) = Suc (nat (k - start))" "nat (i + 1) = Suc (nat i)"
      using b by auto
    have ih: "len a' = len a1 \<and> k' = k + 1 + (len left - (i + 1)) \<and>
      drop (nat (k' - start)) Mg = R \<and>
      (\<forall>m. 0 \<le> m \<and> m < k' - start \<longrightarrow> getitem a' (start + m) = Mg ! nat m) \<and>
      same_outside arr0 a' start e"
    proof (rule "1.hyps"[OF True a1_def refl r[unfolded fin]])
      show "0 \<le> i + 1" "i + 1 \<le> len left" "0 \<le> start" "start \<le> k + 1"
        "k + 1 + (len left - (i + 1)) \<le> e + 1" "e < len a1"
        using True b by (simp_all add: a1_def)
      show "drop (nat (k + 1 - start)) Mg = drop (nat (i + 1)) left @ R"
        using mg(2) n1 by simp
      show "\<forall>m. 0 \<le> m \<and> m < k + 1 - start \<longrightarrow> getitem a1 (start + m) = Mg ! nat m"
      proof (intro allI impI)
        fix m assume m: "0 \<le> m \<and> m < k + 1 - start"
        then consider "m < k - start" | "m = k - start" by linarith
        then show "getitem a1 (start + m) = Mg ! nat m"
        proof cases
          case 1
          with m inv(2) have "getitem a (start + m) = Mg ! nat m" by simp
          with 1 m b g[of "start + m"] show ?thesis by simp
        next
          case 2
          with b g[of k] mg(1) show ?thesis by simp
        qed
      qed
      show "same_outside arr0 a1 start e"
        unfolding same_outside_def
      proof (intro allI impI)
        fix x assume x: "0 \<le> x \<and> (x < start \<or> e < x)"
        with inv(3) have "getitem a x = getitem arr0 x" by (simp add: same_outside_def)
        with x True b g[of x] show "getitem a1 x = getitem arr0 x" by auto
      qed
    qed
    then have c: "len a' = len a1" "k' = k + 1 + (len left - (i + 1))"
      "drop (nat (k' - start)) Mg = R"
      "\<forall>m. 0 \<le> m \<and> m < k' - start \<longrightarrow> getitem a' (start + m) = Mg ! nat m"
      "same_outside arr0 a' start e"
      by blast+
    have "len a' = len a" using c(1) by (simp add: a1_def)
    moreover have "k' = k + (len left - i)" using c(2) by simp
    ultimately show ?thesis using c(3-5) by blast
  qed
qed

lemma merge_right_inv:
  assumes "merge_right right S (a, i, k) = (ys, (a', i', k'))"
    and "0 \<le> i" "i \<le> len right" "0 \<le> start" "start \<le> k" "k + (len right - i) \<le> e + 1"
      "e < len a"
    and "drop (nat (k - start)) Mg = drop (nat i) right @ R"
      "\<forall>m. 0 \<le> m \<and> m < k - start \<longrightarrow> getitem a (start + m) = Mg ! nat m"
      "same_outside arr0 a start e"
  shows "len a' = len a \<and> k' = k + (len right - i) \<and> drop (nat (k' - start)) Mg = R \<and>
      (\<forall>m. 0 \<le> m \<and> m < k' - start \<longrightarrow> getitem a' (start + m) = Mg ! nat m) \<and>
      same_outside arr0 a' start e"
  using assms
proof (induction right S "(a, i, k)" arbitrary: a i k ys rule: merge_right.induct)
  case (1 right S a i k)
  note run = "1.prems"(1)[unfolded merge_right.simps[of right S a i k]]
  note b = "1.prems"(2-7)
  note inv = "1.prems"(8-10)
  show ?case
  proof (cases "i < len right")
    case False
    with run have eq: "a' = a" "k' = k" by auto
    from False b have "drop (nat i) right = []" by (simp add: len_def)
    with eq inv b False show ?thesis by simp
  next
    case True
    define v where "v = getitem right i"
    define a1 where "a1 = setitem a k (getitem right i)"
    obtain zs fin where r: "merge_right right S (a1, i + 1, k + 1) = (zs, fin)"
      by (metis prod.exhaust)
    from run True r have fin: "fin = (a', i', k')" by (auto simp: Let_def a1_def)
    from True b have "drop (nat i) right = v # drop (Suc (nat i)) right"
      by (simp add: drop_nth_Cons v_def getitem_nth len_def)
    with inv(1) have "drop (nat (k - start)) Mg = v # (drop (Suc (nat i)) right @ R)" by simp
    from drop_eq_Cons[OF this]
    have mg: "Mg ! nat (k - start) = v" "drop (Suc (nat (k - start))) Mg = drop (Suc (nat i)) right @ R"
      by simp_all
    have g: "\<And>x. 0 \<le> x \<Longrightarrow> getitem a1 x = (if x = k then v else getitem a x)"
      unfolding a1_def v_def using True b by (intro getitem_setitem) auto
    have n1: "nat (k + 1 - start) = Suc (nat (k - start))" "nat (i + 1) = Suc (nat i)"
      using b by auto
    have ih: "len a' = len a1 \<and> k' = k + 1 + (len right - (i + 1)) \<and>
      drop (nat (k' - start)) Mg = R \<and>
      (\<forall>m. 0 \<le> m \<and> m < k' - start \<longrightarrow> getitem a' (start + m) = Mg ! nat m) \<and>
      same_outside arr0 a' start e"
    proof (rule "1.hyps"[OF True a1_def refl r[unfolded fin]])
      show "0 \<le> i + 1" "i + 1 \<le> len right" "0 \<le> start" "start \<le> k + 1"
        "k + 1 + (len right - (i + 1)) \<le> e + 1" "e < len a1"
        using True b by (simp_all add: a1_def)
      show "drop (nat (k + 1 - start)) Mg = drop (nat (i + 1)) right @ R"
        using mg(2) n1 by simp
      show "\<forall>m. 0 \<le> m \<and> m < k + 1 - start \<longrightarrow> getitem a1 (start + m) = Mg ! nat m"
      proof (intro allI impI)
        fix m assume m: "0 \<le> m \<and> m < k + 1 - start"
        then consider "m < k - start" | "m = k - start" by linarith
        then show "getitem a1 (start + m) = Mg ! nat m"
        proof cases
          case 1
          with m inv(2) have "getitem a (start + m) = Mg ! nat m" by simp
          with 1 m b g[of "start + m"] show ?thesis by simp
        next
          case 2
          with b g[of k] mg(1) show ?thesis by simp
        qed
      qed
      show "same_outside arr0 a1 start e"
        unfolding same_outside_def
      proof (intro allI impI)
        fix x assume x: "0 \<le> x \<and> (x < start \<or> e < x)"
        with inv(3) have "getitem a x = getitem arr0 x" by (simp add: same_outside_def)
        with x True b g[of x] show "getitem a1 x = getitem arr0 x" by auto
      qed
    qed
    then have c: "len a' = len a1" "k' = k + 1 + (len right - (i + 1))"
      "drop (nat (k' - start)) Mg = R"
      "\<forall>m. 0 \<le> m \<and> m < k' - start \<longrightarrow> getitem a' (start + m) = Mg ! nat m"
      "same_outside arr0 a' start e"
      by blast+
    have "len a' = len a" using c(1) by (simp add: a1_def)
    moreover have "k' = k + (len right - i)" using c(2) by simp
    ultimately show ?thesis using c(3-5) by blast
  qed
qed

text \<open>
  The comparing loop, against \<open>Mg\<close>, the merge of the two copies in the words of the
  specification: what is left of \<open>Mg\<close> is the merge of what is left of the two sides.
\<close>

lemma merge_while_inv:
  assumes "merge_while left right start mid e S (a, i, j, k) = (ys, (a', i', j', k'))"
    and "0 \<le> i" "i \<le> len left" "0 \<le> j" "j \<le> len right" "0 \<le> start" "k = start + i + j"
      "start + len left + len right \<le> e + 1" "e < len a"
    and "drop (nat (i + j)) Mg = spec_merge (drop (nat i) left) (drop (nat j) right)"
      "\<forall>m. 0 \<le> m \<and> m < i + j \<longrightarrow> getitem a (start + m) = Mg ! nat m"
      "same_outside arr0 a start e"
  shows "len a' = len a \<and> i \<le> i' \<and> i' \<le> len left \<and> j \<le> j' \<and> j' \<le> len right \<and>
      k' = start + i' + j' \<and> (i' = len left \<or> j' = len right) \<and>
      drop (nat (i' + j')) Mg = spec_merge (drop (nat i') left) (drop (nat j') right) \<and>
      (\<forall>m. 0 \<le> m \<and> m < i' + j' \<longrightarrow> getitem a' (start + m) = Mg ! nat m) \<and>
      same_outside arr0 a' start e"
  using assms
proof (induction left right start mid e S "(a, i, j, k)"
    arbitrary: a i j k ys rule: merge_while.induct)
  case (1 left right start mid e S a i j k)
  note run = "1.prems"(1)[unfolded merge_while.simps[of left right start mid e S a i j k]]
  note b = "1.prems"(2-9)
  note inv = "1.prems"(10-12)
  show ?case
  proof (cases "i < len left \<and> j < len right")
    case False
    with run have eq: "a' = a" "i' = i" "j' = j" "k' = k" by auto
    from False b have "i = len left \<or> j = len right" by auto
    with eq inv b show ?thesis by simp
  next
    case True
    define st where "st = (if getitem left i \<le> getitem right j
                then (setitem a k (getitem left i), i + 1, j)
                else (setitem a k (getitem right j), i, j + 1))"
    obtain a1 i1 j1 where st1: "st = (a1, i1, j1)" by (metis prod.exhaust)
    obtain zs fin where r: "merge_while left right start mid e S (a1, i1, j1, k + 1) = (zs, fin)"
      by (metis prod.exhaust)
    from run True st1 r have fin: "fin = (a', i', j', k')"
      by (auto simp: Let_def st_def)
    define x where "x = getitem left i"
    define y where "y = getitem right j"
    define v where "v = (if x \<le> y then x else y)"
    from st1 have a1: "a1 = setitem a k v" "i1 = (if x \<le> y then i + 1 else i)"
      "j1 = (if x \<le> y then j else j + 1)"
      by (auto simp: st_def x_def y_def v_def split: if_splits)
    from True b have lt: "nat i < length left" "nat j < length right"
      by (auto simp: len_def)
    from drop_nth_Cons[OF lt(1)] b have dl: "drop (nat i) left = x # drop (Suc (nat i)) left"
      by (simp add: x_def getitem_nth)
    from drop_nth_Cons[OF lt(2)] b have dr: "drop (nat j) right = y # drop (Suc (nat j)) right"
      by (simp add: y_def getitem_nth)
    have n1: "nat (i + 1) = Suc (nat i)" "nat (j + 1) = Suc (nat j)"
      "nat (i1 + j1) = Suc (nat (i + j))"
      using b a1 by auto
    have "drop (nat (i + j)) Mg = v # spec_merge (drop (nat i1) left) (drop (nat j1) right)"
    proof (cases "x \<le> y")
      case True
      have "spec_merge (x # drop (Suc (nat i)) left) (y # drop (Suc (nat j)) right) =
            x # spec_merge (drop (Suc (nat i)) left) (y # drop (Suc (nat j)) right)"
        using True by simp
      with inv(1) dl dr True a1 n1 show ?thesis by (simp add: v_def)
    next
      case False
      have "spec_merge (x # drop (Suc (nat i)) left) (y # drop (Suc (nat j)) right) =
            y # spec_merge (x # drop (Suc (nat i)) left) (drop (Suc (nat j)) right)"
        using False by simp
      with inv(1) dl dr False a1 n1 show ?thesis by (simp add: v_def)
    qed
    from drop_eq_Cons[OF this]
    have mg: "Mg ! nat (i + j) = v"
      "drop (Suc (nat (i + j))) Mg = spec_merge (drop (nat i1) left) (drop (nat j1) right)"
      by simp_all
    have g: "\<And>z. 0 \<le> z \<Longrightarrow> getitem a1 z = (if z = k then v else getitem a z)"
      unfolding a1 using True b by (intro getitem_setitem) auto
    have ij: "i1 + j1 = i + j + 1" "i \<le> i1" "j \<le> j1" "i1 \<le> len left" "j1 \<le> len right"
      using a1 True by auto
    have ih: "len a' = len a1 \<and> i1 \<le> i' \<and> i' \<le> len left \<and> j1 \<le> j' \<and> j' \<le> len right \<and>
      k' = start + i' + j' \<and> (i' = len left \<or> j' = len right) \<and>
      drop (nat (i' + j')) Mg = spec_merge (drop (nat i') left) (drop (nat j') right) \<and>
      (\<forall>m. 0 \<le> m \<and> m < i' + j' \<longrightarrow> getitem a' (start + m) = Mg ! nat m) \<and>
      same_outside arr0 a' start e"
    proof (rule "1.hyps"[OF True refl st_def st1[symmetric] refl refl r[unfolded fin]])
      show "0 \<le> i1" "i1 \<le> len left" "0 \<le> j1" "j1 \<le> len right" "0 \<le> start"
        "k + 1 = start + i1 + j1" "start + len left + len right \<le> e + 1" "e < len a1"
        using b ij by (simp_all add: a1)
      show "drop (nat (i1 + j1)) Mg = spec_merge (drop (nat i1) left) (drop (nat j1) right)"
        using mg(2) n1 by simp
      show "\<forall>m. 0 \<le> m \<and> m < i1 + j1 \<longrightarrow> getitem a1 (start + m) = Mg ! nat m"
      proof (intro allI impI)
        fix m assume m: "0 \<le> m \<and> m < i1 + j1"
        then consider "m < i + j" | "m = i + j" using ij by linarith
        then show "getitem a1 (start + m) = Mg ! nat m"
        proof cases
          case 1
          with m inv(2) have "getitem a (start + m) = Mg ! nat m" by simp
          with 1 m b g[of "start + m"] show ?thesis by simp
        next
          case 2
          with b have km: "start + m = k" by simp
          have "getitem a1 k = v" using g[of k] b by simp
          moreover have "Mg ! nat m = v" using 2 mg(1) by simp
          ultimately show ?thesis unfolding km by simp
        qed
      qed
      show "same_outside arr0 a1 start e"
        unfolding same_outside_def
      proof (intro allI impI)
        fix z assume z: "0 \<le> z \<and> (z < start \<or> e < z)"
        with inv(3) have "getitem a z = getitem arr0 z" by (simp add: same_outside_def)
        with z True b g[of z] show "getitem a1 z = getitem arr0 z" by auto
      qed
    qed
    then have c: "len a' = len a1" "i1 \<le> i'" "i' \<le> len left" "j1 \<le> j'" "j' \<le> len right"
      "k' = start + i' + j'" "i' = len left \<or> j' = len right"
      "drop (nat (i' + j')) Mg = spec_merge (drop (nat i') left) (drop (nat j') right)"
      "\<forall>m. 0 \<le> m \<and> m < i' + j' \<longrightarrow> getitem a' (start + m) = Mg ! nat m"
      "same_outside arr0 a' start e"
      by blast+
    have "len a' = len a" using c(1) by (simp add: a1)
    moreover have "i \<le> i'" "j \<le> j'" using c(2,4) ij by simp_all
    ultimately show ?thesis using c(3,5-10) by blast
  qed
qed

lemma slice_middle:
  assumes "len A = a" "len X = b - a"
  shows "slice (A @ X @ Y) a b = X"
proof -
  from assms have "nat a = length A" "nat b - nat a = length X"
    by (auto simp: len_def)
  then show ?thesis by (simp add: slice_def)
qed

lemma nth_app_right: "length xs \<le> n \<Longrightarrow> (xs @ ys) ! n = ys ! (n - length xs)"
  by (simp add: nth_append)

lemma merge_snapshots_result:
  assumes "priv_merge arr start mid e S = (ys, arr', S')"
  shows "\<exists>ys1 a1 i1 j1 k1 ys2 a2 i2 k2 ys3 j3 k3.
     merge_while (slice arr start (mid + 1)) (slice arr (mid + 1) (e + 1)) start mid e S
        (arr, 0, 0, start) = (ys1, (a1, i1, j1, k1)) \<and>
     merge_left (slice arr start (mid + 1)) S (a1, i1, k1) = (ys2, (a2, i2, k2)) \<and>
     merge_right (slice arr (mid + 1) (e + 1)) S (a2, j1, k2) = (ys3, (arr', j3, k3)) \<and>
     S' = S \<union> set (py_range start (e + 1)) \<and>
     ys = ys1 @ ys2 @ ys3 @
       [priv_state arr' (map (\<lambda>idx. (idx, SORTED)) (py_range start (e + 1))) S'
          (''Segment '' @ str start @ '':'' @ str e @ '' sorted'')]"
proof -
  define left where "left = slice arr start (mid + 1)"
  define right where "right = slice arr (mid + 1) (e + 1)"
  obtain ys1 a1 i1 j1 k1 where
    w: "merge_while left right start mid e S (arr, 0, 0, start) = (ys1, (a1, i1, j1, k1))"
    by (metis prod.exhaust)
  obtain ys2 a2 i2 k2 where l: "merge_left left S (a1, i1, k1) = (ys2, (a2, i2, k2))"
    by (metis prod.exhaust)
  obtain ys3 a3 j3 k3 where r: "merge_right right S (a2, j1, k2) = (ys3, (a3, j3, k3))"
    by (metis prod.exhaust)
  from assms w l r have "arr' = a3" "S' = S \<union> set (py_range start (e + 1))"
    "ys = ys1 @ ys2 @ ys3 @
       [priv_state a3 (map (\<lambda>idx. (idx, SORTED)) (py_range start (e + 1)))
          (S \<union> set (py_range start (e + 1)))
          (''Segment '' @ str start @ '':'' @ str e @ '' sorted'')]"
    by (auto simp: priv_merge_def Let_def left_def right_def)
  with w l r show ?thesis unfolding left_def right_def by blast
qed

lemma priv_merge_list:
  assumes run: "priv_merge arr start mid e S = (ys, arr', S')"
    and dec: "arr = A @ L @ R @ D" "len A = start" "len L = mid + 1 - start" "len R = e - mid"
  shows "arr' = A @ spec_merge L R @ D"
proof -
  define Mg where "Mg = spec_merge L R"
  have left: "slice arr start (mid + 1) = L"
    unfolding dec(1) using dec(2,3) by (rule slice_middle)
  have "slice ((A @ L) @ R @ D) (mid + 1) (e + 1) = R"
    by (rule slice_middle) (use dec(2-4) in \<open>simp_all add: len_def\<close>)
  then have right: "slice arr (mid + 1) (e + 1) = R" by (simp add: dec(1))
  have st: "0 \<le> start" using dec(2) by (simp add: len_def)
  have le: "start + len L + len R = e + 1" using dec(3,4) by simp
  have e: "e < len arr" using dec by (simp add: len_def)
  from merge_snapshots_result[OF run, unfolded left right]
  obtain ys1 a1 i1 j1 k1 ys2 a2 i2 k2 ys3 j3 k3 where
    w: "merge_while L R start mid e S (arr, 0, 0, start) = (ys1, (a1, i1, j1, k1))" and
    l: "merge_left L S (a1, i1, k1) = (ys2, (a2, i2, k2))" and
    r: "merge_right R S (a2, j1, k2) = (ys3, (arr', j3, k3))"
    by blast
  have "len a1 = len arr \<and> 0 \<le> i1 \<and> i1 \<le> len L \<and> 0 \<le> j1 \<and> j1 \<le> len R \<and>
      k1 = start + i1 + j1 \<and> (i1 = len L \<or> j1 = len R) \<and>
      drop (nat (i1 + j1)) Mg = spec_merge (drop (nat i1) L) (drop (nat j1) R) \<and>
      (\<forall>m. 0 \<le> m \<and> m < i1 + j1 \<longrightarrow> getitem a1 (start + m) = Mg ! nat m) \<and>
      same_outside arr a1 start e"
  proof (rule merge_while_inv[OF w])
    show "(0::int) \<le> 0" "0 \<le> len L" "(0::int) \<le> 0" "0 \<le> len R" "0 \<le> start"
      "start = start + 0 + 0" "start + len L + len R \<le> e + 1" "e < len arr"
      using st le e by simp_all
    show "drop (nat (0 + 0)) Mg = spec_merge (drop (nat 0) L) (drop (nat 0) R)"
      by (simp add: Mg_def)
    show "\<forall>m. 0 \<le> m \<and> m < 0 + 0 \<longrightarrow> getitem arr (start + m) = Mg ! nat m" by auto
    show "same_outside arr arr start e" by simp
  qed
  then have w': "len a1 = len arr" "0 \<le> i1" "i1 \<le> len L" "0 \<le> j1" "j1 \<le> len R"
    "k1 = start + i1 + j1" "i1 = len L \<or> j1 = len R"
    "drop (nat (i1 + j1)) Mg = spec_merge (drop (nat i1) L) (drop (nat j1) R)"
    "\<forall>m. 0 \<le> m \<and> m < i1 + j1 \<longrightarrow> getitem a1 (start + m) = Mg ! nat m"
    "same_outside arr a1 start e"
    by blast+
  have rest: "spec_merge (drop (nat i1) L) (drop (nat j1) R) = drop (nat i1) L @ drop (nat j1) R"
    using w'(7) by (auto simp: len_def)
  have "len a2 = len a1 \<and> k2 = k1 + (len L - i1) \<and> drop (nat (k2 - start)) Mg = drop (nat j1) R \<and>
      (\<forall>m. 0 \<le> m \<and> m < k2 - start \<longrightarrow> getitem a2 (start + m) = Mg ! nat m) \<and>
      same_outside arr a2 start e"
  proof (rule merge_left_inv[OF l])
    show "0 \<le> i1" "i1 \<le> len L" "0 \<le> start" "start \<le> k1" "k1 + (len L - i1) \<le> e + 1"
      "e < len a1"
      using w'(1-6) st le e by simp_all
    show "drop (nat (k1 - start)) Mg = drop (nat i1) L @ drop (nat j1) R"
      using w'(6,8) rest by simp
    show "\<forall>m. 0 \<le> m \<and> m < k1 - start \<longrightarrow> getitem a1 (start + m) = Mg ! nat m"
      using w'(6,9) by simp
    show "same_outside arr a1 start e" by (rule w'(10))
  qed
  then have l': "len a2 = len a1" "k2 = k1 + (len L - i1)"
    "drop (nat (k2 - start)) Mg = drop (nat j1) R"
    "\<forall>m. 0 \<le> m \<and> m < k2 - start \<longrightarrow> getitem a2 (start + m) = Mg ! nat m"
    "same_outside arr a2 start e"
    by blast+
  have "len arr' = len a2 \<and> k3 = k2 + (len R - j1) \<and> drop (nat (k3 - start)) Mg = [] \<and>
      (\<forall>m. 0 \<le> m \<and> m < k3 - start \<longrightarrow> getitem arr' (start + m) = Mg ! nat m) \<and>
      same_outside arr arr' start e"
  proof (rule merge_right_inv[OF r])
    show "0 \<le> j1" "j1 \<le> len R" "0 \<le> start" "start \<le> k2" "k2 + (len R - j1) \<le> e + 1"
      "e < len a2"
      using w'(1-6) l'(1,2) st le e by simp_all
    show "drop (nat (k2 - start)) Mg = drop (nat j1) R @ []"
      using l'(3) by simp
    show "\<forall>m. 0 \<le> m \<and> m < k2 - start \<longrightarrow> getitem a2 (start + m) = Mg ! nat m"
      by (rule l'(4))
    show "same_outside arr a2 start e" by (rule l'(5))
  qed
  then have r': "len arr' = len a2" "k3 = k2 + (len R - j1)"
    "\<And>m. 0 \<le> m \<Longrightarrow> m < k3 - start \<Longrightarrow> getitem arr' (start + m) = Mg ! nat m"
    "\<And>z. 0 \<le> z \<Longrightarrow> z < start \<or> e < z \<Longrightarrow> getitem arr' z = getitem arr z"
    by (simp_all add: same_outside_def)
  have k3: "k3 - start = len L + len R" using r'(2) l'(2) w'(6) by simp
  have len: "length arr' = length arr" using r'(1) l'(1) w'(1) by (simp add: len_def)
  have lens: "start = int (length A)" "length Mg = length L + length R"
    "e + 1 = int (length A + length L + length R)"
    using dec(2) le by (simp_all add: len_def Mg_def)
  have "arr' = A @ Mg @ D"
  proof (rule nth_equalityI)
    show "length arr' = length (A @ Mg @ D)"
      using len lens by (simp add: dec(1))
  next
    fix x assume x: "x < length arr'"
    consider "x < length A" | "length A \<le> x" "x < length A + length Mg"
      | "length A + length Mg \<le> x" by linarith
    then show "arr' ! x = (A @ Mg @ D) ! x"
    proof cases
      case 1
      with r'(4)[of "int x"] lens have "getitem arr' (int x) = getitem arr (int x)" by simp
      with 1 show ?thesis by (simp add: getitem_nth dec(1) nth_append)
    next
      case 2
      define m where "m = int x - start"
      from 2 lens have m: "0 \<le> m" "m < len L + len R" "start + m = int x" "nat m = x - length A"
        by (auto simp: m_def len_def)
      from r'(3)[of m] m k3 have "getitem arr' (int x) = Mg ! (x - length A)" by simp
      moreover from 2 have "x - length A < length Mg" "\<not> x < length A" by simp_all
      ultimately show ?thesis by (simp add: getitem_nth nth_append)
    next
      case 3
      with r'(4)[of "int x"] lens have "getitem arr' (int x) = getitem arr (int x)" by simp
      then have "arr' ! x = arr ! x" by (simp add: getitem_nth)
      also have "arr ! x = ((A @ L @ R) @ D) ! x" by (simp add: dec(1))
      also have "\<dots> = D ! (x - length (A @ L @ R))"
        by (rule nth_app_right) (use 3 lens in simp)
      also have "\<dots> = D ! (x - length (A @ Mg))" using lens by simp
      also have "\<dots> = ((A @ Mg) @ D) ! x"
        by (rule nth_app_right[symmetric]) (use 3 in simp)
      finally show ?thesis by simp
    qed
  qed
  then show ?thesis by (simp add: Mg_def)
qed

lemma priv_merge_sort_sorts:
  assumes "priv_merge_sort arr start e S = (ys, arr', S')"
    and "arr = A @ X @ D" "len A = start" "len X = e + 1 - start" "start \<le> e"
  shows "\<exists>M :: 'a::linorder list. arr' = A @ M @ D \<and> sorted M \<and> mset M = mset X"
  using assms
proof (induction arr start e S arbitrary: ys arr' S' A X D rule: priv_merge_sort.induct)
  case (1 arr start e S)
  note run = "1.prems"(1)[unfolded priv_merge_sort.simps[of arr start e S]]
  note dec = "1.prems"(2-5)
  show ?case
  proof (cases "start \<ge> e")
    case True
    with run have "arr' = arr" by (auto simp: Let_def)
    moreover from True dec have "length X = 1" by (simp add: len_def)
    then have "sorted X" by (cases X) auto
    ultimately show ?thesis using dec(1) by blast
  next
    case False
    define mid where "mid = (start + e) div 2"
    have mid: "start \<le> mid" "mid < e" using False by (auto simp: mid_def)
    obtain ys1 a1 S1 where l: "priv_merge_sort arr start mid S = (ys1, a1, S1)"
      by (metis prod.exhaust)
    obtain ys2 a2 S2 where r: "priv_merge_sort a1 (mid + 1) e S1 = (ys2, a2, S2)"
      by (metis prod.exhaust)
    obtain ys3 a3 S3 where m: "priv_merge a2 start mid e S2 = (ys3, a3, S3)"
      by (metis prod.exhaust)
    from run False l r m have eq: "arr' = a3" by (auto simp: Let_def mid_def)
    define B where "B = take (nat (mid + 1 - start)) X"
    define C where "C = drop (nat (mid + 1 - start)) X"
    have X: "X = B @ C" by (simp add: B_def C_def)
    have lens: "len B = mid + 1 - start" "len C = e - mid"
      using dec(3) mid by (auto simp: B_def C_def len_def)
    have "\<exists>M. a1 = A @ M @ (C @ D) \<and> sorted M \<and> mset M = mset B"
    proof (rule "1.IH"(1)[OF False mid_def l])
      show "arr = A @ B @ C @ D" using dec(1) X by simp
      show "len A = start" by (rule dec(2))
      show "len B = mid + 1 - start" by (rule lens(1))
      show "start \<le> mid" by (rule mid(1))
    qed
    then obtain M1 where M1: "a1 = A @ M1 @ C @ D" "sorted M1" "mset M1 = mset B" by auto
    from M1(3) have lM1: "len M1 = len B" using mset_eq_length[of M1 B] by (simp add: len_def)
    have "\<exists>M. a2 = (A @ M1) @ M @ D \<and> sorted M \<and> mset M = mset C"
    proof (rule "1.IH"(2)[OF False mid_def l[symmetric] refl r])
      show "a1 = (A @ M1) @ C @ D" using M1(1) by simp
      show "len (A @ M1) = mid + 1" using dec(2) lM1 lens(1) by (simp add: len_def)
      show "len C = e + 1 - (mid + 1)" using lens(2) by simp
      show "mid + 1 \<le> e" using mid(2) by simp
    qed
    then obtain M2 where M2: "a2 = A @ M1 @ M2 @ D" "sorted M2" "mset M2 = mset C" by auto
    from M2(3) have lM2: "len M2 = len C" using mset_eq_length[of M2 C] by (simp add: len_def)
    have "a3 = A @ spec_merge M1 M2 @ D"
      by (rule priv_merge_list[OF m M2(1) dec(2)]) (use lM1 lM2 lens in simp_all)
    moreover have "sorted (spec_merge M1 M2)" using M1(2) M2(2) by (rule sorted_spec_merge)
    moreover have "mset (spec_merge M1 M2) = mset X" using M1(3) M2(3) X by simp
    ultimately show ?thesis using eq by blast
  qed
qed

lemma merge_sort_sorts:
  "sorted (array (last (merge_sort xs))) \<and>
   mset (array (last (merge_sort xs))) = mset (xs :: 'a::linorder list)"
proof (cases "xs = []")
  case True
  then show ?thesis by (simp add: merge_sort_def)
next
  case False
  obtain ys a1 S1 where f: "priv_merge_sort xs 0 (len xs - 1) {} = (ys, a1, S1)"
    by (metis prod.exhaust)
  have "\<exists>M. a1 = [] @ M @ [] \<and> sorted M \<and> mset M = mset xs"
    by (rule priv_merge_sort_sorts[OF f]) (use False in \<open>simp_all add: len_def\<close>)
  then have "sorted a1" "mset a1 = mset xs" by auto
  with f False show ?thesis by (simp add: merge_sort_def Let_def)
qed

section \<open>Every engine sorts\<close>

lemma insertion_sort_2_3_1:
  "array (last (insertion_sort [2, 3, 1])) = [1, 2, 3] \<and>
   sorted_indices (last (insertion_sort [2, 3, 1])) = [0, 1, 2]"
  by code_simp

text \<open>
  C1: for every input and each of the five engines, the array of the last snapshot is
  ascending and has the elements of the input with their multiplicities, and its sorted
  indices are the whole index range \<open>0..n-1\<close> of the input.
\<close>

theorem engines_sort:
  "\<forall>e \<in> set engines. \<forall>xs.
     sorted (array (last (e xs))) \<and> mset (array (last (e xs))) = mset xs \<and>
     sorted_indices (last (e xs)) = py_range 0 (len xs)"
  unfolding engines_def
  using bubble_sort_sorts insertion_sort_sorts selection_sort_sorts quick_sort_sorts
    merge_sort_sorts[where 'a=int]
    run_shape(5)[OF bubble_sort_shape] run_shape(5)[OF insertion_sort_shape]
    run_shape(5)[OF selection_sort_shape] run_shape(5)[OF quick_sort_shape]
    run_shape(5)[OF merge_sort_shape[where 'a=int]]
  by simp

theorem engines_sort_witness:
  "insertion_sort \<in> set engines \<and>
   array (last (insertion_sort [2, 3, 1])) = [1, 2, 3] \<and>
   sorted (array (last (insertion_sort [2, 3, 1]))) \<and>
   mset (array (last (insertion_sort [2, 3, 1]))) = mset [2, 3, 1] \<and>
   sorted_indices (last (insertion_sort [2, 3, 1])) = [0, 1, 2]"
proof -
  have e: "insertion_sort \<in> set engines" by (simp add: engines_def)
  with engines_sort have "sorted (array (last (insertion_sort [2, 3, 1]))) \<and>
     mset (array (last (insertion_sort [2, 3, 1]))) = mset [2, 3, 1] \<and>
     sorted_indices (last (insertion_sort [2, 3, 1])) = py_range 0 (len [2, 3, 1 :: int])"
    by blast
  with e insertion_sort_2_3_1 show ?thesis by simp
qed

section \<open>The merge step\<close>

lemma dict_of_single [simp]: "dict_of [(k, v)] = [(k, v)]"
  by (simp add: dict_of_def)














end
